(* ===== verification/Prelude.thy ===== *)
theory Prelude
  imports Main "HOL-Library.Word"
begin

text \<open>
  Shared vocabulary of the development: the machine types of the C program, the ways a C
  function can fail, scanning loops over arrays, the lexicographic order of request stamps,
  and the interfaces (locales) through which transition systems are related: an invariant
  of a step relation, and a refinement up to stuttering between two step relations.
\<close>

section \<open>Machine types and faults\<close>

type_synonym byte = "8 word"
type_synonym u16 = "16 word"
type_synonym u32 = "32 word"
type_synonym u64 = "64 word"
type_synonym host = nat
type_synonym cid = nat

named_theorems server_defs \<open>definitions of the state updates of a lock server\<close>
named_theorems codec_laws \<open>decoding what was encoded\<close>

text \<open>
  The value of a C \<open>int\<close> expression whose mathematical result is \<open>x\<close>: two's complement
  wrap-around to 32 bits, which is what the supported compilers produce.
\<close>

definition c_int :: "int \<Rightarrow> int" where
  "c_int x = (x + 2 ^ 31) mod 2 ^ 32 - 2 ^ 31"

definition INT_MAX :: int where
  "INT_MAX = 2 ^ 31 - 1"

text \<open>How a C function can leave its caller other than by returning.\<close>

datatype c_fault =
    Assertion_failed
  | Exit_failure
  | Null_dereference
  | Out_of_bounds
  | Uninitialised_read
  | Use_after_free

type_synonym 'a outcome = "c_fault + 'a"

section \<open>Scanning loops\<close>

text \<open>\<open>for (i = 0; i < len; ++i) if (P(a[i])) return i;\<close>\<close>

fun first_index :: "('a \<Rightarrow> bool) \<Rightarrow> 'a list \<Rightarrow> nat option" where
  "first_index P [] = None"
| "first_index P (x # xs) = (if P x then Some 0 else map_option Suc (first_index P xs))"

section \<open>Request stamps\<close>

text \<open>
  A request is ordered by its sequence number and, between equal numbers, by the requester's
  hardware address.
\<close>

datatype stamp = Stamp (stamp_seq: int) (stamp_mac: u64)

instantiation stamp :: linorder
begin

definition less_eq_stamp :: "stamp \<Rightarrow> stamp \<Rightarrow> bool" where
  "less_eq_stamp a b \<longleftrightarrow>
     stamp_seq a < stamp_seq b \<or> stamp_seq a = stamp_seq b \<and> stamp_mac a \<le> stamp_mac b"

definition less_stamp :: "stamp \<Rightarrow> stamp \<Rightarrow> bool" where
  "less_stamp a b \<longleftrightarrow>
     stamp_seq a < stamp_seq b \<or> stamp_seq a = stamp_seq b \<and> stamp_mac a < stamp_mac b"

instance
  by standard (auto simp: less_eq_stamp_def less_stamp_def stamp.expand)

end

section \<open>Lemmas on the shared vocabulary\<close>

lemma c_int_id: "- (2 ^ 31) \<le> x \<Longrightarrow> x \<le> INT_MAX \<Longrightarrow> c_int x = x"
  by (simp add: c_int_def INT_MAX_def)

lemma c_int_range: "- (2 ^ 31) \<le> c_int x \<and> c_int x \<le> INT_MAX"
proof -
  have "0 \<le> (x + 2 ^ 31) mod (2 ^ 32 :: int)" and "(x + 2 ^ 31) mod (2 ^ 32 :: int) < 2 ^ 32"
    by simp_all
  then show ?thesis by (simp add: c_int_def INT_MAX_def)
qed

lemma c_int_wraps: "c_int (INT_MAX + 1) = - (2 ^ 31)"
  by (simp add: c_int_def INT_MAX_def)

lemma first_index_SomeD:
  "first_index P xs = Some i \<Longrightarrow> i < length xs \<and> P (xs ! i) \<and> (\<forall>j < i. \<not> P (xs ! j))"
proof (induction xs arbitrary: i)
  case Nil
  then show ?case by simp
next
  case (Cons x xs)
  show ?case
  proof (cases "P x")
    case True
    with Cons.prems show ?thesis by simp
  next
    case False
    with Cons.prems obtain k where "first_index P xs = Some k" and "i = Suc k" by auto
    with False Cons.IH show ?thesis by (auto simp: nth_Cons split: nat.splits)
  qed
qed

lemma first_index_None_iff: "first_index P xs = None \<longleftrightarrow> (\<forall>x \<in> set xs. \<not> P x)"
  by (induction xs) auto

lemma first_index_append:
  "first_index P (xs @ [x]) =
     (case first_index P xs of Some i \<Rightarrow> Some i | None \<Rightarrow> if P x then Some (length xs) else None)"
  by (induction xs) (auto split: option.splits)

lemma stamp_less_simp [simp]: "Stamp k m < Stamp k' m' \<longleftrightarrow> k < k' \<or> k = k' \<and> m < m'"
  by (simp add: less_stamp_def)

section \<open>Interfaces between transition systems\<close>

text \<open>An inductive invariant holds in every state a run reaches.\<close>

locale invariant_system =
  fixes step :: "'s \<Rightarrow> 's \<Rightarrow> bool" and inv :: "'s \<Rightarrow> bool"
  assumes inv_step: "inv s \<Longrightarrow> step s t \<Longrightarrow> inv t"
begin

lemma inv_run: "step\<^sup>*\<^sup>* s t \<Longrightarrow> inv s \<Longrightarrow> inv t"
  by (induction rule: rtranclp_induct) (auto intro: inv_step)

end

text \<open>
  A detailed system implements an abstract one up to stuttering: every detailed step from a
  state that satisfies both invariants is an abstract step or leaves the abstraction alone.
\<close>

locale stuttering_refinement =
  abstr: invariant_system astep ainv
  for astep :: "'a \<Rightarrow> 'a \<Rightarrow> bool" and ainv :: "'a \<Rightarrow> bool" +
  fixes cstep :: "'c \<Rightarrow> 'c \<Rightarrow> bool" and cinv :: "'c \<Rightarrow> bool" and abs :: "'c \<Rightarrow> 'a"
  assumes cinv_step: "cinv s \<Longrightarrow> ainv (abs s) \<Longrightarrow> cstep s t \<Longrightarrow> cinv t"
    and refines: "cinv s \<Longrightarrow> ainv (abs s) \<Longrightarrow> cstep s t \<Longrightarrow>
      abs t = abs s \<or> astep (abs s) (abs t)"
begin

lemma abs_run:
  assumes "cstep\<^sup>*\<^sup>* s t" and "cinv s" and "ainv (abs s)"
  shows "cinv t \<and> ainv (abs t) \<and> astep\<^sup>*\<^sup>* (abs s) (abs t)"
  using assms
proof (induction rule: rtranclp_induct)
  case base
  then show ?case by simp
next
  case (step t u)
  then have t: "cinv t" "ainv (abs t)" "astep\<^sup>*\<^sup>* (abs s) (abs t)" by simp_all
  from t(1,2) step.hyps(2) have "cinv u" by (rule cinv_step)
  moreover from refines [OF t(1,2) step.hyps(2)] t(2,3)
  have "ainv (abs u) \<and> astep\<^sup>*\<^sup>* (abs s) (abs u)"
    by (auto intro: abstr.inv_step)
  ultimately show ?case by simp
qed

end

end
