(* ===== verification/Pthread.thy ===== *)
theory Pthread
  imports Prelude
begin

text \<open>
  The part of the POSIX thread library the servers call: a default mutex with its lock word
  and the mark a destroyed mutex carries. A thread that sleeps in \<open>pthread_mutex_lock\<close> is a
  thread whose step is not enabled. POSIX leaves locking a destroyed mutex undefined; the
  parameter \<open>einval\<close> of the operations chooses between returning at once (glibc, which
  answers \<open>EINVAL\<close>) and never returning. Destroying a locked mutex fails with \<open>EBUSY\<close> and changes nothing.
\<close>

record mutex =
  mx_locked :: bool
  mx_destroyed :: bool

datatype lock_attempt = Acquired mutex | Refused | Asleep

definition pthread_mutex_init :: mutex where
  "pthread_mutex_init = \<lparr>mx_locked = False, mx_destroyed = False\<rparr>"

definition pthread_mutex_lock :: "bool \<Rightarrow> mutex \<Rightarrow> lock_attempt" where
  "pthread_mutex_lock einval m =
     (if mx_destroyed m then (if einval then Refused else Asleep)
      else if mx_locked m then Asleep
      else Acquired (m\<lparr>mx_locked := True\<rparr>))"

definition pthread_mutex_unlock :: "mutex \<Rightarrow> mutex" where
  "pthread_mutex_unlock m = m\<lparr>mx_locked := False\<rparr>"

definition pthread_mutex_destroy :: "mutex \<Rightarrow> mutex" where
  "pthread_mutex_destroy m = (if mx_locked m then m else m\<lparr>mx_destroyed := True\<rparr>)"

lemmas pthread_defs = pthread_mutex_init_def pthread_mutex_lock_def pthread_mutex_unlock_def
  pthread_mutex_destroy_def

end
