(* ===== verification/Xdr.thy ===== *)
theory Xdr
  imports Prelude
begin

text \<open>
  External data representation (RFC 4506), the wire format of every remote call of the
  program. A filter (\<open>xdrproc\<close>) is a pair of an encoder and a decoder, as one C filter serves
  both directions; the primitive filters are those of the C library, the combinators build
  filters for arrays and structures the way the generated code calls them in sequence. The
  locale \<open>codec\<close> is the contract between a message type and its users: decoding an encoded
  value gives the value back and leaves the rest of the stream alone.
\<close>

section \<open>Filters\<close>

record 'a xdrproc =
  x_put :: "'a \<Rightarrow> byte list option"
  x_get :: "byte list \<Rightarrow> ('a \<times> byte list) option"

text \<open>Big-endian digits.\<close>

fun be_bytes :: "nat \<Rightarrow> nat \<Rightarrow> byte list" where
  "be_bytes 0 n = []"
| "be_bytes (Suc k) n = be_bytes k (n div 256) @ [of_nat (n mod 256)]"

definition be_val :: "byte list \<Rightarrow> nat" where
  "be_val bs = foldl (\<lambda>a b. a * 256 + unat b) 0 bs"

definition get_bytes :: "nat \<Rightarrow> byte list \<Rightarrow> (byte list \<times> byte list) option" where
  "get_bytes k bs = (if k \<le> length bs then Some (take k bs, drop k bs) else None)"

section \<open>Primitive filters\<close>

definition xdr_u_int :: "u32 xdrproc" where
  "xdr_u_int = \<lparr>x_put = (\<lambda>w. Some (be_bytes 4 (unat w))),
     x_get = (\<lambda>bs. map_option (\<lambda>(b, r). (of_nat (be_val b), r)) (get_bytes 4 bs))\<rparr>"

definition xdr_u_hyper :: "u64 xdrproc" where
  "xdr_u_hyper = \<lparr>x_put = (\<lambda>w. Some (be_bytes 8 (unat w))),
     x_get = (\<lambda>bs. map_option (\<lambda>(b, r). (of_nat (be_val b), r)) (get_bytes 8 bs))\<rparr>"

text \<open>
  A filter that converts before encoding and after decoding; the encoder refuses what the C
  type of the argument cannot hold.
\<close>

definition xdr_conv :: "('b \<Rightarrow> bool) \<Rightarrow> ('b \<Rightarrow> 'a) \<Rightarrow> ('a \<Rightarrow> 'b) \<Rightarrow> 'a xdrproc \<Rightarrow> 'b xdrproc" where
  "xdr_conv ok f g p = \<lparr>x_put = (\<lambda>v. if ok v then x_put p (f v) else None),
     x_get = (\<lambda>bs. map_option (\<lambda>(v, r). (g v, r)) (x_get p bs))\<rparr>"

definition is_c_int :: "int \<Rightarrow> bool" where
  "is_c_int i \<longleftrightarrow> - (2 ^ 31) \<le> i \<and> i \<le> INT_MAX"

definition xdr_int :: "int xdrproc" where
  "xdr_int = xdr_conv is_c_int word_of_int sint xdr_u_int"

text \<open>Shorts and characters travel as four bytes; a character is sign-extended.\<close>

definition xdr_u_short :: "u16 xdrproc" where
  "xdr_u_short = xdr_conv (\<lambda>w. True) ucast ucast xdr_u_int"

definition xdr_char :: "byte xdrproc" where
  "xdr_char = xdr_conv (\<lambda>w. True) scast ucast xdr_u_int"

definition xdr_void :: "unit xdrproc" where
  "xdr_void = \<lparr>x_put = (\<lambda>_. Some []), x_get = (\<lambda>bs. Some ((), bs))\<rparr>"

text \<open>Counted bytes are padded with zeroes to a multiple of four.\<close>

definition xdr_pad :: "nat \<Rightarrow> nat" where
  "xdr_pad n = (4 - n mod 4) mod 4"

definition xdr_bytes :: "nat \<Rightarrow> byte list xdrproc" where
  "xdr_bytes maxlen = \<lparr>
     x_put = (\<lambda>bs. if length bs \<le> maxlen \<and> length bs < 2 ^ 32
        then Some (be_bytes 4 (length bs) @ bs @ replicate (xdr_pad (length bs)) 0) else None),
     x_get = (\<lambda>bs. case get_bytes 4 bs of None \<Rightarrow> None | Some (l, r) \<Rightarrow>
        if be_val l \<le> maxlen then
          (case get_bytes (be_val l) r of None \<Rightarrow> None | Some (d, r') \<Rightarrow>
            (case get_bytes (xdr_pad (be_val l)) r' of None \<Rightarrow> None | Some (_, r'') \<Rightarrow> Some (d, r'')))
        else None)\<rparr>"

text \<open>A C string is its characters before the terminating zero.\<close>

definition char_byte :: "char \<Rightarrow> byte" where
  "char_byte c = of_nat (of_char c)"

definition byte_char :: "byte \<Rightarrow> char" where
  "byte_char b = char_of (unat b)"

definition NUL :: char where
  "NUL = CHR 0x00"

definition is_c_string :: "string \<Rightarrow> bool" where
  "is_c_string s \<longleftrightarrow> NUL \<notin> set s"

definition xdr_wrapstring :: "string xdrproc" where
  "xdr_wrapstring = xdr_conv is_c_string (map char_byte)
     (\<lambda>bs. takeWhile (\<lambda>c. c \<noteq> NUL) (map byte_char bs)) (xdr_bytes (2 ^ 32 - 1))"

section \<open>Combinators\<close>

definition xdr_pair :: "'a xdrproc \<Rightarrow> 'b xdrproc \<Rightarrow> ('a \<times> 'b) xdrproc" where
  "xdr_pair p q = \<lparr>
     x_put = (\<lambda>(a, b). case x_put p a of None \<Rightarrow> None | Some u \<Rightarrow> map_option (\<lambda>v. u @ v) (x_put q b)),
     x_get = (\<lambda>bs. case x_get p bs of None \<Rightarrow> None | Some (a, r) \<Rightarrow>
        map_option (\<lambda>(b, r'). ((a, b), r')) (x_get q r))\<rparr>"

fun put_vector :: "('a \<Rightarrow> byte list option) \<Rightarrow> 'a list \<Rightarrow> byte list option" where
  "put_vector f [] = Some []"
| "put_vector f (x # xs) =
     (case f x of None \<Rightarrow> None | Some u \<Rightarrow> map_option (\<lambda>v. u @ v) (put_vector f xs))"

fun get_vector :: "nat \<Rightarrow> (byte list \<Rightarrow> ('a \<times> byte list) option) \<Rightarrow> byte list \<Rightarrow> ('a list \<times> byte list) option" where
  "get_vector 0 f bs = Some ([], bs)"
| "get_vector (Suc n) f bs =
     (case f bs of None \<Rightarrow> None | Some (x, r) \<Rightarrow>
        map_option (\<lambda>(xs, r'). (x # xs, r')) (get_vector n f r))"

text \<open>An array of fixed length carries no length on the wire.\<close>

definition xdr_vector :: "nat \<Rightarrow> 'a xdrproc \<Rightarrow> 'a list xdrproc" where
  "xdr_vector n p = \<lparr>x_put = (\<lambda>xs. if length xs = n then put_vector (x_put p) xs else None),
     x_get = get_vector n (x_get p)\<rparr>"

definition xdr_struct :: "('r \<Rightarrow> 'a) \<Rightarrow> ('a \<Rightarrow> 'r) \<Rightarrow> 'a xdrproc \<Rightarrow> 'r xdrproc" where
  "xdr_struct = xdr_conv (\<lambda>_. True)"

section \<open>The contract of a filter\<close>

locale codec =
  fixes p :: "'a xdrproc"
  assumes get_put: "x_put p v = Some w \<Longrightarrow> x_get p (w @ r) = Some (v, r)"
begin

lemma put_inj: "x_put p v = Some w \<Longrightarrow> x_put p v' = Some w \<Longrightarrow> v = v'"
  using get_put [of v w "[]"] get_put [of v' w "[]"] by simp

text \<open>No encoding is a proper prefix of another one, so messages can follow each other.\<close>

lemma put_prefix_free:
  "x_put p v = Some w \<Longrightarrow> x_put p v' = Some w' \<Longrightarrow> w' = w @ r \<Longrightarrow> v' = v \<and> r = []"
  using get_put [of v w r] get_put [of v' w' "[]"] by simp

end

text \<open>Filters whose encodings all have the same length, as fixed-size structures have.\<close>

locale sized_codec = codec p for p :: "'a xdrproc" +
  fixes len :: nat
  assumes put_size: "x_put p v = Some w \<Longrightarrow> length w = len"
    and get_size: "x_get p bs = Some (v, r) \<Longrightarrow> length bs = len + length r"
begin

lemma get_short: "length bs < len \<Longrightarrow> x_get p bs = None"
  using get_size by (cases "x_get p bs") fastforce+

end

section \<open>Lemmas\<close>

lemma length_be_bytes [simp]: "length (be_bytes k n) = k"
  by (induction k arbitrary: n) simp_all

lemma be_bytes_4: "be_bytes 4 n = [of_nat (n div 256 div 256 div 256 mod 256),
    of_nat (n div 256 div 256 mod 256), of_nat (n div 256 mod 256), of_nat (n mod 256)]"
proof -
  have "(4 :: nat) = Suc (Suc (Suc (Suc 0)))" by simp
  then show ?thesis by (simp only: be_bytes.simps append.simps)
qed

lemma unat_minus_1: "unat (- 1 :: u32) = 4294967295"
  by (simp add: unsigned_minus_1_eq_mask mask_eq_exp_minus_1)

lemma be_bytes_8: "be_bytes 8 n = be_bytes 4 (n div 256 ^ 4) @ be_bytes 4 n"
proof -
  have "be_bytes (k + j) m = be_bytes k (m div 256 ^ j) @ be_bytes j m" for k j m
    by (induction j arbitrary: m) (simp_all add: div_mult2_eq)
  from this [of 4 4 n] show ?thesis by simp
qed

lemma be_val_append: "be_val (bs @ [b]) = be_val bs * 256 + unat b"
  by (simp add: be_val_def)

lemma be_val_be_bytes: "be_val (be_bytes k n) = n mod 256 ^ k"
proof (induction k arbitrary: n)
  case 0
  then show ?case by (simp add: be_val_def)
next
  case (Suc k)
  have "be_val (be_bytes (Suc k) n) = (n div 256 mod 256 ^ k) * 256 + n mod 256"
    using Suc by (simp add: be_val_append unat_of_nat)
  also have "\<dots> = n mod (256 * 256 ^ k)" by (simp add: mod_mult2_eq)
  finally show ?case by simp
qed

lemma get_bytes_append [simp]: "length b = k \<Longrightarrow> get_bytes k (b @ r) = Some (b, r)"
  by (simp add: get_bytes_def)

lemma get_bytes_size: "get_bytes k bs = Some (b, r) \<Longrightarrow> length bs = k + length r \<and> length b = k"
  by (auto simp: get_bytes_def split: if_splits)

lemma sized_u_int [codec_laws]: "sized_codec xdr_u_int 4"
proof
  fix v w r
  assume "x_put xdr_u_int v = Some w"
  then have w: "w = be_bytes 4 (unat v)" by (simp add: xdr_u_int_def)
  have "unat v < 2 ^ 32" using unsigned_less [of v, where ?'a = nat] by simp
  then show "x_get xdr_u_int (w @ r) = Some (v, r)" by (simp add: w xdr_u_int_def be_val_be_bytes)
  show "length w = 4" by (simp add: w)
next
  fix bs v r
  assume "x_get xdr_u_int bs = Some (v, r)"
  then show "length bs = 4 + length r" by (auto simp: xdr_u_int_def dest!: get_bytes_size)
qed

lemma sized_u_hyper [codec_laws]: "sized_codec xdr_u_hyper 8"
proof
  fix v w r
  assume "x_put xdr_u_hyper v = Some w"
  then have w: "w = be_bytes 8 (unat v)" by (simp add: xdr_u_hyper_def)
  have "unat v < 2 ^ 64" using unsigned_less [of v, where ?'a = nat] by simp
  then show "x_get xdr_u_hyper (w @ r) = Some (v, r)" by (simp add: w xdr_u_hyper_def be_val_be_bytes)
  show "length w = 8" by (simp add: w)
next
  fix bs v r
  assume "x_get xdr_u_hyper bs = Some (v, r)"
  then show "length bs = 8 + length r" by (auto simp: xdr_u_hyper_def dest!: get_bytes_size)
qed

lemma codec_conv: "codec p \<Longrightarrow> (\<And>v. ok v \<Longrightarrow> g (f v) = v) \<Longrightarrow> codec (xdr_conv ok f g p)"
  by (auto simp: codec_def xdr_conv_def split: if_splits)

lemma sized_conv:
  assumes "sized_codec p n" and "\<And>v. ok v \<Longrightarrow> g (f v) = v"
  shows "sized_codec (xdr_conv ok f g p) n"
proof -
  have "codec (xdr_conv ok f g p)"
    using assms by (intro codec_conv) (auto simp: sized_codec_def)
  then show ?thesis
    using assms(1)
    by (auto simp: sized_codec_def sized_codec_axioms_def xdr_conv_def split: if_splits)
qed

lemma sized_struct: "sized_codec p n \<Longrightarrow> (\<And>v. g (f v) = v) \<Longrightarrow> sized_codec (xdr_struct f g p) n"
  unfolding xdr_struct_def by (rule sized_conv)

lemma codec_struct: "codec p \<Longrightarrow> (\<And>v. g (f v) = v) \<Longrightarrow> codec (xdr_struct f g p)"
  unfolding xdr_struct_def by (rule codec_conv)

lemma sint_word_of_int: "is_c_int i \<Longrightarrow> sint (word_of_int i :: u32) = i"
  by (simp add: is_c_int_def INT_MAX_def sint_sbintrunc' signed_take_bit_int_eq_self)

lemma sized_int [codec_laws]: "sized_codec xdr_int 4"
  unfolding xdr_int_def by (rule sized_conv [OF sized_u_int]) (rule sint_word_of_int)

lemma ucast_ucast_short: "ucast (ucast (w :: u16) :: u32) = w"
  by (rule bit_word_eqI) (simp add: bit_simps)

lemma sized_u_short [codec_laws]: "sized_codec xdr_u_short 4"
  unfolding xdr_u_short_def by (rule sized_conv [OF sized_u_int]) (rule ucast_ucast_short)

lemma ucast_scast_byte: "ucast (scast (b :: byte) :: u32) = b"
  by (rule bit_word_eqI) (simp add: bit_simps)

lemma sized_char [codec_laws]: "sized_codec xdr_char 4"
  unfolding xdr_char_def by (rule sized_conv [OF sized_u_int]) (rule ucast_scast_byte)

lemma sized_void [codec_laws]: "sized_codec xdr_void 0"
  by unfold_locales (auto simp: xdr_void_def)

lemma codec_sized: "sized_codec p n \<Longrightarrow> codec p"
  by (simp add: sized_codec_def)

lemma codec_pair: "codec p \<Longrightarrow> codec q \<Longrightarrow> codec (xdr_pair p q)"
  by (auto simp: codec_def xdr_pair_def split: option.splits)

lemma sized_pair [codec_laws]:
  assumes "sized_codec p m" and "sized_codec q n"
  shows "sized_codec (xdr_pair p q) (m + n)"
proof -
  have "codec (xdr_pair p q)" using assms by (intro codec_pair codec_sized)
  then show ?thesis
    using assms
    by (fastforce simp: sized_codec_def sized_codec_axioms_def xdr_pair_def
        split: option.splits prod.splits)
qed

lemma put_vector_some:
  assumes "sized_codec p k" and "put_vector (x_put p) xs = Some w"
  shows "get_vector (length xs) (x_get p) (w @ r) = Some (xs, r)" and "length w = length xs * k"
proof -
  have get: "x_put p v = Some u \<Longrightarrow> x_get p (u @ r) = Some (v, r)"
    and size: "x_put p v = Some u \<Longrightarrow> length u = k" for v u r
    using assms(1) by (auto simp: sized_codec_def sized_codec_axioms_def codec_def)
  show "get_vector (length xs) (x_get p) (w @ r) = Some (xs, r)" "length w = length xs * k"
    using assms(2) by (induction xs arbitrary: w) (auto split: option.splits simp: get size)
qed

lemma get_vector_size:
  assumes "sized_codec p k" and "get_vector n (x_get p) bs = Some (xs, r)"
  shows "length bs = n * k + length r"
proof -
  have "x_get p bs = Some (v, r) \<Longrightarrow> length bs = k + length r" for v bs r
    using assms(1) by (auto simp: sized_codec_def sized_codec_axioms_def)
  then show ?thesis
    using assms(2) by (induction n arbitrary: bs xs) (fastforce split: option.splits)+
qed

lemma sized_vector [codec_laws]: "sized_codec p k \<Longrightarrow> sized_codec (xdr_vector n p) (n * k)"
  by unfold_locales
    (auto simp: xdr_vector_def put_vector_some get_vector_size split: if_splits)

lemma codec_bytes [codec_laws]: "codec (xdr_bytes n)"
proof
  fix v w r
  assume "x_put (xdr_bytes n) v = Some w"
  then have len: "length v \<le> n" "length v < 2 ^ 32"
    and w: "w = be_bytes 4 (length v) @ v @ replicate (xdr_pad (length v)) 0"
    by (auto simp: xdr_bytes_def split: if_splits)
  have "be_val (be_bytes 4 (length v)) = length v" using len(2) by (simp add: be_val_be_bytes)
  then show "x_get (xdr_bytes n) (w @ r) = Some (v, r)" using len(1) by (simp add: w xdr_bytes_def)
qed

lemma byte_char_byte [simp]: "byte_char (char_byte c) = c"
  by (simp add: byte_char_def char_byte_def unat_of_nat)

lemma codec_wrapstring [codec_laws]: "codec xdr_wrapstring"
proof -
  have "takeWhile (\<lambda>c. c \<noteq> NUL) (map byte_char (map char_byte s)) = s" if "is_c_string s" for s
    using that by (auto simp: is_c_string_def o_def intro!: takeWhile_eq_all_conv [THEN iffD2])
  then show ?thesis
    unfolding xdr_wrapstring_def by (intro codec_conv codec_bytes)
qed

interpretation u_int: sized_codec xdr_u_int 4 by (rule sized_u_int)
interpretation u_hyper: sized_codec xdr_u_hyper 8 by (rule sized_u_hyper)
interpretation wrapstring: codec xdr_wrapstring by (rule codec_wrapstring)

end
