(* ===== verification/Lock_Msg.thy ===== *)
theory Lock_Msg
  imports Xdr
begin

text \<open>
  The messages of the lock manager: the structure \<open>RequestPack\<close> and its filter from
  \<^verbatim>\<open>psu_dist_lock_mgr_msg_xdr.c\<close>, the procedure numbers, and the client stubs of
  \<^verbatim>\<open>psu_dist_lock_mgr_msg_clnt.c\<close>, which put the number and the encoded argument on the wire.
\<close>

section \<open>Data\<close>

record RequestPack =
  pack_lock_number :: int
  pack_seqno :: int
  pack_mac :: u64

definition xdr_RequestPack :: "RequestPack xdrproc" where
  "xdr_RequestPack = xdr_struct
     (\<lambda>v. (pack_lock_number v, pack_seqno v, pack_mac v))
     (\<lambda>(n, k, m). \<lparr>pack_lock_number = n, pack_seqno = k, pack_mac = m\<rparr>)
     (xdr_pair xdr_int (xdr_pair xdr_int xdr_u_hyper))"

section \<open>Calls\<close>

datatype lock_call =
    Init_lock_mgr string
  | Acquire_lock int
  | Release_lock int
  | Request RequestPack

text \<open>A message on the wire: procedure number and argument bytes.\<close>

type_synonym wire_call = "nat \<times> byte list"

definition init_lock_mgr_1 :: "string \<Rightarrow> wire_call option" where
  "init_lock_mgr_1 s = map_option (\<lambda>bs. (1, bs)) (x_put xdr_wrapstring s)"

definition acquire_lock_1 :: "int \<Rightarrow> wire_call option" where
  "acquire_lock_1 n = map_option (\<lambda>bs. (2, bs)) (x_put xdr_int n)"

definition release_lock_1 :: "int \<Rightarrow> wire_call option" where
  "release_lock_1 n = map_option (\<lambda>bs. (3, bs)) (x_put xdr_int n)"

definition request_1 :: "RequestPack \<Rightarrow> wire_call option" where
  "request_1 pack = map_option (\<lambda>bs. (4, bs)) (x_put xdr_RequestPack pack)"

fun send_call :: "lock_call \<Rightarrow> wire_call option" where
  "send_call (Init_lock_mgr s) = init_lock_mgr_1 s"
| "send_call (Acquire_lock n) = acquire_lock_1 n"
| "send_call (Release_lock n) = release_lock_1 n"
| "send_call (Request pack) = request_1 pack"

section \<open>The filter of RequestPack\<close>

interpretation RequestPack_xdr: sized_codec xdr_RequestPack 16
proof -
  have "sized_codec (xdr_pair xdr_int (xdr_pair xdr_int xdr_u_hyper)) (4 + (4 + 8))"
    by (intro codec_laws)
  then show "sized_codec xdr_RequestPack 16"
    unfolding xdr_RequestPack_def by (intro sized_struct) simp_all
qed

definition pack_ok :: "RequestPack \<Rightarrow> bool" where
  "pack_ok v \<longleftrightarrow> is_c_int (pack_lock_number v) \<and> is_c_int (pack_seqno v)"

lemma put_int_Some: "is_c_int n \<Longrightarrow> \<exists>w. x_put xdr_int n = Some w"
  by (simp add: xdr_int_def xdr_conv_def xdr_u_int_def)

lemma put_RequestPack_Some: "pack_ok v \<Longrightarrow> \<exists>w. x_put xdr_RequestPack v = Some w"
  by (simp add: pack_ok_def xdr_RequestPack_def xdr_struct_def xdr_conv_def xdr_pair_def
      xdr_int_def xdr_u_int_def xdr_u_hyper_def)

text \<open>
  A \<open>RequestPack\<close> whose numbers are C integers is sent as 16 bytes, and decoding these bytes,
  whatever follows them in the stream, gives the same structure and consumes exactly them.
\<close>

theorem RequestPack_roundtrip:
  assumes "pack_ok v"
  shows "\<exists>w. x_put xdr_RequestPack v = Some w \<and> length w = 16 \<and>
    (\<forall>r. x_get xdr_RequestPack (w @ r) = Some (v, r))"
  using put_RequestPack_Some [OF assms] RequestPack_xdr.put_size RequestPack_xdr.get_put by blast

theorem RequestPack_roundtrip_witness:
  "x_put xdr_RequestPack \<lparr>pack_lock_number = 7, pack_seqno = - 1, pack_mac = 258\<rparr> =
     Some [0, 0, 0, 7, 255, 255, 255, 255, 0, 0, 0, 0, 0, 0, 1, 2] \<and>
   x_get xdr_RequestPack [0, 0, 0, 7, 255, 255, 255, 255, 0, 0, 0, 0, 0, 0, 1, 2] =
     Some (\<lparr>pack_lock_number = 7, pack_seqno = - 1, pack_mac = 258\<rparr>, [])"
proof -
  let ?v = "\<lparr>pack_lock_number = 7, pack_seqno = - 1, pack_mac = 258\<rparr>"
  let ?w = "[0, 0, 0, 7, 255, 255, 255, 255, 0, 0, 0, 0, 0, 0, 1, 2] :: byte list"
  have "x_put xdr_RequestPack ?v = Some ?w"
    by (simp add: xdr_RequestPack_def xdr_struct_def xdr_conv_def xdr_pair_def xdr_int_def
        xdr_u_int_def xdr_u_hyper_def is_c_int_def INT_MAX_def be_bytes_8 be_bytes_4
        unat_minus_1)
  moreover have "\<exists>w. x_put xdr_RequestPack ?v = Some w \<and> length w = 16 \<and>
      (\<forall>r. x_get xdr_RequestPack (w @ r) = Some (?v, r))"
    by (rule RequestPack_roundtrip) (simp add: pack_ok_def is_c_int_def INT_MAX_def)
  ultimately show ?thesis by (metis append_Nil2 option.inject)
qed

end
