(* ===== verification/Lock_Server.thy ===== *)
theory Lock_Server
  imports Pthread Lock_Msg
begin

text \<open>
  The state and the remote procedures of \<^verbatim>\<open>psu_dist_lock_mgr_server.c\<close>. Every remote call is
  served by a thread of its own, so each procedure is given as the list of its accesses to
  shared state: a program counter and one function that executes the access at that counter.
  A statement that reads one field of a lock variable and writes it or another, or that
  reads several fields, is cut into its loads and stores, since no mutex is held there and other
  threads can come in between. \<open>LockVar\<close> objects and deferred mutexes are allocated and never
  freed, so a pointer to one is its index in \<open>lockvar_list\<close> and in \<open>mutexes\<close>.
\<close>

section \<open>State\<close>

record LockVar =
  lock :: mutex
  lock_number :: int
  myseqno :: int
  highestseqno :: int
  requesting_cs :: bool
  deffered :: "nat list"

record server =
  nodes :: "string list"
  mac :: u64
  has_initialized :: bool
  lockvar_list :: "LockVar list"
  mutexes :: "mutex list"

definition new_lockvar :: "int \<Rightarrow> LockVar" where
  "new_lockvar n = \<lparr>lock = pthread_mutex_init, lock_number = n, myseqno = 0, highestseqno = 0,
     requesting_cs = False, deffered = []\<rparr>"

definition upd_lockvar :: "nat \<Rightarrow> (LockVar \<Rightarrow> LockVar) \<Rightarrow> server \<Rightarrow> server" where
  "upd_lockvar p f srv =
     srv\<lparr>lockvar_list := (lockvar_list srv)[p := f (lockvar_list srv ! p)]\<rparr>"

definition upd_mutex :: "nat \<Rightarrow> (mutex \<Rightarrow> mutex) \<Rightarrow> server \<Rightarrow> server" where
  "upd_mutex m f srv = srv\<lparr>mutexes := (mutexes srv)[m := f (mutexes srv ! m)]\<rparr>"

text \<open>\<open>find_lockvar\<close> holds \<open>lockvar_list_lock\<close> from its first to its last statement.\<close>

definition find_lockvar :: "int \<Rightarrow> bool \<Rightarrow> server \<Rightarrow> nat option \<times> server" where
  "find_lockvar n create srv =
     (case first_index (\<lambda>v. lock_number v = n) (lockvar_list srv) of
        Some i \<Rightarrow> (Some i, srv)
      | None \<Rightarrow>
          (if create
           then (Some (length (lockvar_list srv)),
                 srv\<lparr>lockvar_list := lockvar_list srv @ [new_lockvar n]\<rparr>)
           else (None, srv)))"

text \<open>
  What executing one statement of a procedure does: go on, issue the remote call
  \<open>request_1\<close> and go on when it returns, sleep, abort the process, or return to the caller.
\<close>

datatype 'pc reaction =
    Go 'pc server
  | Call string RequestPack 'pc
  | Sleep
  | Abort
  | Return

section \<open>request\_1\_svc\<close>

datatype request_pc =
    RQ_find
  | RQ_highest nat
  | RQ_store nat int
  | RQ_cs nat
  | RQ_later nat
  | RQ_tie nat
  | RQ_append nat
  | RQ_lock1 nat
  | RQ_lock2 nat
  | RQ_blocked nat
  | RQ_return

text \<open>The condition of the deferral, read in one piece.\<close>

definition must_defer :: "RequestPack \<Rightarrow> u64 \<Rightarrow> LockVar \<Rightarrow> bool" where
  "must_defer pack my v \<longleftrightarrow> requesting_cs v \<and>
     (pack_seqno pack > myseqno v \<or> (pack_seqno pack = myseqno v \<and> pack_mac pack > my))"

fun request_step :: "bool \<Rightarrow> RequestPack \<Rightarrow> request_pc \<Rightarrow> server \<Rightarrow> request_pc reaction" where
  "request_step einval pack RQ_find srv =
     (case find_lockvar (pack_lock_number pack) True srv of
        (Some p, srv') \<Rightarrow> Go (RQ_highest p) srv'
      | (None, srv') \<Rightarrow> Abort)"
| "request_step einval pack (RQ_highest p) srv =
     Go (RQ_store p (max (pack_seqno pack) (highestseqno (lockvar_list srv ! p)))) srv"
| "request_step einval pack (RQ_store p x) srv =
     Go (RQ_cs p) (upd_lockvar p (\<lambda>v. v\<lparr>highestseqno := x\<rparr>) srv)"
| "request_step einval pack (RQ_cs p) srv =
     (if requesting_cs (lockvar_list srv ! p) then Go (RQ_later p) srv else Go RQ_return srv)"
| "request_step einval pack (RQ_later p) srv =
     (if pack_seqno pack > myseqno (lockvar_list srv ! p) then Go (RQ_append p) srv else Go (RQ_tie p) srv)"
| "request_step einval pack (RQ_tie p) srv =
     (if pack_seqno pack = myseqno (lockvar_list srv ! p) \<and> pack_mac pack > mac srv then Go (RQ_append p) srv
      else Go RQ_return srv)"
| "request_step einval pack (RQ_append p) srv =
     (let m = length (mutexes srv) in
      Go (RQ_lock1 m)
        (upd_lockvar p (\<lambda>v. v\<lparr>deffered := deffered v @ [m]\<rparr>)
          (srv\<lparr>mutexes := mutexes srv @ [pthread_mutex_init]\<rparr>)))"
| "request_step einval pack (RQ_lock1 m) srv =
     (case pthread_mutex_lock einval (mutexes srv ! m) of
        Acquired x \<Rightarrow> Go (RQ_lock2 m) (upd_mutex m (\<lambda>_. x) srv)
      | Refused \<Rightarrow> Go (RQ_lock2 m) srv
      | Asleep \<Rightarrow> Sleep)"
| "request_step einval pack (RQ_lock2 m) srv =
     (case pthread_mutex_lock einval (mutexes srv ! m) of
        Acquired x \<Rightarrow> Go RQ_return (upd_mutex m (\<lambda>_. x) srv)
      | Refused \<Rightarrow> Go RQ_return srv
      | Asleep \<Rightarrow> (if mx_destroyed (mutexes srv ! m) then Sleep else Go (RQ_blocked m) srv))"
| "request_step einval pack (RQ_blocked m) srv =
     (if mx_locked (mutexes srv ! m) then Sleep
      else Go RQ_return (upd_mutex m (\<lambda>x. x\<lparr>mx_locked := True\<rparr>) srv))"
| "request_step einval pack RQ_return srv = Return"

section \<open>acquire\_lock\_1\_svc\<close>

datatype acquire_pc =
    AQ_find
  | AQ_lock nat
  | AQ_cs nat
  | AQ_seq nat
  | AQ_store nat int
  | AQ_loop nat nat
  | AQ_return

fun acquire_step :: "bool \<Rightarrow> int \<Rightarrow> acquire_pc \<Rightarrow> server \<Rightarrow> acquire_pc reaction" where
  "acquire_step einval n AQ_find srv =
     (case find_lockvar n True srv of
        (Some p, srv') \<Rightarrow> Go (AQ_lock p) srv'
      | (None, srv') \<Rightarrow> Abort)"
| "acquire_step einval n (AQ_lock p) srv =
     (case pthread_mutex_lock einval (lock (lockvar_list srv ! p)) of
        Acquired x \<Rightarrow> Go (AQ_cs p) (upd_lockvar p (\<lambda>v. v\<lparr>lock := x\<rparr>) srv)
      | Refused \<Rightarrow> Go (AQ_cs p) srv
      | Asleep \<Rightarrow> Sleep)"
| "acquire_step einval n (AQ_cs p) srv =
     Go (AQ_seq p) (upd_lockvar p (\<lambda>v. v\<lparr>requesting_cs := True\<rparr>) srv)"
| "acquire_step einval n (AQ_seq p) srv =
     Go (AQ_store p (c_int (highestseqno (lockvar_list srv ! p) + 1))) srv"
| "acquire_step einval n (AQ_store p x) srv =
     Go (AQ_loop p 0) (upd_lockvar p (\<lambda>v. v\<lparr>myseqno := x\<rparr>) srv)"
| "acquire_step einval n (AQ_loop p i) srv =
     (if i < length (nodes srv)
      then Call (nodes srv ! i)
             \<lparr>pack_lock_number = n, pack_seqno = myseqno (lockvar_list srv ! p), pack_mac = mac srv\<rparr>
             (AQ_loop p (Suc i))
      else Go AQ_return srv)"
| "acquire_step einval n AQ_return srv = Return"

section \<open>release\_lock\_1\_svc\<close>

datatype release_pc =
    RL_find
  | RL_loop nat nat
  | RL_destroy nat nat
  | RL_reset nat
  | RL_unlock nat
  | RL_return

fun release_step :: "int \<Rightarrow> release_pc \<Rightarrow> server \<Rightarrow> release_pc reaction" where
  "release_step n RL_find srv =
     (case find_lockvar n False srv of
        (Some p, srv') \<Rightarrow> Go (RL_loop p 0) srv'
      | (None, srv') \<Rightarrow> Abort)"
| "release_step n (RL_loop p i) srv =
     (let d = deffered (lockvar_list srv ! p) in
      if i < length d then Go (RL_destroy p i) (upd_mutex (d ! i) pthread_mutex_unlock srv)
      else Go (RL_reset p) srv)"
| "release_step n (RL_destroy p i) srv =
     Go (RL_loop p (Suc i))
       (upd_mutex (deffered (lockvar_list srv ! p) ! i) pthread_mutex_destroy srv)"
| "release_step n (RL_reset p) srv =
     Go (RL_unlock p) (upd_lockvar p (\<lambda>v. v\<lparr>deffered := []\<rparr>) srv)"
| "release_step n (RL_unlock p) srv =
     Go RL_return (upd_lockvar p (\<lambda>v. v\<lparr>lock := pthread_mutex_unlock (lock v)\<rparr>) srv)"
| "release_step n RL_return srv = Return"

section \<open>The table of lock variables\<close>

text \<open>
  The interface the protocol relies on: a table that maps keys to records, reached through
  pointers. \<open>ensure\<close> returns a pointer to the record of a key and creates it when it is not
  there; \<open>modify\<close> changes the record behind a pointer. \<open>view\<close> is the table as a total
  function, a missing record standing for a fresh one.
\<close>

locale keyed_store =
  fixes valid :: "'s \<Rightarrow> bool"
    and view :: "'s \<Rightarrow> 'k \<Rightarrow> 'v"
    and key :: "'v \<Rightarrow> 'k"
    and points :: "'s \<Rightarrow> 'p \<Rightarrow> 'k \<Rightarrow> bool"
    and fetch :: "'s \<Rightarrow> 'p \<Rightarrow> 'v"
    and ensure :: "'k \<Rightarrow> 's \<Rightarrow> 'p option \<times> 's"
    and modify :: "'p \<Rightarrow> ('v \<Rightarrow> 'v) \<Rightarrow> 's \<Rightarrow> 's"
  assumes fetch_view: "valid s \<Longrightarrow> points s p k \<Longrightarrow> fetch s p = view s k"
    and points_unique: "valid s \<Longrightarrow> points s p k \<Longrightarrow> points s q k \<Longrightarrow> p = q"
    and key_view: "key (view s k) = k"
    and ensure_points: "\<exists>p. fst (ensure k s) = Some p \<and> points (snd (ensure k s)) p k"
    and ensure_view: "view (snd (ensure k s)) = view s"
    and ensure_valid: "valid s \<Longrightarrow> valid (snd (ensure k s))"
    and ensure_keeps: "points s q j \<Longrightarrow> points (snd (ensure k s)) q j"
    and modify_view: "valid s \<Longrightarrow> points s p k \<Longrightarrow> (\<And>v. key (f v) = key v) \<Longrightarrow>
      view (modify p f s) = (view s)(k := f (view s k))"
    and modify_keeps: "(\<And>v. key (f v) = key v) \<Longrightarrow>
      points (modify p f s) q j \<longleftrightarrow> points s q j"
begin

lemma ensure_modify:
  assumes "valid s" and "ensure k s = (Some p, s')" and "\<And>v. key (f v) = key v"
  shows "view (modify p f s') = (view s)(k := f (view s k))"
proof -
  obtain q where "fst (ensure k s) = Some q" "points (snd (ensure k s)) q k"
    using ensure_points by blast
  with assms(2) have "points s' p k" by simp
  moreover from assms(1,2) ensure_valid [of s k] have "valid s'" by simp
  moreover from assms(2) ensure_view [of k s] have "view s' = view s" by simp
  ultimately show ?thesis using modify_view [of s' p k f] assms(3) by simp
qed

lemma ensure_again:
  assumes "valid s" and "ensure k s = (Some p, s')" and "points s' q k"
  shows "q = p"
  using assms ensure_points [of k s] ensure_valid [of s k] points_unique [of s' q k p] by auto

end

definition lvar :: "server \<Rightarrow> int \<Rightarrow> LockVar" where
  "lvar srv n =
     (case first_index (\<lambda>v. lock_number v = n) (lockvar_list srv) of
        Some i \<Rightarrow> lockvar_list srv ! i
      | None \<Rightarrow> new_lockvar n)"

definition ptr_ok :: "server \<Rightarrow> nat \<Rightarrow> int \<Rightarrow> bool" where
  "ptr_ok srv p n \<longleftrightarrow> p < length (lockvar_list srv) \<and> lock_number (lockvar_list srv ! p) = n"

definition table_ok :: "server \<Rightarrow> bool" where
  "table_ok srv \<longleftrightarrow> distinct (map lock_number (lockvar_list srv))"

lemma ptr_ok_unique: "table_ok srv \<Longrightarrow> ptr_ok srv p n \<Longrightarrow> ptr_ok srv q n \<Longrightarrow> p = q"
  by (auto simp: table_ok_def ptr_ok_def distinct_conv_nth)

lemma lvar_ptr:
  assumes "table_ok srv" and "ptr_ok srv p n"
  shows "lockvar_list srv ! p = lvar srv n"
proof (cases "first_index (\<lambda>v. lock_number v = n) (lockvar_list srv)")
  case None
  with assms(2) show ?thesis by (auto simp: first_index_None_iff ptr_ok_def)
next
  case (Some i)
  then have "ptr_ok srv i n" by (auto dest: first_index_SomeD simp: ptr_ok_def)
  with assms have "i = p" by (blast intro: ptr_ok_unique)
  with Some show ?thesis by (simp add: lvar_def)
qed

lemma lvar_no_ptr: "(\<And>p. \<not> ptr_ok srv p n) \<Longrightarrow> lvar srv n = new_lockvar n"
  using first_index_SomeD [of "\<lambda>v. lock_number v = n" "lockvar_list srv"]
  by (auto simp: lvar_def ptr_ok_def split: option.splits)

lemma find_lockvar_create:
  "\<exists>p. fst (find_lockvar n True srv) = Some p \<and> ptr_ok (snd (find_lockvar n True srv)) p n"
  by (auto simp: find_lockvar_def ptr_ok_def new_lockvar_def dest: first_index_SomeD
      split: option.splits)

lemma table_ok_find: "table_ok srv \<Longrightarrow> table_ok (snd (find_lockvar n b srv))"
  by (auto simp: find_lockvar_def table_ok_def first_index_None_iff new_lockvar_def
      split: option.splits)

lemma ptr_ok_find: "ptr_ok srv q j \<Longrightarrow> ptr_ok (snd (find_lockvar n b srv)) q j"
  by (auto simp: find_lockvar_def ptr_ok_def nth_append split: option.splits)

lemma lvar_find: "lvar (snd (find_lockvar n b srv)) = lvar srv"
proof -
  have "lvar (srv\<lparr>lockvar_list := lockvar_list srv @ [new_lockvar n]\<rparr>) k = lvar srv k"
    if "first_index (\<lambda>v. lock_number v = n) (lockvar_list srv) = None" for k
    using that
    by (auto simp: lvar_def first_index_append new_lockvar_def nth_append
        dest: first_index_SomeD split: option.splits)
  then show ?thesis by (auto simp: find_lockvar_def fun_eq_iff split: option.splits)
qed

lemma ptr_ok_upd:
  "(\<And>v. lock_number (f v) = lock_number v) \<Longrightarrow> ptr_ok (upd_lockvar p f srv) q j \<longleftrightarrow> ptr_ok srv q j"
  by (cases "q = p") (auto simp: ptr_ok_def upd_lockvar_def)

lemma map_upd_same: "f (g (xs ! p)) = f (xs ! p) \<Longrightarrow> map f (xs[p := g (xs ! p)]) = map f xs"
  by (cases "p < length xs") (auto simp: map_update list_update_same_conv list_update_beyond)

lemma table_ok_upd:
  "(\<And>v. lock_number (f v) = lock_number v) \<Longrightarrow> table_ok (upd_lockvar p f srv) \<longleftrightarrow> table_ok srv"
  by (simp add: table_ok_def upd_lockvar_def map_upd_same)

lemma first_index_map: "first_index (\<lambda>v. g v = n) xs = first_index (\<lambda>k. k = n) (map g xs)"
  by (induction xs) auto

lemma lvar_upd:
  assumes "table_ok srv" and "ptr_ok srv p n" and f: "\<And>v. lock_number (f v) = lock_number v"
  shows "lvar (upd_lockvar p f srv) = (lvar srv)(n := f (lvar srv n))"
proof
  fix k
  let ?t = "upd_lockvar p f srv"
  have t: "table_ok ?t" "ptr_ok ?t q j \<longleftrightarrow> ptr_ok srv q j" for q j
    using assms f by (simp_all add: table_ok_upd ptr_ok_upd)
  show "lvar ?t k = ((lvar srv)(n := f (lvar srv n))) k"
  proof (cases "\<exists>q. ptr_ok srv q k")
    case True
    then obtain q where q: "ptr_ok srv q k" ..
    then have "lvar ?t k = lockvar_list ?t ! q" using t lvar_ptr by metis
    also have "\<dots> = ((lvar srv)(n := f (lvar srv n))) k"
      using assms q lvar_ptr [OF assms(1,2)] lvar_ptr [OF assms(1) q] ptr_ok_unique [of srv p n q]
      by (auto simp: upd_lockvar_def nth_list_update ptr_ok_def)
    finally show ?thesis .
  next
    case False
    with assms(2) have "k \<noteq> n" by auto
    with False t show ?thesis by (simp add: lvar_no_ptr)
  qed
qed

lemma lock_number_lvar [simp]: "lock_number (lvar srv n) = n"
  by (auto simp: lvar_def new_lockvar_def dest: first_index_SomeD split: option.splits)

interpretation lock_table: keyed_store table_ok lvar lock_number ptr_ok
  "\<lambda>srv p. lockvar_list srv ! p" "\<lambda>n. find_lockvar n True" upd_lockvar
  by unfold_locales
    (auto simp: lvar_ptr find_lockvar_create lvar_find table_ok_find ptr_ok_find lvar_upd
      ptr_ok_upd intro: ptr_ok_unique)

lemma find_lockvar_ptr:
  assumes "table_ok srv" and "ptr_ok srv p n"
  shows "find_lockvar n b srv = (Some p, srv)"
proof (cases "first_index (\<lambda>v. lock_number v = n) (lockvar_list srv)")
  case None
  with assms(2) show ?thesis by (auto simp: first_index_None_iff ptr_ok_def)
next
  case (Some i)
  then have "ptr_ok srv i n" by (auto dest: first_index_SomeD simp: ptr_ok_def)
  with assms have "i = p" by (blast intro: ptr_ok_unique)
  with Some show ?thesis by (simp add: find_lockvar_def)
qed

lemma find_lockvar_absent: "(\<And>p. \<not> ptr_ok srv p n) \<Longrightarrow> find_lockvar n False srv = (None, srv)"
  by (cases "first_index (\<lambda>v. lock_number v = n) (lockvar_list srv)")
    (auto simp: find_lockvar_def ptr_ok_def dest!: first_index_SomeD)

section \<open>What the updates leave alone\<close>

lemma upd_simps [simp]:
  "nodes (upd_lockvar p f srv) = nodes srv" "mac (upd_lockvar p f srv) = mac srv"
  "mutexes (upd_lockvar p f srv) = mutexes srv"
  "nodes (upd_mutex m g srv) = nodes srv" "mac (upd_mutex m g srv) = mac srv"
  "lockvar_list (upd_mutex m g srv) = lockvar_list srv"
  "length (mutexes (upd_mutex m g srv)) = length (mutexes srv)"
  by (simp_all add: upd_lockvar_def upd_mutex_def)

lemma upd_lockvar_cong:
  "f (lockvar_list srv ! p) = g (lockvar_list srv ! p) \<Longrightarrow> upd_lockvar p f srv = upd_lockvar p g srv"
  by (simp add: upd_lockvar_def)

lemma find_simps [simp]:
  "nodes (snd (find_lockvar n b srv)) = nodes srv" "mac (snd (find_lockvar n b srv)) = mac srv"
  "mutexes (snd (find_lockvar n b srv)) = mutexes srv"
  by (simp_all add: find_lockvar_def split: option.splits)

lemma lvar_cong: "lockvar_list srv = lockvar_list srv' \<Longrightarrow> lvar srv = lvar srv'"
  by (simp add: lvar_def fun_eq_iff split: option.split)

lemma lvar_mutex [simp]: "lvar (upd_mutex m g srv) = lvar srv"
  "lvar (srv\<lparr>mutexes := ms\<rparr>) = lvar srv"
  by (auto intro: lvar_cong)

lemma table_mutexes [simp]:
  "table_ok (srv\<lparr>mutexes := ms\<rparr>) = table_ok srv" "ptr_ok (srv\<lparr>mutexes := ms\<rparr>) p n = ptr_ok srv p n"
  "table_ok (upd_mutex m g srv) = table_ok srv" "ptr_ok (upd_mutex m g srv) p n = ptr_ok srv p n"
  by (simp_all add: table_ok_def ptr_ok_def)

end
