(* ===== verification/Lock_System.thy ===== *)
theory Lock_System
  imports Lock_Server
begin

text \<open>
  The lock managers of a cluster and the client threads that use them, composed.
  A client thread runs \<^verbatim>\<open>psu_acquire_lock\<close> and \<^verbatim>\<open>psu_release_lock\<close> against the server of its
  own machine, as \<^verbatim>\<open>thread_func\<close> of \<^verbatim>\<open>psu_dist_lock_mgr_test.c\<close> does; these calls are
  synchronous, so the thread's position is the position of the server thread that serves
  it. A call of \<open>request_1\<close> starts a thread on the server it is sent to and returns when that
  thread has returned, or, as the event \<open>No_reply\<close>, with an error status: the time limit of
  \<^verbatim>\<open>create_client\<close> has passed, or the process called has ended and the connection is lost. The caller
  ignores the status and cannot tell these apart. One event executes one statement of one thread, or
  one access of a statement that accesses shared fields more than once; memory is sequentially consistent.
\<close>

section \<open>State\<close>

datatype client_pc =
    Idle
  | Acquiring acquire_pc
  | Awaiting acquire_pc nat
  | Holding
  | Releasing release_pc

record client =
  cl_host :: host
  cl_number :: int
  cl_pc :: client_pc

record handler =
  hd_host :: host
  hd_pack :: RequestPack
  hd_pc :: request_pc

record sys =
  cluster :: "host list"
  servers :: "host \<Rightarrow> server"
  exited :: "host \<Rightarrow> bool"
  clients :: "cid \<Rightarrow> client"
  handlers :: "handler list"

datatype event = Start cid int | Leave cid | Client cid | Handler nat | No_reply cid

section \<open>Steps\<close>

definition set_pc :: "cid \<Rightarrow> client_pc \<Rightarrow> sys \<Rightarrow> sys" where
  "set_pc c pc s = s\<lparr>clients := (clients s)(c := (clients s c)\<lparr>cl_pc := pc\<rparr>)\<rparr>"

definition set_server :: "host \<Rightarrow> server \<Rightarrow> sys \<Rightarrow> sys" where
  "set_server h srv s = s\<lparr>servers := (servers s)(h := srv)\<rparr>"

definition set_exited :: "host \<Rightarrow> sys \<Rightarrow> sys" where
  "set_exited h s = s\<lparr>exited := (exited s)(h := True)\<rparr>"

text \<open>
  \<open>resolve\<close> is what the network does with an address: the host that answers there.
  \<^verbatim>\<open>create_client\<close> ends the process when nobody answers, or when the server there has ended.
\<close>

definition client_step ::
    "bool \<Rightarrow> (string \<Rightarrow> host option) \<Rightarrow> cid \<Rightarrow> sys \<Rightarrow> sys option" where
  "client_step einval resolve c s =
     (let h = cl_host (clients s c); n = cl_number (clients s c); srv = servers s h in
      case cl_pc (clients s c) of
        Idle \<Rightarrow> None
      | Acquiring pc \<Rightarrow>
          (case acquire_step einval n pc srv of
             Go pc' srv' \<Rightarrow> Some (set_pc c (Acquiring pc') (set_server h srv' s))
           | Call addr pack pc' \<Rightarrow>
               (case resolve addr of
                  None \<Rightarrow> Some (set_exited h s)
                | Some d \<Rightarrow>
                    (if exited s d then Some (set_exited h s)
                     else Some (set_pc c (Awaiting pc' (length (handlers s)))
                       (s\<lparr>handlers := handlers s @ [\<lparr>hd_host = d, hd_pack = pack, hd_pc = RQ_find\<rparr>]\<rparr>))))
           | Sleep \<Rightarrow> None
           | Abort \<Rightarrow> Some (set_exited h s)
           | Return \<Rightarrow> Some (set_pc c Holding s))
      | Awaiting pc r \<Rightarrow>
          (if hd_pc (handlers s ! r) = RQ_return then Some (set_pc c (Acquiring pc) s) else None)
      | Holding \<Rightarrow> None
      | Releasing pc \<Rightarrow>
          (case release_step n pc srv of
             Go pc' srv' \<Rightarrow> Some (set_pc c (Releasing pc') (set_server h srv' s))
           | Call addr pack pc' \<Rightarrow> None
           | Sleep \<Rightarrow> None
           | Abort \<Rightarrow> Some (set_exited h s)
           | Return \<Rightarrow> Some (set_pc c Idle s)))"

definition handler_step :: "bool \<Rightarrow> nat \<Rightarrow> sys \<Rightarrow> sys option" where
  "handler_step einval r s =
     (let k = handlers s ! r; srv = servers s (hd_host k) in
      case request_step einval (hd_pack k) (hd_pc k) srv of
        Go pc' srv' \<Rightarrow>
          Some (set_server (hd_host k) srv' (s\<lparr>handlers := (handlers s)[r := k\<lparr>hd_pc := pc'\<rparr>]\<rparr>))
      | Call addr pack pc' \<Rightarrow> None
      | Sleep \<Rightarrow> None
      | Abort \<Rightarrow> Some (set_exited (hd_host k) s)
      | Return \<Rightarrow> None)"

fun sys_step :: "bool \<Rightarrow> (string \<Rightarrow> host option) \<Rightarrow> event \<Rightarrow> sys \<Rightarrow> sys option" where
  "sys_step einval resolve (Start c n) s =
     (if cl_pc (clients s c) = Idle \<and> \<not> exited s (cl_host (clients s c))
      then Some (s\<lparr>clients := (clients s)(c :=
                    (clients s c)\<lparr>cl_number := n, cl_pc := Acquiring AQ_find\<rparr>)\<rparr>)
      else None)"
| "sys_step einval resolve (Leave c) s =
     (if cl_pc (clients s c) = Holding \<and> \<not> exited s (cl_host (clients s c))
      then Some (set_pc c (Releasing RL_find) s) else None)"
| "sys_step einval resolve (Client c) s =
     (if exited s (cl_host (clients s c)) then None else client_step einval resolve c s)"
| "sys_step einval resolve (Handler r) s =
     (if r < length (handlers s) \<and> \<not> exited s (hd_host (handlers s ! r))
      then handler_step einval r s else None)"
| "sys_step einval resolve (No_reply c) s =
     (if exited s (cl_host (clients s c)) then None else
      case cl_pc (clients s c) of
        Awaiting pc r \<Rightarrow> Some (set_pc c (Acquiring pc) s)
      | _ \<Rightarrow> None)"

fun sys_run :: "bool \<Rightarrow> (string \<Rightarrow> host option) \<Rightarrow> event list \<Rightarrow> sys \<Rightarrow> sys option" where
  "sys_run einval resolve [] s = Some s"
| "sys_run einval resolve (e # es) s =
     (case sys_step einval resolve e s of
        None \<Rightarrow> None
      | Some s' \<Rightarrow> sys_run einval resolve es s')"

text \<open>Whether a remote call returns without a reply.\<close>

fun no_reply :: "event \<Rightarrow> bool" where
  "no_reply (No_reply c) \<longleftrightarrow> True"
| "no_reply _ \<longleftrightarrow> False"

text \<open>Whether the event is the one that draws a new sequence number.\<close>

definition draws_seqno :: "event \<Rightarrow> sys \<Rightarrow> bool" where
  "draws_seqno e s \<longleftrightarrow> (case e of
     Client c \<Rightarrow> (case cl_pc (clients s c) of Acquiring (AQ_seq p) \<Rightarrow> True | _ \<Rightarrow> False)
   | _ \<Rightarrow> False)"

text \<open>Whether the number it draws is past the range of an \<open>int\<close>.\<close>

definition wraps_seqno :: "event \<Rightarrow> sys \<Rightarrow> bool" where
  "wraps_seqno e s \<longleftrightarrow> (case e of
     Client c \<Rightarrow> (case cl_pc (clients s c) of
         Acquiring (AQ_seq p) \<Rightarrow> (let x = highestseqno (lockvar_list (servers s (cl_host (clients s c))) ! p) + 1 in
           c_int x \<noteq> x)
       | _ \<Rightarrow> False)
   | _ \<Rightarrow> False)"

fun draws :: "bool \<Rightarrow> (string \<Rightarrow> host option) \<Rightarrow> event list \<Rightarrow> sys \<Rightarrow> nat" where
  "draws einval resolve [] s = 0"
| "draws einval resolve (e # es) s =
     (if draws_seqno e s then 1 else 0) +
     (case sys_step einval resolve e s of None \<Rightarrow> 0 | Some s' \<Rightarrow> draws einval resolve es s')"

text \<open>
  Whether the event stores into \<open>highestseqno\<close> a number below the one that is there: another handler
  has raised the field since this one has read it, and its update is lost.
\<close>

definition loses_update :: "event \<Rightarrow> sys \<Rightarrow> bool" where
  "loses_update e s \<longleftrightarrow> (case e of
     Handler r \<Rightarrow> r < length (handlers s) \<and> (case hd_pc (handlers s ! r) of
         RQ_store p x \<Rightarrow> x < highestseqno (lockvar_list (servers s (hd_host (handlers s ! r))) ! p)
       | _ \<Rightarrow> False)
   | _ \<Rightarrow> False)"

fun race_free :: "bool \<Rightarrow> (string \<Rightarrow> host option) \<Rightarrow> event list \<Rightarrow> sys \<Rightarrow> bool" where
  "race_free einval resolve [] s \<longleftrightarrow> True"
| "race_free einval resolve (e # es) s \<longleftrightarrow> \<not> loses_update e s \<and>
     (case sys_step einval resolve e s of None \<Rightarrow> True | Some s' \<Rightarrow> race_free einval resolve es s')"

section \<open>Initial states\<close>

text \<open>
  The servers have been started and told about each other: no lock variable exists, every
  machine of the cluster reaches every other one under some address of its node list, the
  hardware addresses differ, and every client runs on a machine of the cluster.
\<close>

definition connected :: "(string \<Rightarrow> host option) \<Rightarrow> sys \<Rightarrow> bool" where
  "connected resolve s \<longleftrightarrow>
     (\<forall>h \<in> set (cluster s). \<forall>d \<in> set (cluster s). d \<noteq> h \<longrightarrow>
        (\<exists>a \<in> set (nodes (servers s h)). resolve a = Some d)) \<and>
     inj_on (\<lambda>h. mac (servers s h)) (set (cluster s)) \<and>
     (\<forall>c. cl_host (clients s c) \<in> set (cluster s))"

definition sys_init :: "sys \<Rightarrow> bool" where
  "sys_init s \<longleftrightarrow>
     (\<forall>h. lockvar_list (servers s h) = []) \<and> (\<forall>c. cl_pc (clients s c) = Idle) \<and> handlers s = []"

definition holds_lock :: "sys \<Rightarrow> cid \<Rightarrow> int \<Rightarrow> bool" where
  "holds_lock s c n \<longleftrightarrow> cl_pc (clients s c) = Holding \<and> cl_number (clients s c) = n"

end
