(* ===== verification/Permission_Protocol.thy ===== *)
theory Permission_Protocol
  imports Prelude
begin

text \<open>
  The protocol the servers of \<^verbatim>\<open>psu_dist_lock_mgr_server.c\<close> run, reduced to what mutual exclusion depends
  on. It follows the algorithm of Ricart and Agrawala in that requests carry stamps and a machine that
  competes with an earlier stamp withholds its permission; it differs where the code does: a release leaves
  the request of the machine standing, the request is raised before its number is drawn, and
  the fields are read and written one by one. Hosts keep, per lock number, whether the local mutex
  is held, whether they request, their own sequence number and the highest one seen; client threads move
  through phases; requests in flight carry a verdict. Who moves next is not determined, so the
  steps are a relation. The invariants show that a permission is only held against a host
  that either does not compete or competes with a later stamp.
\<close>

section \<open>States and steps\<close>

datatype phase =
    P_idle
  | P_want int
  | P_flag int
  | P_number int
  | P_store int int
  | P_collect int "host set"
  | P_await int "host set" nat
  | P_cs int "host set"
  | P_release int

text \<open>
  A request has arrived, its handler has computed what to store as the highest number, has stored it,
  has seen the flag of the machine, has found its own number not above the machine's, or is decided.
\<close>

datatype verdict = Arrived | Loaded int | Noted | Rival | Close | Deferred | Granted

record call =
  call_at :: host
  call_lock :: int
  call_seq :: int
  call_mac :: u64
  verdict :: verdict

record proto =
  home :: "cid \<Rightarrow> host"
  hmac :: "host \<Rightarrow> u64"
  peers :: "host set"
  held :: "host \<times> int \<Rightarrow> bool"
  req :: "host \<times> int \<Rightarrow> bool"
  seq :: "host \<times> int \<Rightarrow> int"
  high :: "host \<times> int \<Rightarrow> int"
  phase :: "cid \<Rightarrow> phase"
  calls :: "call list"

text \<open>Where a request is decided, and the numbers there.\<close>

definition spot :: "call \<Rightarrow> host \<times> int" where
  "spot k = (call_at k, call_lock k)"

definition decide :: "nat \<Rightarrow> verdict \<Rightarrow> proto \<Rightarrow> proto" where
  "decide r v s = s\<lparr>calls := (calls s)[r := (calls s ! r)\<lparr>verdict := v\<rparr>]\<rparr>"

definition tied :: "proto \<Rightarrow> call \<Rightarrow> bool" where
  "tied s k \<longleftrightarrow> call_seq k = seq s (spot k) \<and> hmac s (call_at k) < call_mac k"

inductive pp_step :: "proto \<Rightarrow> proto \<Rightarrow> bool" where
  want: "phase s c = P_idle \<Longrightarrow> pp_step s (s\<lparr>phase := (phase s)(c := P_want L)\<rparr>)"
| lock: "phase s c = P_want L \<Longrightarrow> \<not> held s (home s c, L) \<Longrightarrow>
     pp_step s (s\<lparr>held := (held s)((home s c, L) := True), phase := (phase s)(c := P_flag L)\<rparr>)"
| raise: "phase s c = P_flag L \<Longrightarrow>
     pp_step s (s\<lparr>req := (req s)((home s c, L) := True), phase := (phase s)(c := P_number L)\<rparr>)"
| number: "phase s c = P_number L \<Longrightarrow> x = high s (home s c, L) + 1 \<Longrightarrow>
     pp_step s (s\<lparr>phase := (phase s)(c := P_store L x)\<rparr>)"
| store: "phase s c = P_store L x \<Longrightarrow>
     pp_step s (s\<lparr>seq := (seq s)((home s c, L) := x), phase := (phase s)(c := P_collect L {})\<rparr>)"
| send: "phase s c = P_collect L G \<Longrightarrow>
     pp_step s (s\<lparr>phase := (phase s)(c := P_await L G (length (calls s))),
                  calls := calls s @ [\<lparr>call_at = d, call_lock = L, call_seq = seq s (home s c, L),
                              call_mac = hmac s (home s c), verdict = Arrived\<rparr>]\<rparr>)"
| look: "r < length (calls s) \<Longrightarrow> verdict (calls s ! r) = Arrived \<Longrightarrow>
     x = max (call_seq (calls s ! r)) (high s (spot (calls s ! r))) \<Longrightarrow> pp_step s (decide r (Loaded x) s)"
| noted: "r < length (calls s) \<Longrightarrow> verdict (calls s ! r) = Loaded x \<Longrightarrow> high s (spot (calls s ! r)) \<le> x \<Longrightarrow>
     pp_step s (decide r Noted (s\<lparr>high := (high s)(spot (calls s ! r) := x)\<rparr>))"
| free: "r < length (calls s) \<Longrightarrow> verdict (calls s ! r) = Noted \<Longrightarrow> \<not> req s (spot (calls s ! r)) \<Longrightarrow>
     pp_step s (decide r Granted s)"
| rival: "r < length (calls s) \<Longrightarrow> verdict (calls s ! r) = Noted \<Longrightarrow> req s (spot (calls s ! r)) \<Longrightarrow>
     pp_step s (decide r Rival s)"
| later: "r < length (calls s) \<Longrightarrow> verdict (calls s ! r) = Rival \<Longrightarrow>
     seq s (spot (calls s ! r)) < call_seq (calls s ! r) \<Longrightarrow> pp_step s (decide r Deferred s)"
| near: "r < length (calls s) \<Longrightarrow> verdict (calls s ! r) = Rival \<Longrightarrow>
     call_seq (calls s ! r) \<le> seq s (spot (calls s ! r)) \<Longrightarrow> pp_step s (decide r Close s)"
| tie: "r < length (calls s) \<Longrightarrow> verdict (calls s ! r) = Close \<Longrightarrow> tied s (calls s ! r) \<Longrightarrow>
     pp_step s (decide r Deferred s)"
| grant: "r < length (calls s) \<Longrightarrow> verdict (calls s ! r) = Close \<Longrightarrow> \<not> tied s (calls s ! r) \<Longrightarrow>
     pp_step s (decide r Granted s)"
| wake: "r < length (calls s) \<Longrightarrow> verdict (calls s ! r) = Deferred \<Longrightarrow>
     phase s c = P_release (call_lock (calls s ! r)) \<Longrightarrow> home s c = call_at (calls s ! r) \<Longrightarrow>
     pp_step s (decide r Granted s)"
| reply: "phase s c = P_await L G r \<Longrightarrow> verdict (calls s ! r) = Granted \<Longrightarrow>
     pp_step s (s\<lparr>phase := (phase s)(c := P_collect L (insert (call_at (calls s ! r)) G))\<rparr>)"
| enter: "phase s c = P_collect L G \<Longrightarrow> peers s - {home s c} \<subseteq> G \<Longrightarrow>
     pp_step s (s\<lparr>phase := (phase s)(c := P_cs L G)\<rparr>)"
| leave: "phase s c = P_cs L G \<Longrightarrow> pp_step s (s\<lparr>phase := (phase s)(c := P_release L)\<rparr>)"
| unlock: "phase s c = P_release L \<Longrightarrow>
     pp_step s (s\<lparr>held := (held s)((home s c, L) := False), phase := (phase s)(c := P_idle)\<rparr>)"

text \<open>
  What the program can do besides, and what breaks mutual exclusion: an update of the highest number
  is lost, a number wraps, a call returns without its permission.
\<close>

inductive pp_fault :: "proto \<Rightarrow> proto \<Rightarrow> bool" where
  lose: "r < length (calls s) \<Longrightarrow> verdict (calls s ! r) = Loaded x \<Longrightarrow>
     pp_fault s (decide r Noted (s\<lparr>high := (high s)(spot (calls s ! r) := x)\<rparr>))"
| wrap: "phase s c = P_number L \<Longrightarrow> pp_fault s (s\<lparr>phase := (phase s)(c := P_store L x)\<rparr>)"
| unreplied: "phase s c = P_await L G r \<Longrightarrow>
     pp_fault s (s\<lparr>phase := (phase s)(c := P_collect L (insert (call_at (calls s ! r)) G))\<rparr>)"

section \<open>What the invariant speaks about\<close>

fun active :: "phase \<Rightarrow> int \<Rightarrow> bool" where
  "active (P_collect L G) L' \<longleftrightarrow> L = L'"
| "active (P_await L G r) L' \<longleftrightarrow> L = L'"
| "active (P_cs L G) L' \<longleftrightarrow> L = L'"
| "active _ _ \<longleftrightarrow> False"

fun granted_by :: "phase \<Rightarrow> host set" where
  "granted_by (P_collect L G) = G"
| "granted_by (P_await L G r) = G"
| "granted_by (P_cs L G) = G"
| "granted_by _ = {}"

fun owner :: "phase \<Rightarrow> int \<Rightarrow> bool" where
  "owner P_idle L' \<longleftrightarrow> False"
| "owner (P_want L) L' \<longleftrightarrow> False"
| "owner (P_flag L) L' \<longleftrightarrow> L = L'"
| "owner (P_number L) L' \<longleftrightarrow> L = L'"
| "owner (P_store L x) L' \<longleftrightarrow> L = L'"
| "owner (P_release L) L' \<longleftrightarrow> L = L'"
| "owner p L' \<longleftrightarrow> active p L'"

definition holds_permission :: "proto \<Rightarrow> cid \<Rightarrow> host \<Rightarrow> bool" where
  "holds_permission s c d \<longleftrightarrow> d \<in> granted_by (phase s c) \<or>
     (\<exists>L G r. phase s c = P_await L G r \<and> call_at (calls s ! r) = d \<and>
        verdict (calls s ! r) = Granted)"

text \<open>The number a thread competes with, or is about to.\<close>

definition bids :: "proto \<Rightarrow> cid \<Rightarrow> int \<Rightarrow> int \<Rightarrow> bool" where
  "bids s c L x \<longleftrightarrow> active (phase s c) L \<and> x = seq s (home s c, L) \<or> phase s c = P_store L x"

definition inv_static :: "proto \<Rightarrow> bool" where
  "inv_static s \<longleftrightarrow> inj_on (hmac s) (peers s) \<and> range (home s) \<subseteq> peers s"

definition inv_own :: "proto \<Rightarrow> bool" where
  "inv_own s \<longleftrightarrow>
     (\<forall>c L. owner (phase s c) L \<longrightarrow> held s (home s c, L)) \<and>
     (\<forall>c c' L. owner (phase s c) L \<longrightarrow> owner (phase s c') L \<longrightarrow> home s c = home s c' \<longrightarrow> c = c')"

definition inv_req :: "proto \<Rightarrow> bool" where
  "inv_req s \<longleftrightarrow>
     (\<forall>c L. phase s c = P_number L \<or> (\<exists>x. bids s c L x) \<longrightarrow> req s (home s c, L))"

definition inv_seq :: "proto \<Rightarrow> bool" where
  "inv_seq s \<longleftrightarrow> (\<forall>k. seq s k \<le> high s k + 1) \<and>
     (\<forall>c L x. phase s c = P_store L x \<longrightarrow> seq s (home s c, L) \<le> x \<and> x \<le> high s (home s c, L) + 1)"

definition inv_call :: "proto \<Rightarrow> bool" where
  "inv_call s \<longleftrightarrow>
     (\<forall>c L G r. phase s c = P_await L G r \<longrightarrow> r < length (calls s) \<and>
        call_lock (calls s ! r) = L \<and> call_seq (calls s ! r) = seq s (home s c, L) \<and>
        call_mac (calls s ! r) = hmac s (home s c))"

text \<open>A request that has not been granted yet is waited for.\<close>

definition inv_wait :: "proto \<Rightarrow> bool" where
  "inv_wait s \<longleftrightarrow>
     (\<forall>r < length (calls s). verdict (calls s ! r) \<noteq> Granted \<longrightarrow> (\<exists>c L G. phase s c = P_await L G r))"

text \<open>What a handler has read is still true.\<close>

fun read_ok :: "proto \<Rightarrow> call \<Rightarrow> verdict \<Rightarrow> bool" where
  "read_ok s k Arrived \<longleftrightarrow> True"
| "read_ok s k (Loaded x) \<longleftrightarrow> call_seq k \<le> x"
| "read_ok s k Rival \<longleftrightarrow> call_seq k \<le> high s (spot k) \<and> req s (spot k)"
| "read_ok s k Close \<longleftrightarrow> call_seq k \<le> high s (spot k) \<and> req s (spot k) \<and> call_seq k \<le> seq s (spot k)"
| "read_ok s k v \<longleftrightarrow> call_seq k \<le> high s (spot k)"

definition inv_read :: "proto \<Rightarrow> bool" where
  "inv_read s \<longleftrightarrow> (\<forall>r < length (calls s). read_ok s (calls s ! r) (verdict (calls s ! r)))"

definition inv_perm :: "proto \<Rightarrow> bool" where
  "inv_perm s \<longleftrightarrow>
     (\<forall>c L d. active (phase s c) L \<longrightarrow> holds_permission s c d \<longrightarrow> d \<noteq> home s c \<longrightarrow>
        seq s (home s c, L) \<le> high s (d, L) \<and>
        (\<forall>c' x. bids s c' L x \<longrightarrow> home s c' = d \<longrightarrow>
           Stamp (seq s (home s c, L)) (hmac s (home s c)) < Stamp x (hmac s d)))"

definition inv_cs :: "proto \<Rightarrow> bool" where
  "inv_cs s \<longleftrightarrow> (\<forall>c L G. phase s c = P_cs L G \<longrightarrow> peers s - {home s c} \<subseteq> G)"

definition pp_inv :: "proto \<Rightarrow> bool" where
  "pp_inv s \<longleftrightarrow> inv_static s \<and> inv_own s \<and> inv_req s \<and> inv_seq s \<and> inv_call s \<and> inv_wait s \<and>
     inv_read s \<and> inv_perm s \<and> inv_cs s"

section \<open>Every step keeps the invariant\<close>

lemma active_owner: "active p L \<Longrightarrow> owner p L"
  by (cases p) auto

lemma bids_owner: "bids s c L x \<Longrightarrow> owner (phase s c) L"
  by (auto simp: bids_def active_owner)

lemma decide_simps [simp]:
  "home (decide r v s) = home s" "hmac (decide r v s) = hmac s" "peers (decide r v s) = peers s"
  "held (decide r v s) = held s" "req (decide r v s) = req s" "seq (decide r v s) = seq s"
  "high (decide r v s) = high s" "phase (decide r v s) = phase s"
  "length (calls (decide r v s)) = length (calls s)"
  by (simp_all add: decide_def)

lemma calls_decide:
  "r' < length (calls s) \<Longrightarrow> calls (decide r v s) ! r' = (if r' = r then (calls s ! r)\<lparr>verdict := v\<rparr> else calls s ! r')"
  by (simp add: decide_def nth_list_update)

lemma spot_verdict [simp]: "spot (k\<lparr>verdict := v\<rparr>) = spot k" "tied s (k\<lparr>verdict := v\<rparr>) = tied s k"
  by (simp_all add: spot_def tied_def)

lemma calls_decide_fields [simp]:
  "call_at (calls (decide r v s) ! r') = call_at (calls s ! r')"
  "call_lock (calls (decide r v s) ! r') = call_lock (calls s ! r')"
  "call_seq (calls (decide r v s) ! r') = call_seq (calls s ! r')"
  "call_mac (calls (decide r v s) ! r') = call_mac (calls s ! r')"
  by (cases "r' = r \<and> r < length (calls s)"; auto simp: decide_def nth_list_update list_update_beyond)+

lemma verdict_decide:
  "verdict (calls (decide r v s) ! r') = (if r' = r \<and> r < length (calls s) then v else verdict (calls s ! r'))"
  by (auto simp: decide_def nth_list_update list_update_beyond)

lemma inv_static_step: "pp_step s t \<Longrightarrow> inv_static s \<Longrightarrow> inv_static t"
  by (induction rule: pp_step.induct) (simp_all add: inv_static_def)

lemma inv_own_step: "pp_step s t \<Longrightarrow> inv_own s \<Longrightarrow> inv_own t"
  by (induction rule: pp_step.induct) (fastforce simp: inv_own_def split: if_splits)+

lemma inv_own_fault: "pp_fault s t \<Longrightarrow> inv_own s \<Longrightarrow> inv_own t"
  by (induction rule: pp_fault.induct) (fastforce simp: inv_own_def split: if_splits)+

lemma inv_req_step: "pp_step s t \<Longrightarrow> inv_req s \<Longrightarrow> inv_req t"
  by (induction rule: pp_step.induct) (fastforce simp: inv_req_def bids_def split: if_splits)+

lemma inv_seq_high:
  assumes "inv_seq s" and "\<And>k. high s k \<le> high t k" and "seq t = seq s" "home t = home s" "phase t = phase s"
  shows "inv_seq t"
proof -
  have "high s k + 1 \<le> high t k + 1" for k using assms(2) by simp
  with assms(1) show ?thesis unfolding inv_seq_def assms(3-5) by (meson order_trans)
qed

lemma inv_seq_step:
  assumes "pp_step s t" and "inv_own s" and "inv_seq s"
  shows "inv_seq t"
  using assms
proof (induction rule: pp_step.induct)
  case (store s c L x)
  have alone: "c' = c" if "phase s c' = P_store L y" "home s c' = home s c" for c' y
    using store.prems(1) store.hyps that unfolding inv_own_def by (metis owner.simps(5))
  have x: "x \<le> high s (home s c, L) + 1" and old: "\<And>k. seq s k \<le> high s k + 1"
    and st: "\<And>c' M y. phase s c' = P_store M y \<Longrightarrow> seq s (home s c', M) \<le> y \<and> y \<le> high s (home s c', M) + 1"
    using store unfolding inv_seq_def by blast+
  have "((seq s)((home s c, L) := x)) (home s c', M) \<le> y \<and> y \<le> high s (home s c', M) + 1"
    if p: "((phase s)(c := P_collect L {})) c' = P_store M y" for c' M y
  proof -
    have c': "c' \<noteq> c" "phase s c' = P_store M y" using p by (auto split: if_splits)
    then have "(home s c', M) \<noteq> (home s c, L)" using alone by auto
    then show ?thesis using st [OF c'(2)] by (auto simp: fun_upd_def)
  qed
  then show ?case using x old unfolding inv_seq_def by simp
next
  case (noted r s x)
  show ?case by (rule inv_seq_high [OF noted.prems(2)]) (use noted.hyps in simp_all)
qed (fastforce simp: inv_seq_def split: if_splits)+

lemma inv_call_step: "pp_step s t \<Longrightarrow> inv_own s \<Longrightarrow> inv_call s \<Longrightarrow> inv_call t"
proof (induction rule: pp_step.induct)
  case (store s c L x)
  then have "owner (phase s c) L" by simp
  then have "phase s c' = P_await L G r \<Longrightarrow> home s c' = home s c \<Longrightarrow> c' = c" for c' G r
    using store.prems(1) by (auto simp: inv_own_def)
  with store show ?case by (fastforce simp: inv_call_def)
qed (fastforce simp: inv_call_def nth_append split: if_splits)+

lemma inv_wait_move:
  assumes "inv_wait s" and "phase t = (phase s)(c := p)" and "calls t = calls s"
    and "\<And>L G r. phase s c = P_await L G r \<Longrightarrow> verdict (calls s ! r) = Granted"
  shows "inv_wait t"
  unfolding inv_wait_def
proof (intro allI impI)
  fix r assume r: "r < length (calls t)" "verdict (calls t ! r) \<noteq> Granted"
  then obtain c' L G where p: "phase s c' = P_await L G r" using assms(1,3) unfolding inv_wait_def by auto
  with assms(3,4) r(2) have "c' \<noteq> c" by auto
  with p assms(2) show "\<exists>c L G. phase t c = P_await L G r" by (intro exI [of _ c']) simp
qed

lemma inv_wait_step: "pp_step s t \<Longrightarrow> inv_wait s \<Longrightarrow> inv_wait t"
proof (induction rule: pp_step.induct)
  case (send s c L G d)
  have "\<exists>c' M H. ((phase s)(c := P_await L G (length (calls s)))) c' = P_await M H r"
    if r: "r < length (calls s)" "verdict (calls s ! r) \<noteq> Granted" for r
  proof -
    obtain c' M H where p: "phase s c' = P_await M H r" using send.prems r unfolding inv_wait_def by blast
    with send.hyps have "c' \<noteq> c" by auto
    with p show ?thesis by (intro exI [of _ c']) simp
  qed
  moreover have "((phase s)(c := P_await L G (length (calls s)))) c = P_await L G (length (calls s))" by simp
  ultimately show ?case unfolding inv_wait_def by (simp add: nth_append less_Suc_eq) blast
qed ((rule inv_wait_move, assumption, simp, simp, fastforce) |
    (fastforce simp: inv_wait_def verdict_decide split: if_splits))+

lemma read_ok_verdict [simp]: "read_ok s (k\<lparr>verdict := v\<rparr>) v' = read_ok s k v'"
  by (cases v') simp_all

lemma read_ok_mono:
  assumes "read_ok s k v" and "high s (spot k) \<le> high t (spot k)" and "req s (spot k) \<longrightarrow> req t (spot k)"
    and "seq s (spot k) \<le> seq t (spot k)"
  shows "read_ok t k v"
  using assms by (cases v) auto

lemma pp_mono:
  assumes "pp_step s t" and "inv_seq s"
  shows "high s k \<le> high t k" and "req s k \<Longrightarrow> req t k" and "seq s k \<le> seq t k"
  using assms by (induction rule: pp_step.induct) (auto simp: inv_seq_def)

lemma inv_read_step:
  assumes step: "pp_step s t" and "inv_seq s" and "inv_read s"
  shows "inv_read t"
proof -
  have keep: "read_ok t (calls s ! r) (verdict (calls s ! r))" if "r < length (calls s)" for r
    using assms(3) that pp_mono [OF step assms(2)] read_ok_mono unfolding inv_read_def by blast
  have dec: "inv_read t" if "t = decide r v u" "calls u = calls s" "read_ok t (calls s ! r) v" for r v u
    using keep that(1,3) unfolding inv_read_def by (auto simp: that(2) calls_decide)
  from step show ?thesis
  proof cases
    case (send c L G d)
    then show ?thesis using keep by (auto simp: inv_read_def nth_append less_Suc_eq)
  next
    case (look r x) then show ?thesis by (intro dec [of r "Loaded x"]) auto
  next
    case (noted r x) with keep [of r] show ?thesis by (intro dec [of r Noted "s\<lparr>high := (high s)(spot (calls s ! r) := x)\<rparr>"]) auto
  next
    case (free r) with keep [of r] show ?thesis by (intro dec [of r Granted]) auto
  next
    case (rival r) with keep [of r] show ?thesis by (intro dec [of r Rival]) auto
  next
    case (later r) with keep [of r] show ?thesis by (intro dec [of r Deferred]) auto
  next
    case (near r) with keep [of r] show ?thesis by (intro dec [of r Close]) auto
  next
    case (tie r) with keep [of r] show ?thesis by (intro dec [of r Deferred]) auto
  next
    case (grant r) with keep [of r] show ?thesis by (intro dec [of r Granted]) auto
  next
    case (wake r c) with keep [of r] show ?thesis by (intro dec [of r Granted]) auto
  qed (use keep in \<open>auto simp: inv_read_def\<close>)
qed

lemma inv_cs_step: "pp_step s t \<Longrightarrow> inv_cs s \<Longrightarrow> inv_cs t"
  by (induction rule: pp_step.induct) (auto simp: inv_cs_def)

subsection \<open>Permissions\<close>

text \<open>
  A step that neither draws a number nor grants a request leaves the permission invariant
  alone; the kinds that do are treated one by one.
\<close>

lemma inv_perm_frame:
  assumes "inv_perm s"
    and "\<And>c L. active (phase t c) L \<Longrightarrow> active (phase s c) L"
    and "\<And>c d. holds_permission t c d \<Longrightarrow> holds_permission s c d"
    and "\<And>c L x. bids t c L x \<Longrightarrow> bids s c L x"
    and "seq t = seq s" and "hmac t = hmac s" and "home t = home s"
    and "\<And>k. high s k \<le> high t k"
  shows "inv_perm t"
  unfolding inv_perm_def assms(5-7)
proof (intro allI impI)
  fix c L d
  assume a: "active (phase t c) L" and p: "holds_permission t c d" and d: "d \<noteq> home s c"
  from assms(1) assms(2) [OF a] assms(3) [OF p] d
  have "seq s (home s c, L) \<le> high s (d, L) \<and> (\<forall>c' x. bids s c' L x \<longrightarrow> home s c' = d \<longrightarrow>
      Stamp (seq s (home s c, L)) (hmac s (home s c)) < Stamp x (hmac s d))"
    unfolding inv_perm_def by blast
  then show "seq s (home s c, L) \<le> high t (d, L) \<and> (\<forall>c' x. bids t c' L x \<longrightarrow> home s c' = d \<longrightarrow>
      Stamp (seq s (home s c, L)) (hmac s (home s c)) < Stamp x (hmac s d))"
    using assms(4,8) order_trans by blast
qed

lemma inv_perm_number:
  assumes "phase s c = P_number L" and perm: "inv_perm s" and t: "t = s\<lparr>phase := (phase s)(c := P_store L x)\<rparr>"
    and x: "x = high s (home s c, L) + 1"
  shows "inv_perm t"
  unfolding inv_perm_def
proof (intro allI impI conjI)
  fix a M d
  assume "active (phase t a) M" "holds_permission t a d" "d \<noteq> home t a"
  then have a: "active (phase s a) M" "holds_permission s a d" "d \<noteq> home s a"
    using t by (auto simp: holds_permission_def split: if_splits)
  then have old: "seq s (home s a, M) \<le> high s (d, M)" "\<And>b y. bids s b M y \<Longrightarrow> home s b = d \<Longrightarrow>
      Stamp (seq s (home s a, M)) (hmac s (home s a)) < Stamp y (hmac s d)"
    using perm unfolding inv_perm_def by blast+
  show "seq t (home t a, M) \<le> high t (d, M)" using old(1) t by simp
  fix b y assume b: "bids t b M y" "home t b = d"
  show "Stamp (seq t (home t a, M)) (hmac t (home t a)) < Stamp y (hmac t d)"
  proof (cases "b = c")
    case True
    with b t x old(1) show ?thesis by (auto simp: bids_def)
  next
    case False
    with b t have "bids s b M y" "home s b = d" by (auto simp: bids_def)
    with old(2) t show ?thesis by simp
  qed
qed

lemma inv_perm_store:
  assumes c: "phase s c = P_store L x" and own: "inv_own s" and perm: "inv_perm s"
    and t: "t = s\<lparr>seq := (seq s)((home s c, L) := x), phase := (phase s)(c := P_collect L {})\<rparr>"
  shows "inv_perm t"
  unfolding inv_perm_def
proof (intro allI impI)
  have alone: "b = c" if "owner (phase s b) L" "home s b = home s c" for b
    using that own c unfolding inv_own_def by (metis owner.simps(5))
  fix a M d
  assume a: "active (phase t a) M" "holds_permission t a d" "d \<noteq> home t a"
  then have ac: "a \<noteq> c" using t by (auto simp: holds_permission_def)
  with a t have a': "active (phase s a) M" "holds_permission s a d" "d \<noteq> home s a"
    by (auto simp: holds_permission_def split: if_splits)
  have seqa: "seq t (home s a, M) = seq s (home s a, M)"
    using alone [of a] active_owner [OF a'(1)] ac t by auto
  have bids: "bids s b M y" if "bids t b M y" for b y
  proof (cases "b = c")
    case True
    with that c t show ?thesis by (auto simp: bids_def)
  next
    case False
    then have "\<not> (home s b = home s c \<and> M = L \<and> active (phase s b) M)" using alone [of b] active_owner by blast
    with False that t show ?thesis by (auto simp: bids_def split: if_splits)
  qed
  show "seq t (home t a, M) \<le> high t (d, M) \<and> (\<forall>b y. bids t b M y \<longrightarrow> home t b = d \<longrightarrow>
      Stamp (seq t (home t a, M)) (hmac t (home t a)) < Stamp y (hmac t d))"
    using perm a' bids seqa unfolding inv_perm_def by (simp add: t) blast
qed

lemma inv_perm_grant:
  assumes r: "r < length (calls s)" and k: "k = calls s ! r" and v: "call_seq k \<le> high s (spot k)"
    and ok: "\<And>c x. bids s c (call_lock k) x \<Longrightarrow> home s c = call_at k \<Longrightarrow>
      \<not> Stamp x (hmac s (call_at k)) < Stamp (call_seq k) (call_mac k)"
    and inv: "inv_static s" "inv_call s" "inv_perm s"
  shows "inv_perm (decide r Granted s)" (is "inv_perm ?t")
proof -
  have "seq s (home s c, L) \<le> high s (d, L) \<and> (\<forall>c' x. bids s c' L x \<longrightarrow> home s c' = d \<longrightarrow>
      Stamp (seq s (home s c, L)) (hmac s (home s c)) < Stamp x (hmac s d))"
    if a: "active (phase s c) L" and p: "holds_permission ?t c d" and d: "d \<noteq> home s c" for c L d
  proof (cases "holds_permission s c d")
    case True
    with inv(3) a d show ?thesis unfolding inv_perm_def by blast
  next
    case False
    with p obtain L' G where c: "phase s c = P_await L' G r" and at: "call_at k = d"
      using k by (auto simp: holds_permission_def verdict_decide split: if_splits)
    with a have "L' = L" by simp
    with c inv(2) k have call: "call_lock k = L" "call_seq k = seq s (home s c, L)"
        "call_mac k = hmac s (home s c)"
      by (auto simp: inv_call_def)
    have "Stamp (seq s (home s c, L)) (hmac s (home s c)) < Stamp x (hmac s d)"
      if c': "bids s c' L x" "home s c' = d" for c' x
    proof -
      have "hmac s (home s c) \<noteq> hmac s d"
        using c'(2) d inv(1) inj_onD [of "hmac s" "peers s" "home s c" "home s c'"]
        by (auto simp: inv_static_def)
      moreover have "\<not> Stamp x (hmac s d) < Stamp (call_seq k) (call_mac k)" using ok [of c' x] c' at call by simp
      ultimately show ?thesis using call by auto
    qed
    moreover have "seq s (home s c, L) \<le> high s (d, L)" using v at call by (simp add: spot_def)
    ultimately show ?thesis by blast
  qed
  then show ?thesis unfolding inv_perm_def bids_def by simp
qed

lemma inv_perm_step:
  assumes "pp_step s t" and "pp_inv s"
  shows "inv_perm t"
proof -
  have inv: "inv_static s" "inv_own s" "inv_req s" "inv_seq s" "inv_call s" "inv_read s" "inv_perm s"
    using assms(2) by (simp_all add: pp_inv_def)
  have noted: "call_seq (calls s ! r) \<le> high s (spot (calls s ! r))"
    if "r < length (calls s)" "verdict (calls s ! r) \<in> {Noted, Close, Deferred}" for r
    using inv(6) that unfolding inv_read_def by fastforce
  note grants = inv_perm_grant [OF _ refl noted _ inv(1,5,7)]
  from assms(1) show ?thesis
  proof cases
    case (number c L x)
    then show ?thesis using inv_perm_number [OF _ inv(7)] by blast
  next
    case (store c L x)
    then show ?thesis using inv_perm_store [OF _ inv(2,7)] by blast
  next
    case (free r)
    have "\<not> bids s c (call_lock (calls s ! r)) x" if "home s c = call_at (calls s ! r)" for c x
      using free(4) inv(3) that unfolding inv_req_def spot_def by metis
    with free show ?thesis by (auto intro!: grants)
  next
    case (grant r)
    let ?k = "calls s ! r"
    have near: "call_seq ?k \<le> seq s (spot ?k)" using inv(6) grant unfolding inv_read_def by fastforce
    have "\<not> Stamp x (hmac s (call_at ?k)) < Stamp (call_seq ?k) (call_mac ?k)"
      if "bids s c (call_lock ?k) x" "home s c = call_at ?k" for c x
    proof -
      have "seq s (home s c, call_lock ?k) \<le> x" using that(1) inv(4) unfolding bids_def inv_seq_def by blast
      then have "seq s (spot ?k) \<le> x" using that(2) by (simp add: spot_def)
      with near grant(4) that show ?thesis by (auto simp: tied_def spot_def)
    qed
    then show ?thesis unfolding grant(1) by (intro grants) (use grant in auto)
  next
    case (wake r c)
    have "\<not> (bids s c' (call_lock (calls s ! r)) x \<and> home s c' = call_at (calls s ! r))" for c' x
    proof
      assume a: "bids s c' (call_lock (calls s ! r)) x \<and> home s c' = call_at (calls s ! r)"
      then have "c' = c" using wake inv(2) bids_owner [of s c'] unfolding inv_own_def by (metis owner.simps(6))
      with a wake show False by (auto simp: bids_def)
    qed
    with wake show ?thesis by (auto intro!: grants)
  qed (rule inv_perm_frame [OF inv(7)]; use inv(5) in \<open>fastforce simp: holds_permission_def bids_def
      inv_call_def nth_append verdict_decide split: if_splits\<close>)+
qed

lemma pp_inv_step: "pp_inv s \<Longrightarrow> pp_step s t \<Longrightarrow> pp_inv t"
  using inv_static_step [of s t] inv_own_step [of s t] inv_req_step [of s t] inv_seq_step [of s t]
    inv_call_step [of s t] inv_wait_step [of s t] inv_read_step [of s t] inv_perm_step [of s t] inv_cs_step [of s t]
  by (simp add: pp_inv_def)

interpretation pp_system: invariant_system pp_step pp_inv
  by unfold_locales (rule pp_inv_step)

section \<open>Mutual exclusion\<close>

lemma pp_exclusive:
  assumes inv: "pp_inv s" and c: "phase s c = P_cs L G" and c': "phase s c' = P_cs L G'"
  shows "c = c'"
proof (cases "home s c = home s c'")
  case True
  with inv c c' show ?thesis by (auto simp: pp_inv_def inv_own_def)
next
  case False
  have rank: "Stamp (seq s (home s a, L)) (hmac s (home s a)) < Stamp (seq s (home s b, L)) (hmac s (home s b))"
    if "phase s a = P_cs L H" "phase s b = P_cs L K" "home s a \<noteq> home s b" for a b H K
  proof -
    have "home s b \<in> peers s" and "peers s - {home s a} \<subseteq> H"
      using that(1) inv by (auto simp: pp_inv_def inv_cs_def inv_static_def)
    with that have "holds_permission s a (home s b)" by (auto simp: holds_permission_def)
    moreover have "active (phase s a) L" "bids s b L (seq s (home s b, L))" using that by (simp_all add: bids_def)
    ultimately show ?thesis using that(3) inv unfolding pp_inv_def inv_perm_def by metis
  qed
  show ?thesis using rank [OF c c' False] rank [OF c' c] False by (metis less_asym)
qed

section \<open>One handler at a time\<close>

text \<open>
  When at most one undecided request is at work at a spot, what a handler has computed to be the highest number
  is not overtaken before it is stored.
\<close>

definition single :: "proto \<Rightarrow> bool" where
  "single s \<longleftrightarrow> (\<forall>r < length (calls s). \<forall>r' < length (calls s). verdict (calls s ! r) \<noteq> Granted \<longrightarrow>
     verdict (calls s ! r') \<noteq> Granted \<longrightarrow> spot (calls s ! r) = spot (calls s ! r') \<longrightarrow> r = r')"

definition fresh :: "proto \<Rightarrow> bool" where
  "fresh s \<longleftrightarrow> (\<forall>r < length (calls s). \<forall>x. verdict (calls s ! r) = Loaded x \<longrightarrow> high s (spot (calls s ! r)) \<le> x)"

lemma fresh_step:
  assumes "pp_step s t" and "single s" and "fresh s"
  shows "fresh t"
  using assms(1)
proof cases
  case (noted r x)
  show ?thesis
    unfolding fresh_def
  proof (intro allI impI)
    fix r' y assume r': "r' < length (calls t)" "verdict (calls t ! r') = Loaded y"
    with noted have "r' \<noteq> r" "verdict (calls s ! r') = Loaded y" by (auto simp: verdict_decide split: if_splits)
    moreover from this noted r' have "spot (calls s ! r') \<noteq> spot (calls s ! r)"
      using assms(2) unfolding single_def by fastforce
    moreover have "spot (calls t ! r') = spot (calls s ! r')" "r' < length (calls s)" using noted(1) r'(1) by (simp_all add: spot_def)
    moreover have "high s (spot (calls s ! r')) \<le> y" using assms(3) calculation(2,5) unfolding fresh_def by blast
    ultimately show "high t (spot (calls t ! r')) \<le> y" using noted(1) by simp
  qed
qed (use assms(3) in \<open>auto simp: fresh_def spot_def nth_append less_Suc_eq verdict_decide split: if_splits\<close>)

end
