(* ===== verification/Lock_Refinement.thy ===== *)
theory Lock_Refinement
  imports Lock_System Permission_Protocol
begin

text \<open>
  The system of lock servers and client threads implements the abstract protocol: the
  abstraction function reads the protocol state off the detailed state, and every statement
  of every thread is a step of the protocol or leaves the protocol state alone, provided the
  detailed invariant \<open>sys_ok\<close> holds. The invariant says that the pointers of all threads point
  at the lock variable of their number, that the mutexes of lock variables are never destroyed,
  that a thread waiting for a reply waits for the host it has asked, and that a deferred
  mutex belongs to one waiting thread.
\<close>

section \<open>Abstraction\<close>

definition reached :: "(string \<Rightarrow> host option) \<Rightarrow> server \<Rightarrow> nat \<Rightarrow> host set" where
  "reached resolve srv k = {d. \<exists>a \<in> set (take k (nodes srv)). resolve a = Some d}"

fun abs_phase :: "(string \<Rightarrow> host option) \<Rightarrow> server \<Rightarrow> int \<Rightarrow> client_pc \<Rightarrow> phase" where
  "abs_phase resolve srv n Idle = P_idle"
| "abs_phase resolve srv n (Acquiring AQ_find) = P_want n"
| "abs_phase resolve srv n (Acquiring (AQ_lock p)) = P_want n"
| "abs_phase resolve srv n (Acquiring (AQ_cs p)) = P_flag n"
| "abs_phase resolve srv n (Acquiring (AQ_seq p)) = P_number n"
| "abs_phase resolve srv n (Acquiring (AQ_store p x)) = P_store n x"
| "abs_phase resolve srv n (Acquiring (AQ_loop p i)) = P_collect n (reached resolve srv i)"
| "abs_phase resolve srv n (Acquiring AQ_return) = P_cs n (reached resolve srv (length (nodes srv)))"
| "abs_phase resolve srv n (Awaiting (AQ_loop p i) r) = P_await n (reached resolve srv (i - 1)) r"
| "abs_phase resolve srv n (Awaiting pc r) = P_idle"
| "abs_phase resolve srv n Holding = P_cs n (reached resolve srv (length (nodes srv)))"
| "abs_phase resolve srv n (Releasing RL_return) = P_idle"
| "abs_phase resolve srv n (Releasing pc) = P_release n"

fun abs_verdict :: "mutex list \<Rightarrow> request_pc \<Rightarrow> verdict" where
  "abs_verdict ms RQ_find = Arrived"
| "abs_verdict ms (RQ_highest p) = Arrived"
| "abs_verdict ms (RQ_store p x) = Loaded x"
| "abs_verdict ms (RQ_cs p) = Noted"
| "abs_verdict ms (RQ_later p) = Rival"
| "abs_verdict ms (RQ_tie p) = Close"
| "abs_verdict ms (RQ_append p) = Deferred"
| "abs_verdict ms (RQ_lock1 m) = (if mx_destroyed (ms ! m) then Granted else Deferred)"
| "abs_verdict ms (RQ_lock2 m) =
     (if mx_destroyed (ms ! m) \<or> \<not> mx_locked (ms ! m) then Granted else Deferred)"
| "abs_verdict ms (RQ_blocked m) = (if \<not> mx_locked (ms ! m) then Granted else Deferred)"
| "abs_verdict ms RQ_return = Granted"

definition abs_call :: "(host \<Rightarrow> server) \<Rightarrow> handler \<Rightarrow> call" where
  "abs_call srvs k = \<lparr>call_at = hd_host k, call_lock = pack_lock_number (hd_pack k),
     call_seq = pack_seqno (hd_pack k), call_mac = pack_mac (hd_pack k),
     verdict = abs_verdict (mutexes (srvs (hd_host k))) (hd_pc k)\<rparr>"

definition abs_sys :: "(string \<Rightarrow> host option) \<Rightarrow> sys \<Rightarrow> proto" where
  "abs_sys resolve s = \<lparr>home = (\<lambda>c. cl_host (clients s c)), hmac = (\<lambda>h. mac (servers s h)),
     peers = set (cluster s),
     held = (\<lambda>(h, n). mx_locked (lock (lvar (servers s h) n))),
     req = (\<lambda>(h, n). requesting_cs (lvar (servers s h) n)),
     seq = (\<lambda>(h, n). myseqno (lvar (servers s h) n)),
     high = (\<lambda>(h, n). highestseqno (lvar (servers s h) n)),
     phase = (\<lambda>c. abs_phase resolve (servers s (cl_host (clients s c)))
                    (cl_number (clients s c)) (cl_pc (clients s c))),
     calls = map (abs_call (servers s)) (handlers s)\<rparr>"

section \<open>The invariant of the detailed system\<close>

fun client_ptr :: "client_pc \<Rightarrow> nat option" where
  "client_ptr (Acquiring (AQ_lock p)) = Some p"
| "client_ptr (Acquiring (AQ_cs p)) = Some p"
| "client_ptr (Acquiring (AQ_seq p)) = Some p"
| "client_ptr (Acquiring (AQ_store p x)) = Some p"
| "client_ptr (Acquiring (AQ_loop p i)) = Some p"
| "client_ptr (Awaiting (AQ_loop p i) r) = Some p"
| "client_ptr (Releasing (RL_loop p i)) = Some p"
| "client_ptr (Releasing (RL_destroy p i)) = Some p"
| "client_ptr (Releasing (RL_reset p)) = Some p"
| "client_ptr (Releasing (RL_unlock p)) = Some p"
| "client_ptr _ = None"

fun handler_ptr :: "request_pc \<Rightarrow> nat option" where
  "handler_ptr (RQ_highest p) = Some p"
| "handler_ptr (RQ_store p x) = Some p"
| "handler_ptr (RQ_cs p) = Some p"
| "handler_ptr (RQ_later p) = Some p"
| "handler_ptr (RQ_tie p) = Some p"
| "handler_ptr (RQ_append p) = Some p"
| "handler_ptr _ = None"

fun waits_on :: "request_pc \<Rightarrow> nat option" where
  "waits_on (RQ_lock1 m) = Some m"
| "waits_on (RQ_lock2 m) = Some m"
| "waits_on (RQ_blocked m) = Some m"
| "waits_on _ = None"

definition ptrs_ok :: "sys \<Rightarrow> bool" where
  "ptrs_ok s \<longleftrightarrow>
     (\<forall>h. table_ok (servers s h)) \<and>
     (\<forall>c p. client_ptr (cl_pc (clients s c)) = Some p \<longrightarrow>
        ptr_ok (servers s (cl_host (clients s c))) p (cl_number (clients s c))) \<and>
     (\<forall>r < length (handlers s). \<forall>p. handler_ptr (hd_pc (handlers s ! r)) = Some p \<longrightarrow>
        ptr_ok (servers s (hd_host (handlers s ! r))) p (pack_lock_number (hd_pack (handlers s ! r))))"

definition alive :: "sys \<Rightarrow> bool" where
  "alive s \<longleftrightarrow> (\<forall>h n. \<not> mx_destroyed (lock (lvar (servers s h) n)))"

definition calls_ok :: "(string \<Rightarrow> host option) \<Rightarrow> sys \<Rightarrow> bool" where
  "calls_ok resolve s \<longleftrightarrow>
     (\<forall>c pc r. cl_pc (clients s c) = Awaiting pc r \<longrightarrow> r < length (handlers s) \<and>
        (\<exists>p i. pc = AQ_loop p (Suc i) \<and> i < length (nodes (servers s (cl_host (clients s c)))) \<and>
           resolve (nodes (servers s (cl_host (clients s c))) ! i) = Some (hd_host (handlers s ! r))))"

definition waits_ok :: "sys \<Rightarrow> bool" where
  "waits_ok s \<longleftrightarrow>
     (\<forall>r < length (handlers s). \<forall>m. waits_on (hd_pc (handlers s ! r)) = Some m \<longrightarrow>
        m < length (mutexes (servers s (hd_host (handlers s ! r)))) \<and>
        (\<forall>r' < length (handlers s). hd_host (handlers s ! r') = hd_host (handlers s ! r) \<longrightarrow>
           waits_on (hd_pc (handlers s ! r')) = Some m \<longrightarrow> r' = r)) \<and>
     (\<forall>h n m. m \<in> set (deffered (lvar (servers s h) n)) \<longrightarrow> m < length (mutexes (servers s h)) \<and>
        (\<forall>r < length (handlers s). hd_host (handlers s ! r) = h \<longrightarrow>
           waits_on (hd_pc (handlers s ! r)) = Some m \<longrightarrow>
           pack_lock_number (hd_pack (handlers s ! r)) = n))"

definition destroy_ok :: "sys \<Rightarrow> bool" where
  "destroy_ok s \<longleftrightarrow>
     (\<forall>c p i. cl_pc (clients s c) = Releasing (RL_destroy p i) \<longrightarrow>
        i < length (deffered (lvar (servers s (cl_host (clients s c))) (cl_number (clients s c)))))"

definition sys_ok :: "(string \<Rightarrow> host option) \<Rightarrow> sys \<Rightarrow> bool" where
  "sys_ok resolve s \<longleftrightarrow> connected resolve s \<and> ptrs_ok s \<and> alive s \<and> calls_ok resolve s \<and>
     waits_ok s \<and> destroy_ok s"

section \<open>How the abstraction follows the updates\<close>

lemma abs_phase_cong:
  "nodes srv = nodes srv' \<Longrightarrow> abs_phase resolve srv n pc = abs_phase resolve srv' n pc"
  by (induction resolve srv n pc rule: abs_phase.induct) (auto simp: reached_def)

lemma abs_proj:
  "home (abs_sys resolve s) c = cl_host (clients s c)"
  "hmac (abs_sys resolve s) h = mac (servers s h)"
  "peers (abs_sys resolve s) = set (cluster s)"
  "held (abs_sys resolve s) (h, n) = mx_locked (lock (lvar (servers s h) n))"
  "req (abs_sys resolve s) (h, n) = requesting_cs (lvar (servers s h) n)"
  "seq (abs_sys resolve s) (h, n) = myseqno (lvar (servers s h) n)"
  "high (abs_sys resolve s) (h, n) = highestseqno (lvar (servers s h) n)"
  "phase (abs_sys resolve s) c = abs_phase resolve (servers s (cl_host (clients s c)))
     (cl_number (clients s c)) (cl_pc (clients s c))"
  "calls (abs_sys resolve s) = map (abs_call (servers s)) (handlers s)"
  by (simp_all add: abs_sys_def)

lemma abs_idem [simp]:
  "(held (abs_sys resolve s))((h, n) := mx_locked (lock (lvar (servers s h) n))) = held (abs_sys resolve s)"
  "(req (abs_sys resolve s))((h, n) := requesting_cs (lvar (servers s h) n)) = req (abs_sys resolve s)"
  "(seq (abs_sys resolve s))((h, n) := myseqno (lvar (servers s h) n)) = seq (abs_sys resolve s)"
  "(high (abs_sys resolve s))((h, n) := highestseqno (lvar (servers s h) n)) = high (abs_sys resolve s)"
  by (simp_all add: abs_sys_def fun_eq_iff)

lemma abs_set_pc:
  "abs_sys resolve (set_pc c pc s) =
     (abs_sys resolve s)\<lparr>phase := (phase (abs_sys resolve s))(c :=
        abs_phase resolve (servers s (cl_host (clients s c))) (cl_number (clients s c)) pc)\<rparr>"
  by (auto simp: abs_sys_def set_pc_def fun_eq_iff)

lemma abs_set_exited: "abs_sys resolve (set_exited h s) = abs_sys resolve s"
  by (simp add: abs_sys_def set_exited_def)

lemma abs_same_table:
  assumes "nodes srv = nodes (servers s h)" and "mac srv = mac (servers s h)"
    and "lvar srv = lvar (servers s h)" and "mutexes srv = mutexes (servers s h)"
  shows "abs_sys resolve (set_server h srv s) = abs_sys resolve s"
proof -
  have "abs_call ((servers s)(h := srv)) k = abs_call (servers s) k" for k
    using assms(4) by (simp add: abs_call_def)
  then show ?thesis
    using assms by (auto simp: abs_sys_def set_server_def fun_eq_iff intro!: abs_phase_cong)
qed

lemma abs_upd_lockvar:
  assumes "table_ok (servers s h)" and "ptr_ok (servers s h) p n"
    and "\<And>v. lock_number (f v) = lock_number v"
  shows "abs_sys resolve (set_server h (upd_lockvar p f (servers s h)) s) =
     (abs_sys resolve s)\<lparr>
        held := (held (abs_sys resolve s))((h, n) := mx_locked (lock (f (lvar (servers s h) n)))),
        req := (req (abs_sys resolve s))((h, n) := requesting_cs (f (lvar (servers s h) n))),
        seq := (seq (abs_sys resolve s))((h, n) := myseqno (f (lvar (servers s h) n))),
        high := (high (abs_sys resolve s))((h, n) := highestseqno (f (lvar (servers s h) n)))\<rparr>"
proof -
  have "abs_call ((servers s)(h := upd_lockvar p f (servers s h))) k = abs_call (servers s) k" for k
    by (simp add: abs_call_def)
  moreover have "lvar (upd_lockvar p f (servers s h)) =
      (lvar (servers s h))(n := f (lvar (servers s h) n))"
    using assms by (rule lvar_upd)
  ultimately show ?thesis
    by (auto simp: abs_sys_def set_server_def fun_eq_iff intro!: abs_phase_cong)
qed

lemma abs_set_handler:
  "abs_sys resolve (s\<lparr>handlers := (handlers s)[r := k]\<rparr>) =
     (abs_sys resolve s)\<lparr>calls := (calls (abs_sys resolve s))[r := abs_call (servers s) k]\<rparr>"
  by (simp add: abs_sys_def map_update)


lemma set_simps [simp]:
  "clients (set_server h srv s) = clients s" "handlers (set_server h srv s) = handlers s"
  "cluster (set_server h srv s) = cluster s" "servers (set_server h srv s) = (servers s)(h := srv)"
  "servers (set_pc c pc s) = servers s" "handlers (set_pc c pc s) = handlers s"
  "cluster (set_pc c pc s) = cluster s"
  "clients (set_pc c pc s) = (clients s)(c := (clients s c)\<lparr>cl_pc := pc\<rparr>)"
  "servers (set_exited h s) = servers s" "handlers (set_exited h s) = handlers s"
  "cluster (set_exited h s) = cluster s" "clients (set_exited h s) = clients s"
  by (simp_all add: set_server_def set_pc_def set_exited_def)

subsection \<open>Deferred mutexes\<close>

lemma abs_verdict_other:
  "waits_on pc \<noteq> Some m \<Longrightarrow> abs_verdict (ms[m := x]) pc = abs_verdict ms pc"
  by (cases pc) auto

lemma abs_call_other:
  "\<not> (hd_host k = h \<and> waits_on (hd_pc k) = Some m) \<Longrightarrow>
     abs_call (srvs(h := upd_mutex m g (srvs h))) k = abs_call srvs k"
  by (auto simp: abs_call_def upd_mutex_def abs_verdict_other)

lemma abs_upd_mutex:
  "abs_sys resolve (set_server h (upd_mutex m g (servers s h)) s) =
     (abs_sys resolve s)\<lparr>calls :=
        map (abs_call ((servers s)(h := upd_mutex m g (servers s h)))) (handlers s)\<rparr>"
  by (auto simp: abs_sys_def set_server_def fun_eq_iff intro!: abs_phase_cong)

lemma calls_upd_mutex:
  assumes "waits_ok s" and r: "r < length (handlers s)" "hd_host (handlers s ! r) = h"
    "waits_on (hd_pc (handlers s ! r)) = Some m"
  shows "map (abs_call ((servers s)(h := upd_mutex m g (servers s h)))) (handlers s) =
     (map (abs_call (servers s)) (handlers s))[r := (abs_call (servers s) (handlers s ! r))\<lparr>verdict :=
        abs_verdict (mutexes (upd_mutex m g (servers s h))) (hd_pc (handlers s ! r))\<rparr>]"
proof (rule nth_equalityI)
  fix i
  assume "i < length (map (abs_call ((servers s)(h := upd_mutex m g (servers s h)))) (handlers s))"
  then have i: "i < length (handlers s)" by simp
  show "map (abs_call ((servers s)(h := upd_mutex m g (servers s h)))) (handlers s) ! i =
     (map (abs_call (servers s)) (handlers s))[r := (abs_call (servers s) (handlers s ! r))\<lparr>verdict :=
        abs_verdict (mutexes (upd_mutex m g (servers s h))) (hd_pc (handlers s ! r))\<rparr>] ! i"
  proof (cases "i = r")
    case True
    with i r show ?thesis by (simp add: abs_call_def)
  next
    case False
    with assms i have "\<not> (hd_host (handlers s ! i) = h \<and> waits_on (hd_pc (handlers s ! i)) = Some m)"
      unfolding waits_ok_def by metis
    with False i show ?thesis by (simp add: abs_call_other)
  qed
qed simp

lemma abs_verdict_released:
  assumes "waits_on pc = Some m" and "m < length ms"
    and "g = pthread_mutex_unlock \<or> g = pthread_mutex_destroy"
  shows "abs_verdict (ms[m := g (ms ! m)]) pc = abs_verdict ms pc \<or>
     abs_verdict ms pc = Deferred \<and> abs_verdict (ms[m := g (ms ! m)]) pc = Granted"
  using assms by (cases pc) (auto simp: pthread_defs split: if_splits)

lemma release_mutex_refines:
  assumes ok: "waits_ok s" and m: "m \<in> set (deffered (lvar (servers s h) n))"
    and c: "phase (abs_sys resolve s) c = P_release n" "home (abs_sys resolve s) c = h"
    and g: "g = pthread_mutex_unlock \<or> g = pthread_mutex_destroy"
  shows "abs_sys resolve (set_server h (upd_mutex m g (servers s h)) s) = abs_sys resolve s \<or>
     pp_step (abs_sys resolve s) (abs_sys resolve (set_server h (upd_mutex m g (servers s h)) s))"
proof (cases "\<exists>r < length (handlers s). hd_host (handlers s ! r) = h \<and>
    waits_on (hd_pc (handlers s ! r)) = Some m")
  case False
  then have "map (abs_call ((servers s)(h := upd_mutex m g (servers s h)))) (handlers s) =
      map (abs_call (servers s)) (handlers s)"
    by (auto simp: abs_call_other in_set_conv_nth)
  then have "abs_sys resolve (set_server h (upd_mutex m g (servers s h)) s) =
      (abs_sys resolve s)\<lparr>calls := calls (abs_sys resolve s)\<rparr>"
    by (simp only: abs_upd_mutex abs_proj)
  then show ?thesis by simp
next
  case True
  then obtain r where r: "r < length (handlers s)" "hd_host (handlers s ! r) = h"
    "waits_on (hd_pc (handlers s ! r)) = Some m" by blast
  let ?a = "abs_sys resolve s" and ?k = "calls (abs_sys resolve s) ! r"
  let ?ms = "mutexes (servers s h)" and ?pc = "hd_pc (handlers s ! r)"
  have k: "?k = abs_call (servers s) (handlers s ! r)" "r < length (calls ?a)"
    using r by (simp_all add: abs_sys_def)
  have new: "abs_sys resolve (set_server h (upd_mutex m g (servers s h)) s) =
      ?a\<lparr>calls := (calls ?a)[r := ?k\<lparr>verdict := abs_verdict (?ms[m := g (?ms ! m)]) ?pc\<rparr>]\<rparr>"
  proof -
    have "mutexes (upd_mutex m g (servers s h)) = ?ms[m := g (?ms ! m)]"
      by (simp add: upd_mutex_def)
    then show ?thesis
      by (simp only: abs_upd_mutex calls_upd_mutex [OF ok r] abs_proj nth_map [OF r(1)])
  qed
  have m': "m < length ?ms" and lock: "pack_lock_number (hd_pack (handlers s ! r)) = n"
    using ok m r unfolding waits_ok_def by blast+
  have v: "verdict ?k = abs_verdict ?ms ?pc" using k r by (simp add: abs_call_def)
  from abs_verdict_released [OF r(3) m' g] show ?thesis
  proof
    assume "abs_verdict (?ms[m := g (?ms ! m)]) ?pc = abs_verdict ?ms ?pc"
    with v have "?k\<lparr>verdict := abs_verdict (?ms[m := g (?ms ! m)]) ?pc\<rparr> = ?k" by simp
    with new show ?thesis by simp
  next
    assume "abs_verdict ?ms ?pc = Deferred \<and> abs_verdict (?ms[m := g (?ms ! m)]) ?pc = Granted"
    with v have "pp_step ?a (decide r (abs_verdict (?ms[m := g (?ms ! m)]) ?pc) ?a)"
      using pp_step.wake [OF k(2), of c] c lock k r by (simp add: abs_call_def)
    with new show ?thesis by (simp add: decide_def)
  qed
qed

lemma own_mutex_stutters:
  assumes ok: "waits_ok s" and r: "r < length (handlers s)" "k = handlers s ! r" "h = hd_host k"
    and w: "waits_on (hd_pc k) = Some m"
    and v: "abs_verdict (mutexes (upd_mutex m g (servers s h))) pc' =
      abs_verdict (mutexes (servers s h)) (hd_pc k)"
  shows "abs_sys resolve (set_server h (upd_mutex m g (servers s h))
      (s\<lparr>handlers := (handlers s)[r := k\<lparr>hd_pc := pc'\<rparr>]\<rparr>)) = abs_sys resolve s"
proof -
  let ?srvs = "(servers s)(h := upd_mutex m g (servers s h))"
  have "map (abs_call ?srvs) ((handlers s)[r := k\<lparr>hd_pc := pc'\<rparr>]) = map (abs_call (servers s)) (handlers s)"
  proof (rule nth_equalityI)
    fix i
    assume "i < length (map (abs_call ?srvs) ((handlers s)[r := k\<lparr>hd_pc := pc'\<rparr>]))"
    then have i: "i < length (handlers s)" by simp
    show "map (abs_call ?srvs) ((handlers s)[r := k\<lparr>hd_pc := pc'\<rparr>]) ! i =
        map (abs_call (servers s)) (handlers s) ! i"
    proof (cases "i = r")
      case True
      with i r v show ?thesis by (simp add: abs_call_def)
    next
      case False
      with ok i r w have "\<not> (hd_host (handlers s ! i) = h \<and> waits_on (hd_pc (handlers s ! i)) = Some m)"
        unfolding waits_ok_def by metis
      with False i show ?thesis by (simp add: abs_call_other)
    qed
  qed simp
  then show ?thesis
    by (auto simp: abs_sys_def set_server_def fun_eq_iff intro!: abs_phase_cong)
qed


section \<open>Every detailed step is an abstract step or none\<close>

lemma find_refines:
  "find_lockvar n b (servers s h) = (p, srv) \<Longrightarrow>
     abs_sys resolve (set_server h srv s) = abs_sys resolve s"
  using abs_same_table [of "snd (find_lockvar n b (servers s h))" s h resolve] lvar_find
    find_simps by (metis snd_conv)

lemma pp_phase_same [simp]: "phase a c = x \<Longrightarrow> a\<lparr>phase := (phase a)(c := x)\<rparr> = a"
  by auto

lemma client_at:
  assumes "ptrs_ok s" and "client_ptr (cl_pc (clients s c)) = Some p"
    and "h = cl_host (clients s c)" and "n = cl_number (clients s c)"
  shows "table_ok (servers s h)" and "ptr_ok (servers s h) p n"
    and "lockvar_list (servers s h) ! p = lvar (servers s h) n"
  using assms lvar_ptr by (auto simp: ptrs_ok_def)

lemma handler_at:
  assumes "ptrs_ok s" and "r < length (handlers s)"
    and "handler_ptr (hd_pc (handlers s ! r)) = Some p"
    and "h = hd_host (handlers s ! r)" and "n = pack_lock_number (hd_pack (handlers s ! r))"
  shows "table_ok (servers s h)" and "ptr_ok (servers s h) p n"
    and "lockvar_list (servers s h) ! p = lvar (servers s h) n"
  using assms lvar_ptr by (auto simp: ptrs_ok_def)

lemma reached_Suc:
  "i < length (nodes srv) \<Longrightarrow> resolve (nodes srv ! i) = Some d \<Longrightarrow>
     reached resolve srv (Suc i) = insert d (reached resolve srv i)"
  by (auto simp: reached_def take_Suc_conv_app_nth)

lemma reached_0 [simp]: "reached resolve srv 0 = {}"
  by (simp add: reached_def)

lemma reached_all: "length (nodes srv) \<le> i \<Longrightarrow> reached resolve srv i = reached resolve srv (length (nodes srv))"
  by (simp add: reached_def)

lemma connected_reached:
  "connected resolve s \<Longrightarrow> h \<in> set (cluster s) \<Longrightarrow>
     set (cluster s) - {h} \<subseteq> reached resolve (servers s h) (length (nodes (servers s h)))"
  by (auto simp: connected_def reached_def)

lemma acquire_refines:
  assumes ok: "sys_ok resolve s"
    and pc: "cl_pc (clients s c) = Acquiring pc"
    and step: "client_step einval resolve c s = Some t"
  shows "abs_sys resolve t = abs_sys resolve s \<or> pp_step (abs_sys resolve s) (abs_sys resolve t) \<or>
     wraps_seqno (Client c) s \<and> pp_fault (abs_sys resolve s) (abs_sys resolve t)"
proof -
  let ?a = "abs_sys resolve s" and ?h = "cl_host (clients s c)" and ?n = "cl_number (clients s c)"
  have ptrs: "ptrs_ok s" and conn: "connected resolve s" and al: "alive s"
    using ok by (simp_all add: sys_ok_def)
  note at = client_at [OF ptrs _ refl refl]
  show ?thesis
  proof (cases pc)
    case AQ_find
    obtain p srv where f: "find_lockvar ?n True (servers s ?h) = (Some p, srv)"
      using find_lockvar_create [of ?n "servers s ?h"] by (metis prod.collapse)
    with step pc AQ_find have "t = set_pc c (Acquiring (AQ_lock p)) (set_server ?h srv s)"
      by (simp add: client_step_def Let_def)
    then show ?thesis
      using pc AQ_find find_refines [OF f] abs_proj(8) [of resolve s c]
      by (simp add: abs_set_pc)
  next
    case (AQ_lock p)
    have p: "client_ptr (cl_pc (clients s c)) = Some p" using pc AQ_lock by simp
    let ?f = "\<lambda>v. v\<lparr>LockVar.lock := (LockVar.lock v)\<lparr>mx_locked := True\<rparr>\<rparr>"
    from al have "\<not> mx_destroyed (LockVar.lock (lvar (servers s ?h) ?n))" by (simp add: alive_def)
    with step pc AQ_lock at [OF p] have free: "\<not> mx_locked (LockVar.lock (lvar (servers s ?h) ?n))"
      and t: "t = set_pc c (Acquiring (AQ_cs p)) (set_server ?h (upd_lockvar p ?f (servers s ?h)) s)"
      by (auto simp: client_step_def Let_def pthread_mutex_lock_def upd_lockvar_def split: if_splits)
    have "abs_sys resolve t = ?a\<lparr>held := (held ?a)((?h, ?n) := True), phase := (phase ?a)(c := P_flag ?n)\<rparr>"
      using at [OF p] by (simp add: t abs_set_pc abs_upd_lockvar abs_proj)
    then show ?thesis
      using pp_step.lock [of ?a c ?n] pc AQ_lock free by (simp add: abs_proj)
  next
    case (AQ_cs p)
    have p: "client_ptr (cl_pc (clients s c)) = Some p" using pc AQ_cs by simp
    have t: "t = set_pc c (Acquiring (AQ_seq p))
        (set_server ?h (upd_lockvar p (\<lambda>v. v\<lparr>requesting_cs := True\<rparr>) (servers s ?h)) s)"
      using step pc AQ_cs by (simp add: client_step_def Let_def)
    have "abs_sys resolve t = ?a\<lparr>req := (req ?a)((?h, ?n) := True), phase := (phase ?a)(c := P_number ?n)\<rparr>"
      using at [OF p] by (simp add: t abs_set_pc abs_upd_lockvar abs_proj)
    then show ?thesis
      using pp_step.raise [of ?a c ?n] pc AQ_cs by (simp add: abs_proj)
  next
    case (AQ_seq p)
    have p: "client_ptr (cl_pc (clients s c)) = Some p" using pc AQ_seq by simp
    let ?x = "c_int (highestseqno (lvar (servers s ?h) ?n) + 1)"
    have t: "t = set_pc c (Acquiring (AQ_store p ?x)) s"
      using step pc AQ_seq at [OF p] by (simp add: client_step_def Let_def set_server_def)
    have ph: "phase ?a c = P_number ?n" using pc AQ_seq by (simp add: abs_proj)
    have t': "abs_sys resolve t = ?a\<lparr>phase := (phase ?a)(c := P_store ?n ?x)\<rparr>"
      by (simp add: t abs_set_pc)
    show ?thesis
    proof (cases "?x = highestseqno (lvar (servers s ?h) ?n) + 1")
      case True
      then have "pp_step ?a (abs_sys resolve t)"
        using pp_step.number [OF ph] by (simp add: t' abs_proj)
      then show ?thesis by simp
    next
      case False
      then have "wraps_seqno (Client c) s" using pc AQ_seq at [OF p] by (simp add: wraps_seqno_def Let_def)
      then show ?thesis using pp_fault.wrap [OF ph] by (simp add: t')
    qed
  next
    case (AQ_store p x)
    have p: "client_ptr (cl_pc (clients s c)) = Some p" using pc AQ_store by simp
    have t: "t = set_pc c (Acquiring (AQ_loop p 0))
        (set_server ?h (upd_lockvar p (\<lambda>v. v\<lparr>myseqno := x\<rparr>) (servers s ?h)) s)"
      using step pc AQ_store by (simp add: client_step_def Let_def)
    have "abs_sys resolve t = ?a\<lparr>seq := (seq ?a)((?h, ?n) := x), phase := (phase ?a)(c := P_collect ?n {})\<rparr>"
      using at [OF p] by (simp add: t abs_set_pc abs_upd_lockvar abs_proj)
    then show ?thesis
      using pp_step.store [of ?a c ?n x] pc AQ_store by (simp add: abs_proj)
  next
    case (AQ_loop p i)
    have p: "client_ptr (cl_pc (clients s c)) = Some p" using pc AQ_loop by simp
    let ?G = "reached resolve (servers s ?h) i"
    have ph: "phase ?a c = P_collect ?n ?G" using pc AQ_loop by (simp add: abs_proj)
    show ?thesis
    proof (cases "i < length (nodes (servers s ?h))")
      case False
      with step pc AQ_loop have t: "t = set_pc c (Acquiring AQ_return) s"
        by (simp add: client_step_def Let_def set_server_def)
      from False have G: "?G = reached resolve (servers s ?h) (length (nodes (servers s ?h)))"
        by (intro reached_all) simp
      have "?h \<in> set (cluster s)" using conn by (simp add: connected_def)
      with conn have "peers ?a - {home ?a c} \<subseteq> ?G"
        unfolding G abs_proj by (rule connected_reached)
      then have "pp_step ?a (?a\<lparr>phase := (phase ?a)(c := P_cs ?n ?G)\<rparr>)"
        using ph by (rule pp_step.enter [rotated])
      then show ?thesis using G by (simp add: t abs_set_pc)
    next
      case True
      let ?k = "\<lparr>pack_lock_number = ?n, pack_seqno = myseqno (lvar (servers s ?h) ?n),
          pack_mac = mac (servers s ?h)\<rparr>"
      show ?thesis
      proof (cases "resolve (nodes (servers s ?h) ! i)")
        case None
        with step pc AQ_loop True show ?thesis
          by (auto simp: client_step_def Let_def abs_set_exited)
      next
        case (Some d)
        show ?thesis
        proof (cases "exited s d")
          case True
          with Some step pc AQ_loop \<open>i < length (nodes (servers s ?h))\<close> show ?thesis
            by (auto simp: client_step_def Let_def abs_set_exited)
        next
        case False
        with Some step pc AQ_loop True at [OF p]
        have t: "t = set_pc c (Awaiting (AQ_loop p (Suc i)) (length (handlers s)))
            (s\<lparr>handlers := handlers s @ [\<lparr>hd_host = d, hd_pack = ?k, hd_pc = RQ_find\<rparr>]\<rparr>)"
          by (simp add: client_step_def Let_def)
        have "abs_sys resolve t = ?a\<lparr>phase := (phase ?a)(c := P_await ?n ?G (length (calls ?a))),
            calls := calls ?a @ [\<lparr>call_at = d, call_lock = ?n, call_seq = seq ?a (home ?a c, ?n),
                              call_mac = hmac ?a (home ?a c), verdict = Arrived\<rparr>]\<rparr>"
          unfolding t abs_set_pc by (simp add: abs_sys_def abs_call_def)
        then show ?thesis using pp_step.send [OF ph, of d] by simp
        qed
      qed
    qed
  next
    case AQ_return
    with step pc have "t = set_pc c Holding s" by (simp add: client_step_def Let_def)
    then show ?thesis using pc AQ_return by (simp add: abs_set_pc abs_proj)
  qed
qed

lemma await_refines:
  assumes ok: "sys_ok resolve s" and pc: "cl_pc (clients s c) = Awaiting pc r"
    and step: "client_step einval resolve c s = Some t"
  shows "pp_step (abs_sys resolve s) (abs_sys resolve t)"
proof -
  let ?a = "abs_sys resolve s" and ?h = "cl_host (clients s c)" and ?n = "cl_number (clients s c)"
  have "calls_ok resolve s" using ok by (simp add: sys_ok_def)
  then obtain p i where r: "r < length (handlers s)" and l: "pc = AQ_loop p (Suc i)"
    and i: "i < length (nodes (servers s ?h))"
      "resolve (nodes (servers s ?h) ! i) = Some (hd_host (handlers s ! r))"
    using pc unfolding calls_ok_def by blast
  have d: "hd_pc (handlers s ! r) = RQ_return" and t: "t = set_pc c (Acquiring pc) s"
    using step pc by (auto simp: client_step_def Let_def split: if_splits)
  have ph: "phase ?a c = P_await ?n (reached resolve (servers s ?h) i) r"
    using pc l by (simp add: abs_proj)
  have "abs_sys resolve t = ?a\<lparr>phase := (phase ?a)(c :=
      P_collect ?n (insert (call_at (calls ?a ! r)) (reached resolve (servers s ?h) i)))\<rparr>"
    using r i l by (simp add: t abs_set_pc reached_Suc abs_proj abs_call_def)
  moreover have "verdict (calls ?a ! r) = Granted"
    using r d by (simp add: abs_proj abs_call_def)
  ultimately show ?thesis using pp_step.reply [OF ph] by simp
qed

lemma unreplied_refines:
  assumes ok: "sys_ok resolve s" and pc: "cl_pc (clients s c) = Awaiting pc r"
  shows "pp_fault (abs_sys resolve s) (abs_sys resolve (set_pc c (Acquiring pc) s))"
proof -
  let ?a = "abs_sys resolve s" and ?h = "cl_host (clients s c)" and ?n = "cl_number (clients s c)"
  have "calls_ok resolve s" using ok by (simp add: sys_ok_def)
  then obtain p i where r: "r < length (handlers s)" and l: "pc = AQ_loop p (Suc i)"
    and i: "i < length (nodes (servers s ?h))"
      "resolve (nodes (servers s ?h) ! i) = Some (hd_host (handlers s ! r))"
    using pc unfolding calls_ok_def by blast
  have ph: "phase ?a c = P_await ?n (reached resolve (servers s ?h) i) r"
    using pc l by (simp add: abs_proj)
  have "abs_sys resolve (set_pc c (Acquiring pc) s) = ?a\<lparr>phase := (phase ?a)(c :=
      P_collect ?n (insert (call_at (calls ?a ! r)) (reached resolve (servers s ?h) i)))\<rparr>"
    using r i l by (simp add: abs_set_pc reached_Suc abs_proj abs_call_def)
  then show ?thesis using pp_fault.unreplied [OF ph] by simp
qed

lemma set_pc_stutters:
  assumes "phase (abs_sys resolve s) c =
    abs_phase resolve (servers s (cl_host (clients s c))) (cl_number (clients s c)) pc"
  shows "abs_sys resolve (set_pc c pc s) = abs_sys resolve s"
  using assms by (simp add: abs_set_pc)

lemma release_refines:
  assumes ok: "sys_ok resolve s" and pc: "cl_pc (clients s c) = Releasing pc"
    and step: "client_step einval resolve c s = Some t"
  shows "abs_sys resolve t = abs_sys resolve s \<or> pp_step (abs_sys resolve s) (abs_sys resolve t)"
proof -
  let ?a = "abs_sys resolve s" and ?h = "cl_host (clients s c)" and ?n = "cl_number (clients s c)"
  have ptrs: "ptrs_ok s" and waits: "waits_ok s" and destr: "destroy_ok s"
    using ok by (simp_all add: sys_ok_def)
  note at = client_at [OF ptrs _ refl refl]
  show ?thesis
  proof (cases pc)
    case RL_find
    obtain x srv where f: "find_lockvar ?n False (servers s ?h) = (x, srv)" by force
    have ph: "phase ?a c = P_release ?n" using pc RL_find by (simp add: abs_proj)
    show ?thesis
    proof (cases x)
      case None
      with step pc RL_find f show ?thesis
        by (auto simp: client_step_def Let_def abs_set_exited)
    next
      case (Some p)
      with step pc RL_find f have "t = set_pc c (Releasing (RL_loop p 0)) (set_server ?h srv s)"
        by (simp add: client_step_def Let_def)
      then show ?thesis using find_refines [OF f] ph by (simp add: abs_set_pc)
    qed
  next
    case (RL_loop p i)
    have p: "client_ptr (cl_pc (clients s c)) = Some p" using pc RL_loop by simp
    have ph: "phase ?a c = P_release ?n" using pc RL_loop by (simp add: abs_proj)
    let ?d = "deffered (lvar (servers s ?h) ?n)"
    show ?thesis
    proof (cases "i < length ?d")
      case True
      with step pc RL_loop at [OF p] have t: "t = set_pc c (Releasing (RL_destroy p i))
          (set_server ?h (upd_mutex (?d ! i) pthread_mutex_unlock (servers s ?h)) s)"
        by (simp add: client_step_def Let_def)
      from True have mem: "?d ! i \<in> set ?d" by simp
      with ph have "abs_sys resolve t = abs_sys resolve
          (set_server ?h (upd_mutex (?d ! i) pthread_mutex_unlock (servers s ?h)) s)"
        unfolding t by (intro set_pc_stutters) (simp_all add: abs_upd_mutex)
      with release_mutex_refines [OF waits mem ph, of pthread_mutex_unlock] show ?thesis
        by (simp add: abs_proj)
    next
      case False
      with step pc RL_loop at [OF p] have t: "t = set_pc c (Releasing (RL_reset p)) s"
        by (simp add: client_step_def Let_def set_server_def)
      then show ?thesis using ph by (simp add: abs_set_pc)
    qed
  next
    case (RL_destroy p i)
    have p: "client_ptr (cl_pc (clients s c)) = Some p" using pc RL_destroy by simp
    have ph: "phase ?a c = P_release ?n" using pc RL_destroy by (simp add: abs_proj)
    let ?d = "deffered (lvar (servers s ?h) ?n)"
    have t: "t = set_pc c (Releasing (RL_loop p (Suc i)))
          (set_server ?h (upd_mutex (?d ! i) pthread_mutex_destroy (servers s ?h)) s)"
      using step pc RL_destroy at [OF p] by (simp add: client_step_def Let_def)
    have mem: "?d ! i \<in> set ?d" using destr pc RL_destroy by (auto simp: destroy_ok_def)
      with ph have "abs_sys resolve t = abs_sys resolve
          (set_server ?h (upd_mutex (?d ! i) pthread_mutex_destroy (servers s ?h)) s)"
        unfolding t by (intro set_pc_stutters) (simp_all add: abs_upd_mutex)
      with release_mutex_refines [OF waits mem ph, of pthread_mutex_destroy] show ?thesis
        by (simp add: abs_proj)
  next
    case (RL_reset p)
    have p: "client_ptr (cl_pc (clients s c)) = Some p" using pc RL_reset by simp
    have ph: "phase ?a c = P_release ?n" using pc RL_reset by (simp add: abs_proj)
    have t: "t = set_pc c (Releasing (RL_unlock p))
        (set_server ?h (upd_lockvar p (\<lambda>v. v\<lparr>deffered := []\<rparr>) (servers s ?h)) s)"
      using step pc RL_reset by (simp add: client_step_def Let_def)
    have "abs_sys resolve t = ?a"
      using at [OF p] ph by (simp add: t abs_set_pc abs_upd_lockvar abs_proj)
    then show ?thesis ..
  next
    case (RL_unlock p)
    have p: "client_ptr (cl_pc (clients s c)) = Some p" using pc RL_unlock by simp
    have t: "t = set_pc c (Releasing RL_return) (set_server ?h
        (upd_lockvar p (\<lambda>v. v\<lparr>LockVar.lock := pthread_mutex_unlock (LockVar.lock v)\<rparr>) (servers s ?h)) s)"
      using step pc RL_unlock by (simp add: client_step_def Let_def)
    have "abs_sys resolve t = ?a\<lparr>held := (held ?a)((?h, ?n) := False), phase := (phase ?a)(c := P_idle)\<rparr>"
      using at [OF p] by (simp add: t abs_set_pc abs_upd_lockvar abs_proj pthread_mutex_unlock_def)
    then show ?thesis
      using pp_step.unlock [of ?a c ?n] pc RL_unlock by (simp add: abs_proj)
  next
    case RL_return
    with step pc have "t = set_pc c Idle s" by (simp add: client_step_def Let_def)
    then show ?thesis using pc RL_return by (simp add: abs_set_pc abs_proj)
  qed
qed


lemma abs_set_handler_pc:
  assumes "r < length (handlers s)" and "k = handlers s ! r"
  shows "abs_sys resolve (s\<lparr>handlers := (handlers s)[r := k\<lparr>hd_pc := pc\<rparr>]\<rparr>) =
     (abs_sys resolve s)\<lparr>calls := (calls (abs_sys resolve s))[r :=
        (calls (abs_sys resolve s) ! r)\<lparr>verdict :=
          abs_verdict (mutexes (servers s (hd_host k))) pc\<rparr>]\<rparr>"
  using assms by (simp add: abs_set_handler abs_proj abs_call_def)

lemma handler_stutters:
  assumes "r < length (handlers s)" and "k = handlers s ! r"
    and "abs_verdict (mutexes (servers s (hd_host k))) pc =
      abs_verdict (mutexes (servers s (hd_host k))) (hd_pc k)"
  shows "abs_sys resolve (s\<lparr>handlers := (handlers s)[r := k\<lparr>hd_pc := pc\<rparr>]\<rparr>) = abs_sys resolve s"
proof -
  have "abs_call (servers s) (k\<lparr>hd_pc := pc\<rparr>) = abs_call (servers s) k"
    using assms(3) by (simp add: abs_call_def)
  then have "(calls (abs_sys resolve s))[r := abs_call (servers s) (k\<lparr>hd_pc := pc\<rparr>)] =
      calls (abs_sys resolve s)"
    using assms(1,2) by (simp add: abs_proj list_update_same_conv)
  then show ?thesis by (simp add: abs_set_handler)
qed

lemma append_stutters:
  assumes ok: "ptrs_ok s" "waits_ok s" and r: "r < length (handlers s)" "k = handlers s ! r"
    and pc: "hd_pc k = RQ_append p"
    and m: "m = length (mutexes (servers s (hd_host k)))"
    and srv: "srv = (servers s (hd_host k))\<lparr>mutexes :=
      mutexes (servers s (hd_host k)) @ [pthread_mutex_init]\<rparr>"
  shows "abs_sys resolve (set_server (hd_host k)
      (upd_lockvar p (\<lambda>v. v\<lparr>deffered := deffered v @ [m]\<rparr>) srv)
      (s\<lparr>handlers := (handlers s)[r := k\<lparr>hd_pc := RQ_lock1 m\<rparr>]\<rparr>)) = abs_sys resolve s"
proof -
  let ?h = "hd_host k" and ?n = "pack_lock_number (hd_pack k)"
  let ?srv = "upd_lockvar p (\<lambda>v. v\<lparr>deffered := deffered v @ [m]\<rparr>) srv"
  have at: "table_ok srv" "ptr_ok srv p ?n"
    using handler_at [OF ok(1) r(1), of p, OF _ refl refl] pc r(2)
    by (simp_all add: srv table_ok_def ptr_ok_def)
  have lv: "lvar ?srv = (lvar (servers s ?h))(?n :=
      (lvar (servers s ?h) ?n)\<lparr>deffered := deffered (lvar (servers s ?h) ?n) @ [m]\<rparr>)"
    using lvar_upd [OF at, of "\<lambda>v. v\<lparr>deffered := deffered v @ [m]\<rparr>"] by (simp add: srv)
  have "map (abs_call ((servers s)(?h := ?srv))) ((handlers s)[r := k\<lparr>hd_pc := RQ_lock1 m\<rparr>]) =
      map (abs_call (servers s)) (handlers s)"
  proof (rule nth_equalityI)
    fix i
    assume "i < length (map (abs_call ((servers s)(?h := ?srv)))
        ((handlers s)[r := k\<lparr>hd_pc := RQ_lock1 m\<rparr>]))"
    then have i: "i < length (handlers s)" by simp
    have "abs_verdict (mutexes ?srv) (hd_pc (handlers s ! i)) =
        abs_verdict (mutexes (servers s ?h)) (hd_pc (handlers s ! i))"
      if "hd_host (handlers s ! i) = ?h"
    proof -
      have "m' < length (mutexes (servers s ?h))" if "waits_on (hd_pc (handlers s ! i)) = Some m'" for m'
        using ok(2) i that \<open>hd_host (handlers s ! i) = ?h\<close> unfolding waits_ok_def by metis
      then show ?thesis
        by (cases "hd_pc (handlers s ! i)") (simp_all add: srv nth_append)
    qed
    then have other: "abs_call ((servers s)(?h := ?srv)) (handlers s ! i) =
        abs_call (servers s) (handlers s ! i)"
      by (simp add: abs_call_def)
    have "mutexes ?srv ! m = pthread_mutex_init" by (simp add: srv m)
    then have "abs_call ((servers s)(?h := ?srv)) (k\<lparr>hd_pc := RQ_lock1 m\<rparr>) = abs_call (servers s) k"
      using pc by (simp add: abs_call_def pthread_mutex_init_def)
    with other show "map (abs_call ((servers s)(?h := ?srv)))
        ((handlers s)[r := k\<lparr>hd_pc := RQ_lock1 m\<rparr>]) ! i =
        map (abs_call (servers s)) (handlers s) ! i"
      using i r by (cases "i = r") simp_all
  qed simp
  moreover have "LockVar.lock (lvar ?srv j) = LockVar.lock (lvar (servers s ?h) j)"
    "requesting_cs (lvar ?srv j) = requesting_cs (lvar (servers s ?h) j)"
    "myseqno (lvar ?srv j) = myseqno (lvar (servers s ?h) j)"
    "highestseqno (lvar ?srv j) = highestseqno (lvar (servers s ?h) j)" for j
    by (simp_all add: lv)
  moreover have "nodes ?srv = nodes (servers s ?h)" and "mac ?srv = mac (servers s ?h)"
    by (simp_all add: srv)
  ultimately show ?thesis
    by (auto simp: abs_sys_def set_server_def fun_eq_iff intro!: abs_phase_cong)
qed

lemma handler_refines:
  assumes ok: "sys_ok resolve s" and r: "r < length (handlers s)"
    and step: "handler_step einval r s = Some t"
  shows "abs_sys resolve t = abs_sys resolve s \<or> pp_step (abs_sys resolve s) (abs_sys resolve t) \<or>
     loses_update (Handler r) s \<and> pp_fault (abs_sys resolve s) (abs_sys resolve t)"
proof -
  let ?a = "abs_sys resolve s" and ?k = "handlers s ! r"
  let ?h = "hd_host ?k" and ?n = "pack_lock_number (hd_pack ?k)"
  let ?ms = "mutexes (servers s ?h)" and ?c = "calls (abs_sys resolve s) ! r"
  have ptrs: "ptrs_ok s" and waits: "waits_ok s" using ok by (simp_all add: sys_ok_def)
  note at = handler_at [OF ptrs r _ refl refl]
  have c: "r < length (calls ?a)" "?c = abs_call (servers s) ?k" using r by (simp_all add: abs_proj)
  have bound: "m < length ?ms" if "waits_on (hd_pc ?k) = Some m" for m
    using that waits r unfolding waits_ok_def by blast
  have same: "set_server ?h (servers s ?h) u = u" if "servers u = servers s" for u
    using that by (metis fun_upd_triv set_server_def sys.surjective sys.update_convs(2))
  have decided: "abs_sys resolve (s\<lparr>handlers := (handlers s)[r := ?k\<lparr>hd_pc := pc\<rparr>]\<rparr>) =
      decide r (abs_verdict ?ms pc) ?a" for pc
    by (simp add: abs_set_handler_pc [OF r refl] decide_def)
  show ?thesis
  proof (cases "hd_pc ?k")
    case RQ_find
    obtain p srv where f: "find_lockvar ?n True (servers s ?h) = (Some p, srv)"
      using find_lockvar_create [of ?n "servers s ?h"] by (metis prod.collapse)
    with step RQ_find have t: "t = set_server ?h srv (s\<lparr>handlers := (handlers s)[r := ?k\<lparr>hd_pc := RQ_highest p\<rparr>]\<rparr>)"
      by (simp add: handler_step_def Let_def)
    show ?thesis
      using find_refines [of ?n True "s\<lparr>handlers := (handlers s)[r := ?k\<lparr>hd_pc := RQ_highest p\<rparr>]\<rparr>" ?h]
        handler_stutters [OF r refl, of "RQ_highest p"] f RQ_find by (simp add: t)
  next
    case (RQ_highest p)
    let ?x = "max (pack_seqno (hd_pack ?k)) (highestseqno (lvar (servers s ?h) ?n))"
    have t: "t = s\<lparr>handlers := (handlers s)[r := ?k\<lparr>hd_pc := RQ_store p ?x\<rparr>]\<rparr>"
      using step RQ_highest at [of p] by (simp add: handler_step_def Let_def same)
    have v: "verdict ?c = Arrived" using RQ_highest by (simp add: c(2) abs_call_def)
    have "?x = max (call_seq ?c) (high ?a (spot ?c))" by (simp add: c(2) abs_call_def spot_def abs_proj(7))
    from pp_step.look [OF c(1) v this] show ?thesis by (simp add: t decided)
  next
    case (RQ_store p x)
    let ?s = "s\<lparr>handlers := (handlers s)[r := ?k\<lparr>hd_pc := RQ_cs p\<rparr>]\<rparr>"
    let ?f = "\<lambda>v. v\<lparr>highestseqno := x\<rparr>"
    have sp: "spot ?c = (?h, ?n)" by (simp add: c(2) abs_call_def spot_def)
    have t: "t = set_server ?h (upd_lockvar p ?f (servers ?s ?h)) ?s"
      using step RQ_store by (simp add: handler_step_def Let_def)
    have t': "abs_sys resolve t = decide r Noted (?a\<lparr>high := (high ?a)(spot ?c := x)\<rparr>)"
      unfolding t using at [of p] RQ_store abs_upd_lockvar [of ?s ?h p ?n ?f resolve]
      by (simp add: decided sp decide_def abs_proj(4-6))
    have v: "verdict ?c = Loaded x" using RQ_store by (simp add: c(2) abs_call_def)
    have h: "high ?a (spot ?c) = highestseqno (lvar (servers s ?h) ?n)" by (simp add: sp abs_proj(7))
    show ?thesis
    proof (cases "high ?a (spot ?c) \<le> x")
      case True
      then show ?thesis using pp_step.noted [OF c(1) v] by (simp add: t')
    next
      case False
      then have "loses_update (Handler r) s" using RQ_store r at [of p] h by (simp add: loses_update_def)
      then show ?thesis using pp_fault.lose [OF c(1) v] by (simp add: t')
    qed
  next
    case (RQ_cs p)
    have v: "verdict ?c = Noted" using RQ_cs by (simp add: c(2) abs_call_def)
    have q: "req ?a (spot ?c) = requesting_cs (lockvar_list (servers s ?h) ! p)"
      using at [of p] RQ_cs by (simp add: c(2) abs_call_def spot_def abs_proj(5))
    show ?thesis
      using pp_step.free [OF c(1) v] pp_step.rival [OF c(1) v] step RQ_cs q
      by (auto simp: handler_step_def Let_def same decided split: if_splits)
  next
    case (RQ_later p)
    have v: "verdict ?c = Rival" using RQ_later by (simp add: c(2) abs_call_def)
    have q: "seq ?a (spot ?c) = myseqno (lockvar_list (servers s ?h) ! p)" "call_seq ?c = pack_seqno (hd_pack ?k)"
      using at [of p] RQ_later by (simp_all add: c(2) abs_call_def spot_def abs_proj(6))
    show ?thesis
      using pp_step.later [OF c(1) v] pp_step.near [OF c(1) v] step RQ_later q
      by (auto simp: handler_step_def Let_def same decided split: if_splits)
  next
    case (RQ_tie p)
    have v: "verdict ?c = Close" using RQ_tie by (simp add: c(2) abs_call_def)
    have q: "tied ?a ?c \<longleftrightarrow> pack_seqno (hd_pack ?k) = myseqno (lockvar_list (servers s ?h) ! p) \<and>
        pack_mac (hd_pack ?k) > mac (servers s ?h)"
      using at [of p] RQ_tie by (simp add: c(2) abs_call_def spot_def abs_proj(2,6) tied_def)
    show ?thesis
      using pp_step.tie [OF c(1) v] pp_step.grant [OF c(1) v] step RQ_tie q
      by (auto simp: handler_step_def Let_def same decided split: if_splits)
  next
    case (RQ_append p)
    with step show ?thesis
      using append_stutters [OF ptrs waits r refl RQ_append refl refl]
      by (simp add: handler_step_def Let_def)
  next
    case (RQ_lock1 m)
    have w: "waits_on (hd_pc ?k) = Some m" "m < length ?ms"
      using RQ_lock1 bound [of m] by simp_all
    show ?thesis
    proof (cases "pthread_mutex_lock einval (?ms ! m)")
      case (Acquired x)
      with step RQ_lock1 have t: "t = set_server ?h (upd_mutex m (\<lambda>_. x) (servers s ?h))
          (s\<lparr>handlers := (handlers s)[r := ?k\<lparr>hd_pc := RQ_lock2 m\<rparr>]\<rparr>)"
        by (simp add: handler_step_def Let_def)
      show ?thesis unfolding t
        by (rule disjI1, rule own_mutex_stutters [OF waits r refl refl w(1)])
          (use Acquired RQ_lock1 w(2) in \<open>auto simp: upd_mutex_def pthread_defs split: if_splits\<close>)
    next
      case Refused
      with step RQ_lock1 have t: "t = s\<lparr>handlers := (handlers s)[r := ?k\<lparr>hd_pc := RQ_lock2 m\<rparr>]\<rparr>"
        by (simp add: handler_step_def Let_def same)
      show ?thesis unfolding t
        by (rule disjI1, rule handler_stutters [OF r refl])
          (use Refused RQ_lock1 in \<open>auto simp: pthread_defs split: if_splits\<close>)
    next
      case Asleep
      with step RQ_lock1 show ?thesis by (simp add: handler_step_def Let_def)
    qed
  next
    case (RQ_lock2 m)
    have w: "waits_on (hd_pc ?k) = Some m" "m < length ?ms"
      using RQ_lock2 bound [of m] by simp_all
    show ?thesis
    proof (cases "pthread_mutex_lock einval (?ms ! m)")
      case (Acquired x)
      with step RQ_lock2 have t: "t = set_server ?h (upd_mutex m (\<lambda>_. x) (servers s ?h))
          (s\<lparr>handlers := (handlers s)[r := ?k\<lparr>hd_pc := RQ_return\<rparr>]\<rparr>)"
        by (simp add: handler_step_def Let_def)
      show ?thesis unfolding t
        by (rule disjI1, rule own_mutex_stutters [OF waits r refl refl w(1)])
          (use Acquired RQ_lock2 w(2) in \<open>auto simp: upd_mutex_def pthread_defs split: if_splits\<close>)
    next
      case Refused
      with step RQ_lock2 have t: "t = s\<lparr>handlers := (handlers s)[r := ?k\<lparr>hd_pc := RQ_return\<rparr>]\<rparr>"
        by (simp add: handler_step_def Let_def same)
      show ?thesis unfolding t
        by (rule disjI1, rule handler_stutters [OF r refl])
          (use Refused RQ_lock2 in \<open>auto simp: pthread_defs split: if_splits\<close>)
    next
      case Asleep
      with step RQ_lock2 have t: "t = s\<lparr>handlers := (handlers s)[r := ?k\<lparr>hd_pc := RQ_blocked m\<rparr>]\<rparr>"
        and "\<not> mx_destroyed (?ms ! m)"
        by (auto simp: handler_step_def Let_def same split: if_splits)
      then show ?thesis unfolding t
        by (intro disjI1 handler_stutters [OF r refl]) (use RQ_lock2 in auto)
    qed
  next
    case (RQ_blocked m)
    have w: "waits_on (hd_pc ?k) = Some m" "m < length ?ms"
      using RQ_blocked bound [of m] by simp_all
    have free: "\<not> mx_locked (?ms ! m)"
      and t: "t = set_server ?h (upd_mutex m (\<lambda>x. x\<lparr>mx_locked := True\<rparr>) (servers s ?h))
          (s\<lparr>handlers := (handlers s)[r := ?k\<lparr>hd_pc := RQ_return\<rparr>]\<rparr>)"
      using step RQ_blocked by (auto simp: handler_step_def Let_def split: if_splits)
    show ?thesis unfolding t
      by (rule disjI1, rule own_mutex_stutters [OF waits r refl refl w(1)])
        (use free RQ_blocked in simp)
  next
    case RQ_return
    with step show ?thesis by (simp add: handler_step_def Let_def)
  qed
qed

end
