(* ===== verification/Lock_Invariant.thy ===== *)
theory Lock_Invariant
  imports Lock_Refinement
begin

text \<open>
  Every statement keeps the detailed invariant, whatever the network does and whatever the threads
  race for, and is a step of the protocol, a fault of it, or none. So the invariant holds in every
  run, and the ways a lock server can end are known: none but a connection that cannot be made.
\<close>

section \<open>Every detailed step keeps the detailed invariant\<close>

definition evolves :: "server \<Rightarrow> server \<Rightarrow> bool" where
  "evolves srv srv' \<longleftrightarrow> nodes srv' = nodes srv \<and> mac srv' = mac srv \<and> table_ok srv' \<and>
     (\<forall>p n. ptr_ok srv p n \<longrightarrow> ptr_ok srv' p n) \<and>
     (\<forall>n. mx_destroyed (lock (lvar srv' n)) = mx_destroyed (lock (lvar srv n))) \<and>
     length (mutexes srv) \<le> length (mutexes srv')"

lemma evolves_refl: "table_ok srv \<Longrightarrow> evolves srv srv"
  by (simp add: evolves_def)

lemma evolves_find: "table_ok srv \<Longrightarrow> evolves srv (snd (find_lockvar n b srv))"
  by (simp add: evolves_def table_ok_find ptr_ok_find lvar_find)

lemma evolves_upd:
  assumes "table_ok srv" and "ptr_ok srv p n" and "\<And>v. lock_number (f v) = lock_number v"
    and "mx_destroyed (lock (f (lockvar_list srv ! p))) = mx_destroyed (lock (lockvar_list srv ! p))"
  shows "evolves srv (upd_lockvar p f srv)"
  using assms lvar_upd [OF assms(1-3)] lvar_ptr [OF assms(1,2)]
  by (simp add: evolves_def table_ok_upd ptr_ok_upd)

lemma evolves_mutex: "table_ok srv \<Longrightarrow> evolves srv (upd_mutex m g srv)"
  by (simp add: evolves_def table_ok_def ptr_ok_def)

lemma acquire_go:
  assumes "table_ok srv" and "\<forall>p. client_ptr (Acquiring pc) = Some p \<longrightarrow> ptr_ok srv p n"
    and "acquire_step einval n pc srv = Go pc' srv'"
  shows "evolves srv srv' \<and> (\<forall>p. client_ptr (Acquiring pc') = Some p \<longrightarrow> ptr_ok srv' p n) \<and>
     mutexes srv' = mutexes srv \<and> (\<forall>j. deffered (lvar srv' j) = deffered (lvar srv j))"
proof (cases pc)
  case AQ_find
  obtain p where p: "fst (find_lockvar n True srv) = Some p"
      "ptr_ok (snd (find_lockvar n True srv)) p n"
    using find_lockvar_create by blast
  with assms(3) AQ_find have "pc' = AQ_lock p" and "srv' = snd (find_lockvar n True srv)"
    by (auto split: prod.splits option.splits)
  with p assms(1) show ?thesis by (simp add: evolves_find lvar_find)
next
  case (AQ_lock p)
  with assms show ?thesis
    by (auto simp: pthread_mutex_lock_def lvar_upd ptr_ok_upd evolves_refl
        intro!: evolves_upd split: if_splits)
qed (use assms in \<open>auto simp: lvar_upd ptr_ok_upd evolves_refl intro!: evolves_upd split: if_splits\<close>)

lemma release_go:
  assumes "table_ok srv" and "\<forall>p. client_ptr (Releasing pc) = Some p \<longrightarrow> ptr_ok srv p n"
    and "release_step n pc srv = Go pc' srv'"
  shows "evolves srv srv'" and "\<And>p. client_ptr (Releasing pc') = Some p \<Longrightarrow> ptr_ok srv' p n"
    and "length (mutexes srv') = length (mutexes srv)"
    and "deffered (lvar srv' j) =
      (if j = n \<and> (\<exists>p. pc = RL_reset p) then [] else deffered (lvar srv j))"
    and "pc' = RL_destroy p i \<Longrightarrow> i < length (deffered (lvar srv n))"
proof -
  have f: "x = srv \<and> (\<forall>p. y = Some p \<longrightarrow> ptr_ok srv p n)"
    if "find_lockvar n False srv = (y, x)" for x y
    using that
    by (auto simp: find_lockvar_def ptr_ok_def dest: first_index_SomeD split: option.splits)
  show "evolves srv srv'" "length (mutexes srv') = length (mutexes srv)"
    "deffered (lvar srv' j) =
      (if j = n \<and> (\<exists>p. pc = RL_reset p) then [] else deffered (lvar srv j))"
    "pc' = RL_destroy p i \<Longrightarrow> i < length (deffered (lvar srv n))"
    using assms
    by (cases pc; auto dest!: f simp: Let_def lvar_upd lvar_ptr [symmetric] evolves_mutex
        evolves_refl pthread_defs intro!: evolves_upd split: if_splits prod.splits option.splits)+
  show "ptr_ok srv' p n" if "client_ptr (Releasing pc') = Some p" for p
    using assms that
    by (cases pc; auto dest!: f simp: Let_def ptr_ok_upd
        split: if_splits prod.splits option.splits)
qed

lemma request_go:
  assumes "table_ok srv" and "\<forall>p. handler_ptr pc = Some p \<longrightarrow> ptr_ok srv p (pack_lock_number pack)"
    and "request_step einval pack pc srv = Go pc' srv'"
  shows "evolves srv srv'"
    and "\<And>p. handler_ptr pc' = Some p \<Longrightarrow> ptr_ok srv' p (pack_lock_number pack)"
    and "deffered (lvar srv' j) = deffered (lvar srv j) @
      (if j = pack_lock_number pack \<and> (\<exists>p. pc = RQ_append p) then [length (mutexes srv)] else [])"
    and "waits_on pc' = Some m \<Longrightarrow> (if (\<exists>p. pc = RQ_append p) then m = length (mutexes srv)
      \<and> m < length (mutexes srv') else waits_on pc = Some m)"
proof -
  let ?n = "pack_lock_number pack"
  obtain q where q: "fst (find_lockvar ?n True srv) = Some q"
      "ptr_ok (snd (find_lockvar ?n True srv)) q ?n"
    using find_lockvar_create by blast
  have f: "x = Some q \<and> srv2 = snd (find_lockvar ?n True srv)"
    if "find_lockvar ?n True srv = (x, srv2)" for x srv2
    using that q by auto
  let ?g = "\<lambda>v. v\<lparr>deffered := deffered v @ [length (mutexes srv)]\<rparr>"
  let ?srv = "srv\<lparr>mutexes := mutexes srv @ [pthread_mutex_init]\<rparr>"
  have app: "evolves srv (upd_lockvar p ?g ?srv)" if "ptr_ok srv p ?n" for p
    using evolves_upd [of ?srv p ?n ?g] that assms(1) by (simp add: evolves_def)
  show "evolves srv srv'"
    using assms q
    by (cases pc; auto dest!: f simp: Let_def app evolves_refl evolves_mutex evolves_find
        intro!: evolves_upd split: if_splits prod.splits option.splits lock_attempt.splits)
  show "deffered (lvar srv' j) = deffered (lvar srv j) @
      (if j = ?n \<and> (\<exists>p. pc = RQ_append p) then [length (mutexes srv)] else [])"
    using assms q
    by (cases pc; auto dest!: f simp: Let_def lvar_upd lvar_find
        split: if_splits prod.splits option.splits lock_attempt.splits)
  show "ptr_ok srv' p ?n" if "handler_ptr pc' = Some p" for p
    using assms q that
    by (cases pc; auto dest!: f simp: Let_def ptr_ok_upd
        split: if_splits prod.splits option.splits lock_attempt.splits)
  show "waits_on pc' = Some m \<Longrightarrow> (if (\<exists>p. pc = RQ_append p) then m = length (mutexes srv)
      \<and> m < length (mutexes srv') else waits_on pc = Some m)"
    using assms q
    by (cases pc; auto dest!: f simp: Let_def
        split: if_splits prod.splits option.splits lock_attempt.splits)
qed


subsection \<open>Steps of the system\<close>

text \<open>What every step of the system leaves alone.\<close>

definition sys_grows :: "sys \<Rightarrow> sys \<Rightarrow> bool" where
  "sys_grows s t \<longleftrightarrow> cluster t = cluster s \<and> (\<forall>h. evolves (servers s h) (servers t h)) \<and>
     (\<forall>c. cl_host (clients t c) = cl_host (clients s c)) \<and>
     length (handlers s) \<le> length (handlers t) \<and>
     (\<forall>r < length (handlers s). hd_host (handlers t ! r) = hd_host (handlers s ! r) \<and>
        hd_pack (handlers t ! r) = hd_pack (handlers s ! r))"

lemma connected_grows: "sys_grows s t \<Longrightarrow> connected resolve s \<Longrightarrow> connected resolve t"
  by (simp add: sys_grows_def connected_def evolves_def)

lemma alive_grows: "sys_grows s t \<Longrightarrow> alive s \<Longrightarrow> alive t"
  by (simp add: sys_grows_def alive_def evolves_def)

lemma sys_grows_server:
  "ptrs_ok s \<Longrightarrow> evolves (servers s h) srv \<Longrightarrow> sys_grows s (set_pc c pc (set_server h srv s))"
  by (simp add: sys_grows_def ptrs_ok_def evolves_refl)

lemma ptrs_ok_set_pc:
  assumes "ptrs_ok s" and "\<And>p. client_ptr pc = Some p \<Longrightarrow>
    ptr_ok (servers s (cl_host (clients s c))) p (cl_number (clients s c))"
  shows "ptrs_ok (set_pc c pc s)"
  using assms by (simp add: ptrs_ok_def)

lemma ptrs_ok_set_server:
  assumes "ptrs_ok s" and "evolves (servers s h) srv"
  shows "ptrs_ok (set_server h srv s)"
  using assms by (auto simp: ptrs_ok_def evolves_def)

lemma ptrs_ok_set_handler:
  assumes ok: "ptrs_ok (set_server h srv s)" and r: "r < length (handlers s)"
    and k: "k = handlers s ! r" "h = hd_host k"
    and p: "\<And>p. handler_ptr pc = Some p \<Longrightarrow> ptr_ok srv p (pack_lock_number (hd_pack k))"
  shows "ptrs_ok (set_server h srv (s\<lparr>handlers := (handlers s)[r := k\<lparr>hd_pc := pc\<rparr>]\<rparr>))"
  using ok unfolding ptrs_ok_def
  by (elim conjE, intro conjI) (use r k p in \<open>auto simp: nth_list_update\<close>)

lemma calls_ok_frame:
  assumes "calls_ok resolve s" and "sys_grows s t"
    and "\<And>c pc r. cl_pc (clients t c) = Awaiting pc r \<Longrightarrow> cl_pc (clients s c) = Awaiting pc r"
  shows "calls_ok resolve t"
  unfolding calls_ok_def
proof (intro allI impI)
  fix c pc r
  assume "cl_pc (clients t c) = Awaiting pc r"
  then have s: "cl_pc (clients s c) = Awaiting pc r" by (rule assms(3))
  have same: "nodes (servers t h) = nodes (servers s h)" "cl_host (clients t c) = cl_host (clients s c)"
    for h using assms(2) by (simp_all add: sys_grows_def evolves_def)
  from s assms(1) have "r < length (handlers s)" unfolding calls_ok_def by blast
  with assms(2) have "r < length (handlers t)" "hd_host (handlers t ! r) = hd_host (handlers s ! r)"
    by (auto simp: sys_grows_def)
  with s assms(1) show "r < length (handlers t) \<and>
        (\<exists>p i. pc = AQ_loop p (Suc i) \<and> i < length (nodes (servers t (cl_host (clients t c)))) \<and>
           resolve (nodes (servers t (cl_host (clients t c))) ! i) = Some (hd_host (handlers t ! r)))"
    unfolding calls_ok_def same by simp
qed

lemma waits_ok_frame:
  assumes "waits_ok s" and "sys_grows s t"
    and "\<And>r m. r < length (handlers t) \<Longrightarrow> waits_on (hd_pc (handlers t ! r)) = Some m \<Longrightarrow>
      r < length (handlers s) \<and> waits_on (hd_pc (handlers s ! r)) = Some m"
    and "\<And>h n. set (deffered (lvar (servers t h) n)) \<subseteq> set (deffered (lvar (servers s h) n))"
  shows "waits_ok t"
proof -
  have len: "length (mutexes (servers s h)) \<le> length (mutexes (servers t h))" for h
    using assms(2) by (simp add: sys_grows_def evolves_def)
  have h: "hd_host (handlers t ! r) = hd_host (handlers s ! r)"
      "hd_pack (handlers t ! r) = hd_pack (handlers s ! r)" if "r < length (handlers s)" for r
    using assms(2) that by (simp_all add: sys_grows_def)
  show ?thesis
    unfolding waits_ok_def
  proof (intro conjI allI impI)
    fix r m assume "r < length (handlers t)" "waits_on (hd_pc (handlers t ! r)) = Some m"
    then show "m < length (mutexes (servers t (hd_host (handlers t ! r))))"
      using assms(1,3) h len unfolding waits_ok_def by (metis order_less_le_trans)
  next
    fix r m r' assume "r < length (handlers t)" "waits_on (hd_pc (handlers t ! r)) = Some m"
      "r' < length (handlers t)" "hd_host (handlers t ! r') = hd_host (handlers t ! r)"
      "waits_on (hd_pc (handlers t ! r')) = Some m"
    then show "r' = r" using assms(1,3) h unfolding waits_ok_def by metis
  next
    fix h' n m assume "m \<in> set (deffered (lvar (servers t h') n))"
    then show "m < length (mutexes (servers t h'))"
      using assms(1,4) len unfolding waits_ok_def by (metis order_less_le_trans subsetD)
  next
    fix h' n m r assume "m \<in> set (deffered (lvar (servers t h') n))" "r < length (handlers t)"
      "hd_host (handlers t ! r) = h'" "waits_on (hd_pc (handlers t ! r)) = Some m"
    then show "pack_lock_number (hd_pack (handlers t ! r)) = n"
      using assms(1,3,4) h unfolding waits_ok_def by (metis subsetD)
  qed
qed

lemma destroy_ok_frame:
  assumes "destroy_ok s" and "sys_grows s t"
    and "\<And>c p i. cl_pc (clients t c) = Releasing (RL_destroy p i) \<Longrightarrow>
      cl_pc (clients s c) = Releasing (RL_destroy p i) \<and> cl_number (clients t c) = cl_number (clients s c)"
    and "\<And>h n. length (deffered (lvar (servers s h) n)) \<le> length (deffered (lvar (servers t h) n))"
  shows "destroy_ok t"
  using assms unfolding destroy_ok_def sys_grows_def by (metis order_less_le_trans)

lemma sys_ok_client_go:
  assumes ok: "sys_ok resolve s" and h: "h = cl_host (clients s c)"
    and ev: "evolves (servers s h) srv"
    and ptr: "\<And>p. client_ptr pc = Some p \<Longrightarrow> ptr_ok srv p (cl_number (clients s c))"
    and pc: "\<And>a r. pc \<noteq> Awaiting a r"
    and def: "\<And>j. set (deffered (lvar srv j)) \<subseteq> set (deffered (lvar (servers s h) j))"
    and destr: "destroy_ok (set_pc c pc (set_server h srv s))"
  shows "sys_ok resolve (set_pc c pc (set_server h srv s))"
proof -
  let ?t = "set_pc c pc (set_server h srv s)"
  have parts: "connected resolve s" "ptrs_ok s" "alive s" "calls_ok resolve s" "waits_ok s"
    using ok by (simp_all add: sys_ok_def)
  have grows: "sys_grows s ?t" using parts(2) ev by (rule sys_grows_server)
  have "ptrs_ok ?t"
    by (rule ptrs_ok_set_pc [OF ptrs_ok_set_server [OF parts(2) ev]]) (use ptr h in simp)
  moreover have "calls_ok resolve ?t"
    by (rule calls_ok_frame [OF parts(4) grows]) (use pc in \<open>simp split: if_splits\<close>)
  moreover have "waits_ok ?t"
    by (rule waits_ok_frame [OF parts(5) grows]) (use def in auto)
  ultimately show ?thesis
    using grows parts destr connected_grows alive_grows by (simp add: sys_ok_def)
qed

lemma sys_ok_acquire:
  assumes ok: "sys_ok resolve s" and pc: "cl_pc (clients s c) = Acquiring pc"
    and go: "acquire_step einval (cl_number (clients s c)) pc (servers s (cl_host (clients s c))) = Go pc' srv"
  shows "sys_ok resolve (set_pc c (Acquiring pc') (set_server (cl_host (clients s c)) srv s))"
proof -
  have parts: "ptrs_ok s" "destroy_ok s" using ok by (simp_all add: sys_ok_def)
  have go': "evolves (servers s (cl_host (clients s c))) srv"
    "\<And>p. client_ptr (Acquiring pc') = Some p \<Longrightarrow> ptr_ok srv p (cl_number (clients s c))"
    "\<And>j. deffered (lvar srv j) = deffered (lvar (servers s (cl_host (clients s c))) j)"
    using acquire_go [OF _ _ go] parts(1) pc by (simp_all add: ptrs_ok_def)
  have "destroy_ok (set_pc c (Acquiring pc') (set_server (cl_host (clients s c)) srv s))"
    by (rule destroy_ok_frame [OF parts(2) sys_grows_server [OF parts(1) go'(1)]])
      (use go'(3) in \<open>auto split: if_splits\<close>)
  with go'(3) show ?thesis by (intro sys_ok_client_go [OF ok refl go'(1,2)]) auto
qed

lemma sys_ok_release:
  assumes ok: "sys_ok resolve s" and inv: "inv_own (abs_sys resolve s)"
    and pc: "cl_pc (clients s c) = Releasing pc"
    and go: "release_step (cl_number (clients s c)) pc (servers s (cl_host (clients s c))) = Go pc' srv"
  shows "sys_ok resolve (set_pc c (Releasing pc') (set_server (cl_host (clients s c)) srv s))"
proof -
  let ?h = "cl_host (clients s c)" and ?n = "cl_number (clients s c)"
  have parts: "ptrs_ok s" "destroy_ok s" using ok by (simp_all add: sys_ok_def)
  have pre: "table_ok (servers s ?h)"
    "\<forall>p. client_ptr (Releasing pc) = Some p \<longrightarrow> ptr_ok (servers s ?h) p ?n"
    using parts(1) pc by (simp_all add: ptrs_ok_def)
  note go' = release_go [OF pre go]
  have alone: "c' = c" if "cl_pc (clients s c') = Releasing (RL_destroy p i)"
    "cl_host (clients s c') = ?h" "cl_number (clients s c') = ?n" "pc = RL_reset q" for c' p i q
  proof -
    have "owner (phase (abs_sys resolve s) c) ?n" "owner (phase (abs_sys resolve s) c') ?n"
      using that pc by (simp_all add: abs_proj)
    with inv that(2) show ?thesis by (auto simp: inv_own_def abs_proj)
  qed
  have "destroy_ok (set_pc c (Releasing pc') (set_server ?h srv s))"
    unfolding destroy_ok_def
  proof (intro allI impI)
    fix c' p i
    let ?t = "set_pc c (Releasing pc') (set_server ?h srv s)"
    assume a: "cl_pc (clients ?t c') = Releasing (RL_destroy p i)"
    show "i < length (deffered (lvar (servers ?t (cl_host (clients ?t c'))) (cl_number (clients ?t c'))))"
    proof (cases "c' = c")
      case True
      with a have d: "pc' = RL_destroy p i" by simp
      with go have "pc \<noteq> RL_reset q" for q by auto
      with True go'(4) [of ?n] go'(5) [OF d] show ?thesis by simp
    next
      case False
      with a have a': "cl_pc (clients s c') = Releasing (RL_destroy p i)" by simp
      with parts(2) have "i < length (deffered (lvar (servers s (cl_host (clients s c'))) (cl_number (clients s c'))))"
        by (simp add: destroy_ok_def)
      with False a' alone [OF a'] go'(4) show ?thesis by auto
    qed
  qed
  then show ?thesis
    by (intro sys_ok_client_go [OF ok refl go'(1,2)]) (use go'(4) in auto)
qed

lemma sys_ok_set_exited: "sys_ok resolve s \<Longrightarrow> sys_ok resolve (set_exited h s)"
  unfolding sys_ok_def connected_def ptrs_ok_def alive_def calls_ok_def waits_ok_def
    destroy_ok_def set_simps .

lemma sys_ok_move:
  assumes "sys_ok resolve s" and "client_ptr pc = None \<or> client_ptr pc = client_ptr (cl_pc (clients s c))"
    and "\<And>a r. pc \<noteq> Awaiting a r" and "\<And>p i. pc \<noteq> Releasing (RL_destroy p i)"
  shows "sys_ok resolve (set_pc c pc s)"
proof -
  have id: "set_server h (servers s h) s = s" for h by (simp add: set_server_def)
  have "sys_ok resolve (set_pc c pc (set_server (cl_host (clients s c)) (servers s (cl_host (clients s c))) s))"
    by (rule sys_ok_client_go [OF assms(1) refl])
      (use assms in \<open>auto simp: sys_ok_def ptrs_ok_def destroy_ok_def evolves_refl\<close>)
  then show ?thesis by (simp add: id)
qed

lemma sys_ok_call:
  assumes ok: "sys_ok resolve s" and pc: "cl_pc (clients s c) = Acquiring (AQ_loop p i)"
    and i: "i < length (nodes (servers s (cl_host (clients s c))))"
    and d: "resolve (nodes (servers s (cl_host (clients s c))) ! i) = Some d"
  shows "sys_ok resolve (set_pc c (Awaiting (AQ_loop p (Suc i)) (length (handlers s)))
    (s\<lparr>handlers := handlers s @ [\<lparr>hd_host = d, hd_pack = k, hd_pc = RQ_find\<rparr>]\<rparr>))"
    (is "sys_ok resolve ?t")
proof -
  have parts: "connected resolve s" "ptrs_ok s" "alive s" "calls_ok resolve s" "waits_ok s" "destroy_ok s"
    using ok by (simp_all add: sys_ok_def)
  have grows: "sys_grows s ?t"
    using parts(2) by (simp add: sys_grows_def ptrs_ok_def evolves_refl nth_append)
  have "ptrs_ok ?t"
    using parts(2) pc by (auto simp: ptrs_ok_def nth_append less_Suc_eq)
  moreover have "calls_ok resolve ?t"
    using parts(4) i d by (auto simp: calls_ok_def nth_append intro: less_SucI)
  moreover have "waits_ok ?t"
    by (rule waits_ok_frame [OF parts(5) grows]) (auto simp: nth_append less_Suc_eq split: if_splits)
  moreover have "destroy_ok ?t"
    by (rule destroy_ok_frame [OF parts(6) grows]) (auto split: if_splits)
  ultimately show ?thesis
    using grows parts connected_grows alive_grows by (simp add: sys_ok_def)
qed


lemma waits_ok_append:
  assumes "waits_ok s" and "sys_grows s t" and len: "length (handlers t) = length (handlers s)"
    and r: "r < length (handlers s)" "hd_host (handlers s ! r) = h"
      "pack_lock_number (hd_pack (handlers s ! r)) = n"
    and m: "m = length (mutexes (servers s h))" "m < length (mutexes (servers t h))"
    and own: "waits_on (hd_pc (handlers t ! r)) = Some m"
    and rest: "\<And>r'. r' < length (handlers s) \<Longrightarrow> r' \<noteq> r \<Longrightarrow> handlers t ! r' = handlers s ! r'"
    and def: "\<And>h' j. deffered (lvar (servers t h') j) = deffered (lvar (servers s h') j) @
      (if h' = h \<and> j = n then [m] else [])"
  shows "waits_ok t"
proof -
  have lens: "length (mutexes (servers s h')) \<le> length (mutexes (servers t h'))" for h'
    using assms(2) by (simp add: sys_grows_def evolves_def)
  have keep: "hd_host (handlers t ! r') = hd_host (handlers s ! r')"
      "hd_pack (handlers t ! r') = hd_pack (handlers s ! r')" if "r' < length (handlers s)" for r'
    using assms(2) that by (simp_all add: sys_grows_def)
  have old: "m' < length (mutexes (servers s (hd_host (handlers s ! r'))))"
    if "r' < length (handlers s)" "waits_on (hd_pc (handlers s ! r')) = Some m'" for r' m'
    using assms(1) that unfolding waits_ok_def by blast
  have new: "(if r' = r then m' = m else waits_on (hd_pc (handlers s ! r')) = Some m' \<and>
      (hd_host (handlers s ! r') = h \<longrightarrow> m' \<noteq> m))"
    if "r' < length (handlers s)" "waits_on (hd_pc (handlers t ! r')) = Some m'" for r' m'
    using that own rest [of r'] old [of r' m'] m(1) by auto
  have dold: "m' < length (mutexes (servers s h'))" if "m' \<in> set (deffered (lvar (servers s h') j))" for m' h' j
    using assms(1) that unfolding waits_ok_def by blast
  show ?thesis
    unfolding waits_ok_def len
  proof (intro conjI allI impI)
    fix r' m' assume a: "r' < length (handlers s)" "waits_on (hd_pc (handlers t ! r')) = Some m'"
    then show "m' < length (mutexes (servers t (hd_host (handlers t ! r'))))"
      using new [OF a] keep [OF a(1)] old [OF a(1)] lens m(2) r(2) order_less_le_trans
      by (metis (full_types))
  next
    fix r1 m' r2 assume a: "r1 < length (handlers s)" "waits_on (hd_pc (handlers t ! r1)) = Some m'"
      and b: "r2 < length (handlers s)" and hh: "hd_host (handlers t ! r2) = hd_host (handlers t ! r1)"
      and c: "waits_on (hd_pc (handlers t ! r2)) = Some m'"
    from hh have "hd_host (handlers s ! r2) = hd_host (handlers s ! r1)"
      using keep a(1) b by simp
    then show "r2 = r1"
      using new [OF a] new [OF b c] r(2) assms(1) a(1) b unfolding waits_ok_def
      by (metis (full_types))
  next
    fix h' j m' assume "m' \<in> set (deffered (lvar (servers t h') j))"
    then show "m' < length (mutexes (servers t h'))"
      using def [of h' j] dold [of m' h' j] m(2) lens [of h'] by (auto split: if_splits)
  next
    fix h' j m' r' assume a: "m' \<in> set (deffered (lvar (servers t h') j))"
      and b: "r' < length (handlers s)" "hd_host (handlers t ! r') = h'"
      and c: "waits_on (hd_pc (handlers t ! r')) = Some m'"
    from b have h': "hd_host (handlers s ! r') = h'" using keep by simp
    show "pack_lock_number (hd_pack (handlers t ! r')) = j"
    proof (cases "m' \<in> set (deffered (lvar (servers s h') j))")
      case True
      then have "m' \<noteq> m \<or> h' \<noteq> h" using dold [OF True] m(1) by auto
      with new [OF b(1) c] r(2) h' have "waits_on (hd_pc (handlers s ! r')) = Some m'"
        by (auto split: if_splits)
      with True assms(1) b(1) h' keep(2) [OF b(1)] show ?thesis unfolding waits_ok_def by metis
    next
      case False
      with a def [of h' j] have "m' = m" "h' = h" "j = n" by (auto split: if_splits)
      with new [OF b(1) c] h' have "r' = r" by (auto split: if_splits)
      with keep(2) [OF b(1)] r(3) \<open>j = n\<close> show ?thesis by simp
    qed
  qed
qed

lemma sys_ok_handler:
  assumes ok: "sys_ok resolve s" and r: "r < length (handlers s)"
    and go: "request_step einval (hd_pack (handlers s ! r)) (hd_pc (handlers s ! r))
      (servers s (hd_host (handlers s ! r))) = Go pc' srv"
  shows "sys_ok resolve (set_server (hd_host (handlers s ! r)) srv
    (s\<lparr>handlers := (handlers s)[r := (handlers s ! r)\<lparr>hd_pc := pc'\<rparr>]\<rparr>))" (is "sys_ok resolve ?t")
proof -
  let ?k = "handlers s ! r"
  let ?h = "hd_host ?k" and ?n = "pack_lock_number (hd_pack ?k)"
  have parts: "connected resolve s" "ptrs_ok s" "alive s" "calls_ok resolve s" "waits_ok s" "destroy_ok s"
    using ok by (simp_all add: sys_ok_def)
  have pre: "table_ok (servers s ?h)" "\<forall>p. handler_ptr (hd_pc ?k) = Some p \<longrightarrow> ptr_ok (servers s ?h) p ?n"
    using parts(2) r by (simp_all add: ptrs_ok_def)
  note go' = request_go [OF pre go]
  have grows: "sys_grows s ?t"
    using parts(2) go'(1) r by (simp add: sys_grows_def ptrs_ok_def evolves_refl nth_list_update)
  have "ptrs_ok (set_server ?h srv s)" by (rule ptrs_ok_set_server [OF parts(2) go'(1)])
  then have "ptrs_ok ?t"
    by (rule ptrs_ok_set_handler) (use r go'(2) in simp_all)
  moreover have "calls_ok resolve ?t"
    by (rule calls_ok_frame [OF parts(4) grows]) simp
  moreover have "waits_ok ?t"
  proof (cases "\<exists>p. hd_pc ?k = RQ_append p")
    case True
    with go have "\<exists>m. pc' = RQ_lock1 m" by (auto simp: Let_def)
    then obtain m where m: "waits_on pc' = Some m" by auto
    show ?thesis
      by (rule waits_ok_append [OF parts(5) grows, of r ?h ?n m])
        (use True m go'(3) go'(4) [OF m] r in \<open>auto simp: nth_list_update\<close>)
  next
    case False
    then show ?thesis
      by (intro waits_ok_frame [OF parts(5) grows])
        (use go'(3) go'(4) r in \<open>auto simp: nth_list_update split: if_splits\<close>)
  qed
  moreover have "destroy_ok ?t"
    by (rule destroy_ok_frame [OF parts(6) grows]) (use go'(3) in auto)
  ultimately show ?thesis
    using grows parts connected_grows alive_grows by (simp add: sys_ok_def)
qed


lemma sys_ok_start:
  assumes "sys_ok resolve s" and "cl_pc (clients s c) = Idle"
  shows "sys_ok resolve (s\<lparr>clients := (clients s)(c :=
    (clients s c)\<lparr>cl_number := n, cl_pc := Acquiring AQ_find\<rparr>)\<rparr>)" (is "sys_ok resolve ?t")
proof -
  have parts: "connected resolve s" "ptrs_ok s" "alive s" "calls_ok resolve s" "waits_ok s" "destroy_ok s"
    using assms(1) by (simp_all add: sys_ok_def)
  have grows: "sys_grows s ?t" using parts(2) by (simp add: sys_grows_def ptrs_ok_def evolves_refl)
  have "ptrs_ok ?t" using parts(2) by (simp add: ptrs_ok_def)
  moreover have "calls_ok resolve ?t"
    by (rule calls_ok_frame [OF parts(4) grows]) (simp split: if_splits)
  moreover have "waits_ok ?t" by (rule waits_ok_frame [OF parts(5) grows]) simp_all
  moreover have "destroy_ok ?t"
    by (rule destroy_ok_frame [OF parts(6) grows]) (simp_all split: if_splits)
  ultimately show ?thesis
    using grows parts connected_grows alive_grows by (simp add: sys_ok_def)
qed

lemma client_ok:
  assumes ok: "sys_ok resolve s" and inv: "inv_own (abs_sys resolve s)"
    and step: "client_step einval resolve c s = Some t"
  shows "sys_ok resolve t"
proof (cases "cl_pc (clients s c)")
  case (Acquiring pc)
  show ?thesis
  proof (cases "acquire_step einval (cl_number (clients s c)) pc (servers s (cl_host (clients s c)))")
    case (Go pc' srv)
    with step Acquiring sys_ok_acquire [OF ok Acquiring Go] show ?thesis
      by (simp add: client_step_def Let_def)
  next
    case (Call addr pack pc')
    then obtain p i where i: "pc = AQ_loop p i" "i < length (nodes (servers s (cl_host (clients s c))))"
        "addr = nodes (servers s (cl_host (clients s c))) ! i" "pc' = AQ_loop p (Suc i)"
      by (cases pc)
        (auto simp: pthread_mutex_lock_def split: if_splits prod.splits option.splits)
    from step Acquiring Call show ?thesis
      using sys_ok_call [OF ok, of c p i] i sys_ok_set_exited [OF ok]
      by (auto simp: client_step_def Let_def split: option.splits if_splits)
  next
    case Return
    with step Acquiring have "t = set_pc c Holding s" by (simp add: client_step_def Let_def)
    with ok show ?thesis by (auto intro: sys_ok_move)
  qed (use step Acquiring ok in \<open>auto simp: client_step_def Let_def intro: sys_ok_set_exited\<close>)
next
  case (Awaiting pc r)
  with step have t: "t = set_pc c (Acquiring pc) s"
    by (auto simp: client_step_def Let_def split: if_splits)
  have "calls_ok resolve s" using ok by (simp add: sys_ok_def)
  with Awaiting obtain p i where "pc = AQ_loop p (Suc i)" unfolding calls_ok_def by blast
  with ok Awaiting show ?thesis unfolding t by (intro sys_ok_move) auto
next
  case (Releasing pc)
  show ?thesis
  proof (cases "release_step (cl_number (clients s c)) pc (servers s (cl_host (clients s c)))")
    case (Go pc' srv)
    with step Releasing sys_ok_release [OF ok inv Releasing Go] show ?thesis
      by (simp add: client_step_def Let_def)
  next
    case Return
    with step Releasing have "t = set_pc c Idle s" by (simp add: client_step_def Let_def)
    with ok show ?thesis by (auto intro: sys_ok_move)
  qed (use step Releasing ok in \<open>auto simp: client_step_def Let_def intro: sys_ok_set_exited\<close>)
qed (use step in \<open>auto simp: client_step_def Let_def\<close>)

lemma sys_ok_step:
  assumes ok: "sys_ok resolve s" and inv: "inv_own (abs_sys resolve s)"
    and step: "sys_step einval resolve e s = Some t"
  shows "sys_ok resolve t"
proof (cases e)
  case (Start c n)
  with step sys_ok_start [OF ok] show ?thesis by (auto split: if_splits)
next
  case (Leave c)
  with step ok show ?thesis by (auto intro: sys_ok_move split: if_splits)
next
  case (Client c)
  with step client_ok [OF ok inv] show ?thesis by (auto split: if_splits)
next
  case (No_reply c)
  then obtain pc r where aw: "cl_pc (clients s c) = Awaiting pc r" and t: "t = set_pc c (Acquiring pc) s"
    using step by (auto split: if_splits client_pc.splits)
  with ok obtain p i where "pc = AQ_loop p (Suc i)" unfolding sys_ok_def calls_ok_def by blast
  with ok aw show ?thesis unfolding t by (intro sys_ok_move) auto
next
  case (Handler r)
  with step have r: "r < length (handlers s)" and h: "handler_step einval r s = Some t"
    by (auto split: if_splits)
  show ?thesis
  proof (cases "request_step einval (hd_pack (handlers s ! r)) (hd_pc (handlers s ! r))
      (servers s (hd_host (handlers s ! r)))")
    case (Go pc' srv)
    with h sys_ok_handler [OF ok r Go] show ?thesis by (simp add: handler_step_def Let_def)
  qed (use h ok in \<open>auto simp: handler_step_def Let_def intro: sys_ok_set_exited\<close>)
qed

section \<open>Every detailed step is an abstract step\<close>

text \<open>The events at which the program leaves the protocol.\<close>

definition faulty :: "event \<Rightarrow> sys \<Rightarrow> bool" where
  "faulty e s \<longleftrightarrow> no_reply e \<or> loses_update e s \<or> wraps_seqno e s"

lemma sys_refines:
  assumes ok: "sys_ok resolve s" and step: "sys_step einval resolve e s = Some t"
  shows "abs_sys resolve t = abs_sys resolve s \<or> pp_step (abs_sys resolve s) (abs_sys resolve t) \<or>
     faulty e s \<and> pp_fault (abs_sys resolve s) (abs_sys resolve t)"
proof (cases e)
  case (Start c n)
  let ?a = "abs_sys resolve s"
  have t: "t = s\<lparr>clients := (clients s)(c := (clients s c)\<lparr>cl_number := n, cl_pc := Acquiring AQ_find\<rparr>)\<rparr>"
    and pc: "cl_pc (clients s c) = Idle"
    using step Start by (auto split: if_splits)
  have "abs_sys resolve t = ?a\<lparr>phase := (phase ?a)(c := P_want n)\<rparr>"
    by (auto simp: t abs_sys_def fun_eq_iff)
  then show ?thesis using pp_step.want [of ?a c n] pc by (simp add: abs_proj)
next
  case (Leave c)
  let ?a = "abs_sys resolve s" and ?n = "cl_number (clients s c)"
  have t: "t = set_pc c (Releasing RL_find) s" and pc: "cl_pc (clients s c) = Holding"
    using step Leave by (auto split: if_splits)
  have "abs_sys resolve t = ?a\<lparr>phase := (phase ?a)(c := P_release ?n)\<rparr>"
    by (simp add: t abs_set_pc)
  then show ?thesis using pp_step.leave [of ?a c ?n] pc by (simp add: abs_proj)
next
  case (Client c)
  with step have c: "client_step einval resolve c s = Some t" by (simp split: if_splits)
  show ?thesis
  proof (cases "cl_pc (clients s c)")
    case (Acquiring pc)
    then show ?thesis using acquire_refines [OF ok Acquiring c] Client unfolding faulty_def by blast
  next
    case (Awaiting pc r)
    then show ?thesis using await_refines [OF ok Awaiting c] by simp
  next
    case (Releasing pc)
    then show ?thesis using release_refines [OF ok Releasing c] by blast
  qed (use c in \<open>auto simp: client_step_def Let_def\<close>)
next
  case (Handler r)
  with step handler_refines [OF ok, of r] show ?thesis unfolding faulty_def by (simp split: if_splits) blast
next
  case (No_reply c)
  then obtain pc r where pc: "cl_pc (clients s c) = Awaiting pc r" and t: "t = set_pc c (Acquiring pc) s"
    using step by (auto split: if_splits client_pc.splits)
  have "faulty e s" using No_reply by (simp add: faulty_def)
  with unreplied_refines [OF ok pc] show ?thesis unfolding t by blast
qed

section \<open>Runs\<close>

text \<open>The detailed invariant and the ownership of the local mutexes hold in every run.\<close>

definition any_step :: "bool \<Rightarrow> (string \<Rightarrow> host option) \<Rightarrow> sys \<Rightarrow> sys \<Rightarrow> bool" where
  "any_step einval resolve s t \<longleftrightarrow> (\<exists>e. sys_step einval resolve e s = Some t)"

definition shape_ok :: "(string \<Rightarrow> host option) \<Rightarrow> sys \<Rightarrow> bool" where
  "shape_ok resolve s \<longleftrightarrow> sys_ok resolve s \<and> inv_own (abs_sys resolve s)"

lemma shape_step:
  assumes "shape_ok resolve s" and "sys_step einval resolve e s = Some t"
  shows "shape_ok resolve t"
  using assms sys_ok_step [OF _ _ assms(2)] sys_refines [OF _ assms(2)] inv_own_step inv_own_fault
  unfolding shape_ok_def by metis

interpretation lock_shape: invariant_system "any_step einval resolve" "shape_ok resolve"
  for einval resolve
  by unfold_locales (auto simp: any_step_def intro: shape_step)

lemma run_steps: "sys_run einval resolve es s = Some t \<Longrightarrow> (any_step einval resolve)\<^sup>*\<^sup>* s t"
proof (induction es arbitrary: s)
  case (Cons e es)
  then obtain u where u: "sys_step einval resolve e s = Some u" "sys_run einval resolve es u = Some t"
    by (auto split: option.splits)
  then have "any_step einval resolve s u" by (auto simp: any_step_def)
  with Cons.IH [OF u(2)] show ?case by (rule converse_rtranclp_into_rtranclp [rotated])
qed simp

lemma init_ok:
  assumes "sys_init s" and "connected resolve s"
  shows "sys_ok resolve s" and "pp_inv (abs_sys resolve s)"
proof -
  have lv: "lvar (servers s h) n = new_lockvar n" for h n
    using assms(1) by (simp add: sys_init_def lvar_def)
  have init: "lockvar_list (servers s h) = []" "cl_pc (clients s c) = Idle" "handlers s = []" for h c
    using assms(1) by (simp_all add: sys_init_def)
  show "sys_ok resolve s"
    using assms(2) init lv
    by (simp add: sys_ok_def ptrs_ok_def alive_def calls_ok_def waits_ok_def destroy_ok_def
        table_ok_def new_lockvar_def pthread_mutex_init_def)
  show "pp_inv (abs_sys resolve s)"
    using assms(2) init lv
    by (auto simp: pp_inv_def inv_static_def inv_own_def inv_req_def inv_seq_def inv_call_def inv_wait_def
        inv_read_def inv_perm_def inv_cs_def bids_def abs_sys_def connected_def new_lockvar_def)
qed

lemma run_shape:
  assumes "sys_init s" and "connected resolve s" and "sys_run einval resolve es s = Some t"
  shows "shape_ok resolve t"
proof (rule lock_shape.inv_run [OF run_steps [OF assms(3)]])
  show "shape_ok resolve s" using init_ok [OF assms(1,2)] by (simp add: shape_ok_def pp_inv_def)
qed

section \<open>Lock managers do not exit\<close>

definition knows_lock :: "sys \<Rightarrow> bool" where
  "knows_lock s \<longleftrightarrow>
     (\<forall>c. cl_pc (clients s c) = Acquiring AQ_return \<or> cl_pc (clients s c) = Holding \<or>
        cl_pc (clients s c) = Releasing RL_find \<longrightarrow>
        (\<exists>p. ptr_ok (servers s (cl_host (clients s c))) p (cl_number (clients s c))))"

lemma sys_step_grows:
  assumes ok: "sys_ok resolve s" and step: "sys_step einval resolve e s = Some t"
  shows "sys_grows s t"
proof -
  have ptrs: "ptrs_ok s" using ok by (simp add: sys_ok_def)
  then have tab: "table_ok (servers s h)" for h by (simp add: ptrs_ok_def)
  then have refl: "evolves (servers s h) (servers s h)" for h by (rule evolves_refl)
  have cptr: "client_ptr (cl_pc (clients s c)) = Some p \<Longrightarrow>
      ptr_ok (servers s (cl_host (clients s c))) p (cl_number (clients s c))" for c p
    using ptrs by (simp add: ptrs_ok_def)
  show ?thesis
  proof (cases e)
    case (Client c)
    let ?h = "cl_host (clients s c)" and ?n = "cl_number (clients s c)"
    have acq: "evolves (servers s ?h) srv" if "cl_pc (clients s c) = Acquiring pc"
        "acquire_step einval ?n pc (servers s ?h) = Go pc' srv" for pc pc' srv
      using acquire_go [OF tab _ that(2)] cptr that(1) by simp
    have rel: "evolves (servers s ?h) srv" if "cl_pc (clients s c) = Releasing pc"
        "release_step ?n pc (servers s ?h) = Go pc' srv" for pc pc' srv
      using release_go(1) [OF tab _ that(2)] cptr that(1) by simp
    from Client step show ?thesis
      by (auto simp: client_step_def Let_def sys_grows_def set_exited_def refl acq rel nth_append
          split: if_splits client_pc.splits reaction.splits option.splits)
  next
    case (Handler r)
    let ?k = "handlers s ! r"
    have go: "evolves (servers s (hd_host ?k)) srv"
      if "request_step einval (hd_pack ?k) (hd_pc ?k) (servers s (hd_host ?k)) = Go pc srv"
        "r < length (handlers s)" for pc srv
      using request_go(1) [OF tab _ that(1)] ptrs that(2) by (simp add: ptrs_ok_def)
    from Handler step show ?thesis
      by (auto simp: handler_step_def Let_def sys_grows_def set_exited_def refl go nth_list_update
          split: if_splits reaction.splits)
  qed (use step refl in \<open>auto simp: sys_grows_def split: if_splits client_pc.splits\<close>)
qed

lemma knows_lock_origin:
  assumes ok: "sys_ok resolve s" and know: "knows_lock s"
    and step: "sys_step einval resolve e s = Some t"
    and pc: "cl_pc (clients t c) = Acquiring AQ_return \<or> cl_pc (clients t c) = Holding \<or>
        cl_pc (clients t c) = Releasing RL_find"
  shows "cl_number (clients t c) = cl_number (clients s c) \<and>
    (\<exists>p. ptr_ok (servers s (cl_host (clients s c))) p (cl_number (clients s c)))"
proof -
  have cptr: "client_ptr (cl_pc (clients s c)) = Some p \<Longrightarrow>
      ptr_ok (servers s (cl_host (clients s c))) p (cl_number (clients s c))" for p
    using ok by (simp add: sys_ok_def ptrs_ok_def)
  have known: "\<exists>p. ptr_ok (servers s (cl_host (clients s c))) p (cl_number (clients s c))"
    if "cl_pc (clients s c) = Acquiring AQ_return \<or> cl_pc (clients s c) = Holding \<or>
        cl_pc (clients s c) = Releasing RL_find"
    using know that unfolding knows_lock_def by blast
  have acq: "\<exists>p i. pc = AQ_loop p i"
    if "acquire_step einval n pc srv = Go AQ_return srv'" for n pc srv srv'
    using that by (cases pc) (auto split: if_splits prod.splits option.splits lock_attempt.splits)
  have loop: "\<exists>p. ptr_ok (servers s (cl_host (clients s c))) p (cl_number (clients s c))"
    if "cl_pc (clients s c) = Acquiring pc" "acquire_step einval n pc srv = Go AQ_return srv'"
    for n pc srv srv'
    using acq [OF that(2)] that(1) cptr by auto
  have ret: "pc = AQ_return" if "acquire_step einval n pc srv = Return" for n pc srv
    using that by (cases pc) (auto split: if_splits prod.splits option.splits lock_attempt.splits)
  have rel: False if "release_step n pc srv = Go RL_find srv'" for n pc srv srv'
    using that by (cases pc) (auto simp: Let_def split: if_splits prod.splits option.splits)
  have wait: "\<exists>p i. pc = AQ_loop p i" if "cl_pc (clients s c) = Awaiting pc r" for pc r
    using ok that unfolding sys_ok_def calls_ok_def by blast
  show ?thesis
  proof (cases "e = Client c")
    case True
    with step pc show ?thesis
      by (auto simp: client_step_def Let_def set_exited_def known
          split: if_splits client_pc.splits reaction.splits option.splits
          dest: ret rel wait loop)
  next
    case False
    have "e \<noteq> No_reply c"
      using step pc wait by (auto split: if_splits client_pc.splits)
    with False
    have "cl_pc (clients s c) = cl_pc (clients t c) \<and> cl_number (clients s c) = cl_number (clients t c) \<or>
        cl_pc (clients s c) = Holding \<and> cl_number (clients s c) = cl_number (clients t c)"
      using step pc
      by (cases e) (auto simp: client_step_def handler_step_def Let_def set_exited_def
          split: if_splits client_pc.splits reaction.splits option.splits)
    with pc known show ?thesis by auto
  qed
qed

lemma knows_lock_step:
  assumes "sys_ok resolve s" and "knows_lock s" and "sys_step einval resolve e s = Some t"
  shows "knows_lock t"
  unfolding knows_lock_def
proof (intro allI impI)
  fix c
  assume "cl_pc (clients t c) = Acquiring AQ_return \<or> cl_pc (clients t c) = Holding \<or>
        cl_pc (clients t c) = Releasing RL_find"
  from knows_lock_origin [OF assms this] sys_step_grows [OF assms(1,3)]
  show "\<exists>p. ptr_ok (servers t (cl_host (clients t c))) p (cl_number (clients t c))"
    unfolding sys_grows_def evolves_def by metis
qed

text \<open>The thread is at a call of \<^verbatim>\<open>create_client\<close> that nobody answers.\<close>

definition unanswered :: "(string \<Rightarrow> host option) \<Rightarrow> sys \<Rightarrow> cid \<Rightarrow> bool" where
  "unanswered resolve s c \<longleftrightarrow> (\<exists>p i. cl_pc (clients s c) = Acquiring (AQ_loop p i) \<and>
     (let srv = servers s (cl_host (clients s c)) in i < length (nodes srv) \<and>
       (resolve (nodes srv ! i) = None \<or> (\<exists>d. resolve (nodes srv ! i) = Some d \<and> exited s d))))"

lemma no_abort:
  assumes ok: "sys_ok resolve s" and know: "knows_lock s"
  shows "request_step einval pack rpc srv \<noteq> Abort" and "acquire_step einval n apc srv \<noteq> Abort"
    and "cl_pc (clients s c) = Releasing pc \<Longrightarrow>
      release_step (cl_number (clients s c)) pc (servers s (cl_host (clients s c))) \<noteq> Abort"
proof -
  have find: False if "find_lockvar n True srv = (None, srv')" for n srv srv'
    using find_lockvar_create [of n srv] that by simp
  show "acquire_step einval n apc srv \<noteq> Abort"
    by (cases apc) (auto dest: find split: if_splits prod.splits option.splits lock_attempt.splits)
  show "request_step einval pack rpc srv \<noteq> Abort"
    by (cases rpc) (auto simp: Let_def dest: find
        split: if_splits prod.splits option.splits lock_attempt.splits)
  assume pc: "cl_pc (clients s c) = Releasing pc"
  show "release_step (cl_number (clients s c)) pc (servers s (cl_host (clients s c))) \<noteq> Abort"
  proof (cases pc)
    case RL_find
    with know pc obtain p where
        "ptr_ok (servers s (cl_host (clients s c))) p (cl_number (clients s c))"
      unfolding knows_lock_def by blast
    moreover have "table_ok (servers s (cl_host (clients s c)))"
      using ok by (simp add: sys_ok_def ptrs_ok_def)
    ultimately show ?thesis using RL_find by (simp add: find_lockvar_ptr)
  qed (auto simp: Let_def split: if_splits)
qed

lemma exit_step:
  assumes ok: "sys_ok resolve s" and know: "knows_lock s"
    and step: "sys_step einval resolve e s = Some t" and ends: "exited t \<noteq> exited s"
  shows "\<exists>c. e = Client c \<and> unanswered resolve s c \<and> exited t = (exited s)(cl_host (clients s c) := True)"
proof -
  note abort = no_abort [OF ok know]
  have call: "\<exists>p i. pc = AQ_loop p i \<and> i < length (nodes srv) \<and> addr = nodes srv ! i"
    if "acquire_step einval n pc srv = Call addr pack pc'" for n pc srv addr pack pc'
    using that by (cases pc) (auto split: if_splits prod.splits option.splits lock_attempt.splits)
  show ?thesis
  proof (cases e)
    case (Client c)
    with step ends obtain pc where pc: "cl_pc (clients s c) = Acquiring pc"
      using abort(3)
      by (auto simp: client_step_def Let_def set_pc_def set_server_def
          split: if_splits client_pc.splits reaction.splits)
    with Client step ends obtain addr pack pc' where
        k: "acquire_step einval (cl_number (clients s c)) pc (servers s (cl_host (clients s c))) = Call addr pack pc'"
      using abort(2)
      by (auto simp: client_step_def Let_def set_pc_def set_server_def split: if_splits reaction.splits)
    from call [OF k] pc Client step ends k show ?thesis
      by (auto simp: unanswered_def client_step_def Let_def set_pc_def set_server_def set_exited_def
          split: if_splits option.splits)
  qed (use step ends abort(1) in \<open>auto simp: handler_step_def Let_def set_pc_def set_server_def
      split: if_splits client_pc.splits reaction.splits\<close>)
qed

definition addresses_answer :: "(string \<Rightarrow> host option) \<Rightarrow> sys \<Rightarrow> bool" where
  "addresses_answer resolve s \<longleftrightarrow>
     (\<forall>h. \<forall>a \<in> set (nodes (servers s h)). resolve a \<noteq> None)"

lemma answer_grows: "sys_grows s t \<Longrightarrow> addresses_answer resolve s \<Longrightarrow> addresses_answer resolve t"
  by (simp add: sys_grows_def evolves_def addresses_answer_def)

lemma no_exit_run:
  assumes "sys_run einval resolve es s = Some t" and "shape_ok resolve s" and "knows_lock s"
    and "addresses_answer resolve s" and "\<forall>d. \<not> exited s d"
  shows "\<not> exited t d"
  using assms
proof (induction es arbitrary: s)
  case (Cons e es)
  then obtain u where u: "sys_step einval resolve e s = Some u" "sys_run einval resolve es u = Some t"
    by (auto split: option.splits)
  have ok: "sys_ok resolve s" using Cons.prems(2) by (simp add: shape_ok_def)
  have "\<not> unanswered resolve s c" for c
    using Cons.prems(4,5) nth_mem unfolding unanswered_def addresses_answer_def Let_def by blast
  with exit_step [OF ok Cons.prems(3) u(1)] Cons.prems(5) have "\<forall>d. \<not> exited u d" by metis
  from Cons.IH [OF u(2) shape_step [OF Cons.prems(2) u(1)] knows_lock_step [OF ok Cons.prems(3) u(1)]
      answer_grows [OF sys_step_grows [OF ok u(1)] Cons.prems(4)] this] show ?case .
qed simp

end
