(* ===== verification/Lock_Numbers.thy ===== *)
theory Lock_Numbers
  imports Lock_Invariant
begin

text \<open>
  The sequence numbers of a run stay between zero and the count of numbers drawn, whatever replies are
  missing and whatever updates are lost; so up to \<open>INT_MAX\<close> draws no number wraps.
\<close>

section \<open>Numbers of the protocol\<close>

definition within :: "int \<Rightarrow> proto \<Rightarrow> bool" where
  "within D a \<longleftrightarrow>
     (\<forall>k. 0 \<le> high a k \<and> high a k \<le> D \<and> 0 \<le> seq a k \<and> seq a k \<le> D) \<and>
     (\<forall>c L x. phase a c = P_store L x \<longrightarrow> 1 \<le> x \<and> x \<le> D) \<and>
     (\<forall>c L. active (phase a c) L \<longrightarrow> 1 \<le> seq a (home a c, L)) \<and>
     (\<forall>r < length (calls a). 1 \<le> call_seq (calls a ! r) \<and> call_seq (calls a ! r) \<le> D \<and>
        (\<forall>x. verdict (calls a ! r) = Loaded x \<longrightarrow> 1 \<le> x \<and> x \<le> D))"

text \<open>Whether a number is drawn between two states.\<close>

definition numbering :: "proto \<Rightarrow> proto \<Rightarrow> bool" where
  "numbering a b \<longleftrightarrow> (\<exists>c L x. phase a c = P_number L \<and> phase b c = P_store L x)"

lemma within_mono: "within D a \<Longrightarrow> D \<le> E \<Longrightarrow> within E a"
  unfolding within_def by (meson order_trans)

lemma within_number:
  assumes "within D a" and "x = high a (home a c, L) + 1"
  shows "within (D + 1) (a\<lparr>phase := (phase a)(c := P_store L x)\<rparr>)"
proof -
  have "within (D + 1) a" using assms(1) by (rule within_mono) simp
  moreover have "1 \<le> x \<and> x \<le> D + 1" using assms unfolding within_def by (metis add_increasing add_mono_thms_linordered_semiring(1) add.commute order_refl)
  ultimately show ?thesis unfolding within_def by simp
qed

lemma within_step:
  assumes "pp_step a b" and "within D a"
  shows "within (if numbering a b then D + 1 else D) b"
  using assms(1)
proof cases
  case (number c L x)
  then have "numbering a b" unfolding numbering_def by (intro exI [of _ c]) simp
  with number within_number [OF assms(2)] show ?thesis by simp
next
  case (store c L x)
  then have "0 \<le> x \<and> 1 \<le> x \<and> x \<le> D" using assms(2) unfolding within_def by force
  with store assms(2) have "within D b" unfolding within_def by auto
  then show ?thesis by (auto intro: within_mono)
next
  case (send c L G d)
  have "1 \<le> seq a (home a c, L) \<and> seq a (home a c, L) \<le> D"
    using assms(2) send(2) unfolding within_def by (metis active.simps(1))
  with send assms(2) have "within D b" unfolding within_def by (auto simp: nth_append less_Suc_eq)
  then show ?thesis by (auto intro: within_mono)
next
  case (look r x)
  have "high a (spot (calls a ! r)) \<le> D" "1 \<le> call_seq (calls a ! r) \<and> call_seq (calls a ! r) \<le> D"
    using look assms(2) unfolding within_def by blast+
  with look have "1 \<le> x \<and> x \<le> D" by auto
  with look assms(2) have "within D b" unfolding within_def by (auto simp: verdict_decide)
  then show ?thesis by (auto intro: within_mono)
next
  case (noted r x)
  have "1 \<le> x \<and> x \<le> D" using noted assms(2) unfolding within_def by blast
  with noted assms(2) have "within D b" unfolding within_def by (auto simp: verdict_decide)
  then show ?thesis by (auto intro: within_mono)
next
  case (reply c L G r)
  with assms(2) have "within D b" unfolding within_def by auto
  then show ?thesis by (auto intro: within_mono)
next
  case (enter c L G)
  with assms(2) have "within D b" unfolding within_def by auto
  then show ?thesis by (auto intro: within_mono)
qed (rule within_mono [of D]; use assms(2) in \<open>simp add: within_def verdict_decide\<close>)+

lemma within_fault:
  assumes "pp_fault a b" and "within D a" and "\<not> numbering a b"
  shows "within D b"
  using assms(1)
proof cases
  case (lose r x)
  have "1 \<le> x \<and> x \<le> D" using lose assms(2) unfolding within_def by blast
  with lose assms(2) show ?thesis unfolding within_def by (auto simp: verdict_decide)
next
  case (wrap c L x)
  then have "numbering a b" unfolding numbering_def by (intro exI [of _ c]) simp
  with assms(3) show ?thesis by simp
next
  case (unreplied c L G r)
  with assms(2) show ?thesis unfolding within_def by auto
qed

section \<open>Numbers of the program\<close>

lemma numbering_draws:
  assumes "sys_step einval resolve e s = Some t" and "numbering (abs_sys resolve s) (abs_sys resolve t)"
  shows "draws_seqno e s"
proof -
  obtain c L x where c: "phase (abs_sys resolve s) c = P_number L" "phase (abs_sys resolve t) c = P_store L x"
    using assms(2) unfolding numbering_def by blast
  obtain p where p: "cl_pc (clients s c) = Acquiring (AQ_seq p)"
    using c(1) unfolding abs_proj by (cases rule: abs_phase.cases [of "(resolve, servers s (cl_host (clients s c)), cl_number (clients s c), cl_pc (clients s c))"]) auto
  have "cl_pc (clients t c) \<noteq> cl_pc (clients s c)" using c(2) p by (auto simp: abs_proj)
  with assms(1) p have "e = Client c"
    by (cases e) (auto simp: client_step_def handler_step_def Let_def set_exited_def
        split: if_splits client_pc.splits reaction.splits option.splits)
  with p show ?thesis by (simp add: draws_seqno_def)
qed

lemma no_wrap:
  assumes ok: "sys_ok resolve s" and num: "within D (abs_sys resolve s)" and "wraps_seqno e s"
  shows "INT_MAX \<le> D"
proof -
  obtain c p where c: "cl_pc (clients s c) = Acquiring (AQ_seq p)"
      and w: "c_int (highestseqno (lockvar_list (servers s (cl_host (clients s c))) ! p) + 1) \<noteq>
        highestseqno (lockvar_list (servers s (cl_host (clients s c))) ! p) + 1"
    using assms(3)
    by (auto simp: wraps_seqno_def Let_def split: event.splits client_pc.splits acquire_pc.splits)
  let ?x = "highestseqno (lvar (servers s (cl_host (clients s c))) (cl_number (clients s c)))"
  have "ptrs_ok s" using ok by (simp add: sys_ok_def)
  from client_at(3) [OF this _ refl refl, of c p] c w have "c_int (?x + 1) \<noteq> ?x + 1" by simp
  then have "\<not> (- (2 ^ 31) \<le> ?x + 1 \<and> ?x + 1 \<le> INT_MAX)" using c_int_id by blast
  moreover have "0 \<le> ?x \<and> ?x \<le> D"
    using num abs_proj(7) [of resolve s "cl_host (clients s c)" "cl_number (clients s c)"] unfolding within_def by metis
  ultimately show ?thesis by auto
qed

lemma within_sys_step:
  assumes ok: "sys_ok resolve s" and step: "sys_step einval resolve e s = Some t"
    and num: "within (int D) (abs_sys resolve s)"
    and draw: "E = D + (if draws_seqno e s then 1 else 0)" "int E \<le> INT_MAX"
  shows "within (int E) (abs_sys resolve t)" and "\<not> wraps_seqno e s"
proof -
  let ?a = "abs_sys resolve s" and ?b = "abs_sys resolve t"
  have "draws_seqno e s" if "wraps_seqno e s"
    using that by (auto simp: wraps_seqno_def draws_seqno_def split: event.splits client_pc.splits acquire_pc.splits)
  then show w: "\<not> wraps_seqno e s" using no_wrap [OF ok num] draw by fastforce
  have "int D \<le> int E" using draw(1) by simp
  note up = within_mono [OF _ this]
  have nd: "(if numbering ?a ?b then int D + 1 else int D) \<le> int E"
    using numbering_draws [OF step] draw(1) by simp
  consider "?b = ?a" | "pp_step ?a ?b" | "faulty e s" "pp_fault ?a ?b" using sys_refines [OF ok step] by blast
  then show "within (int E) ?b"
  proof cases
    case 3
    show ?thesis
    proof (cases "numbering ?a ?b")
      case True
      then have "draws_seqno e s" by (rule numbering_draws [OF step])
      then have "\<not> no_reply e \<and> \<not> loses_update e s"
        by (auto simp: draws_seqno_def loses_update_def split: event.splits)
      with w 3 show ?thesis by (simp add: faulty_def)
    next
      case False
      then show ?thesis using within_fault [OF 3(2) num] up by blast
    qed
  qed (use num up within_mono [OF within_step [OF _ num] nd] in auto)
qed

lemma run_within:
  assumes "sys_run einval resolve es s = Some t" and "shape_ok resolve s"
    and "within (int D) (abs_sys resolve s)" and "int (D + draws einval resolve es s) \<le> INT_MAX"
  shows "within (int (D + draws einval resolve es s)) (abs_sys resolve t)"
  using assms
proof (induction es arbitrary: s D)
  case (Cons e es)
  then obtain u where u: "sys_step einval resolve e s = Some u" "sys_run einval resolve es u = Some t"
    by (auto split: option.splits)
  let ?E = "D + (if draws_seqno e s then 1 else 0)"
  have ok: "sys_ok resolve s" using Cons.prems(2) by (simp add: shape_ok_def)
  have E: "D + draws einval resolve (e # es) s = ?E + draws einval resolve es u" using u(1) by simp
  with Cons.prems(4) have "int ?E \<le> INT_MAX" by linarith
  from within_sys_step(1) [OF ok u(1) Cons.prems(3) refl this]
  show ?case
    using Cons.IH [OF u(2) shape_step [OF Cons.prems(2) u(1)], of ?E] Cons.prems(4) unfolding E by simp
qed simp

lemma init_within: "sys_init s \<Longrightarrow> within 0 (abs_sys resolve s)"
  by (simp add: within_def abs_sys_def sys_init_def lvar_def new_lockvar_def)

end
