(* ===== verification/Lock_Runs.thy ===== *)
theory Lock_Runs
  imports Lock_Numbers
begin

text \<open>
  Runs in which every remote call returns with its reply, no update of a highest sequence number is
  lost and at most \<open>INT_MAX\<close> numbers are drawn are runs of the protocol: the interpretation of
  \<open>stuttering_refinement\<close>. No update is lost when a server is asked by one machine only, because the local
  mutex of a lock lets one thread of a machine ask at a time.
\<close>

section \<open>Runs one after the other\<close>

lemma sys_run_append:
  "sys_run einval resolve (es @ fs) s =
     (case sys_run einval resolve es s of None \<Rightarrow> None | Some u \<Rightarrow> sys_run einval resolve fs u)"
  by (induction es arbitrary: s) (auto split: option.splits)

lemma draws_append:
  "sys_run einval resolve es s = Some u \<Longrightarrow>
     draws einval resolve (es @ fs) s = draws einval resolve es s + draws einval resolve fs u"
  by (induction es arbitrary: s) (auto split: option.splits)

lemma race_free_append:
  "sys_run einval resolve es s = Some u \<Longrightarrow>
     race_free einval resolve (es @ fs) s \<longleftrightarrow> race_free einval resolve es s \<and> race_free einval resolve fs u"
  by (induction es arbitrary: s) (auto split: option.splits)

section \<open>Runs without faults\<close>

definition count_step :: "bool \<Rightarrow> (string \<Rightarrow> host option) \<Rightarrow> nat \<times> sys \<Rightarrow> nat \<times> sys \<Rightarrow> bool" where
  "count_step einval resolve a b \<longleftrightarrow> (\<exists>e. sys_step einval resolve e (snd a) = Some (snd b) \<and>
     \<not> no_reply e \<and> \<not> loses_update e (snd a) \<and>
     fst b = fst a + (if draws_seqno e (snd a) then 1 else 0) \<and> int (fst b) \<le> INT_MAX)"

definition count_ok :: "(string \<Rightarrow> host option) \<Rightarrow> nat \<times> sys \<Rightarrow> bool" where
  "count_ok resolve a \<longleftrightarrow> sys_ok resolve (snd a) \<and> within (int (fst a)) (abs_sys resolve (snd a))"

definition count_abs :: "(string \<Rightarrow> host option) \<Rightarrow> nat \<times> sys \<Rightarrow> proto" where
  "count_abs resolve a = abs_sys resolve (snd a)"

interpretation lock_refinement: stuttering_refinement pp_step pp_inv
  "count_step einval resolve" "count_ok resolve" "count_abs resolve"
  for einval resolve
proof unfold_locales
  fix a b
  assume a: "count_ok resolve a" "pp_inv (count_abs resolve a)" "count_step einval resolve a b"
  then obtain e where e: "sys_step einval resolve e (snd a) = Some (snd b)"
      "fst b = fst a + (if draws_seqno e (snd a) then 1 else 0)" "int (fst b) \<le> INT_MAX"
      "\<not> no_reply e" "\<not> loses_update e (snd a)"
    unfolding count_step_def by blast
  have ok: "sys_ok resolve (snd a)" "within (int (fst a)) (abs_sys resolve (snd a))" "inv_own (abs_sys resolve (snd a))"
    using a(1,2) by (simp_all add: count_ok_def count_abs_def pp_inv_def)
  note num = within_sys_step [OF ok(1) e(1) ok(2) e(2,3)]
  show "count_ok resolve b"
    using sys_ok_step [OF ok(1,3) e(1)] num(1) by (simp add: count_ok_def)
  show "count_abs resolve b = count_abs resolve a \<or> pp_step (count_abs resolve a) (count_abs resolve b)"
    using sys_refines [OF ok(1) e(1)] e(4,5) num(2) by (simp add: faulty_def count_abs_def)
qed

lemma run_counts:
  assumes "sys_run einval resolve es s = Some t" and "int (n + draws einval resolve es s) \<le> INT_MAX"
    and "\<not> list_ex no_reply es" and "race_free einval resolve es s"
  shows "(count_step einval resolve)\<^sup>*\<^sup>* (n, s) (n + draws einval resolve es s, t)"
  using assms
proof (induction es arbitrary: n s)
  case Nil
  then show ?case by simp
next
  case (Cons e es)
  then obtain u where u: "sys_step einval resolve e s = Some u" "sys_run einval resolve es u = Some t"
    by (auto split: option.splits)
  let ?m = "n + (if draws_seqno e s then 1 else 0)"
  have "count_step einval resolve (n, s) (?m, u)"
    using u Cons.prems(2-4) by (auto simp: count_step_def)
  moreover have "(count_step einval resolve)\<^sup>*\<^sup>* (?m, u) (?m + draws einval resolve es u, t)"
    using Cons.IH [OF u(2), of ?m] Cons.prems(2-4) u(1) by (simp add: add.assoc)
  ultimately show ?case using u(1) by (auto intro: converse_rtranclp_into_rtranclp)
qed

lemma run_abs:
  assumes "sys_run einval resolve es s = Some t" and "int (n + draws einval resolve es s) \<le> INT_MAX"
    and "\<not> list_ex no_reply es" and "race_free einval resolve es s"
    and "sys_ok resolve s" and "within (int n) (abs_sys resolve s)" and "pp_inv (abs_sys resolve s)"
  shows "sys_ok resolve t" and "pp_inv (abs_sys resolve t)"
    and "within (int (n + draws einval resolve es s)) (abs_sys resolve t)"
    and "pp_step\<^sup>*\<^sup>* (abs_sys resolve s) (abs_sys resolve t)"
  using lock_refinement.abs_run [OF run_counts [OF assms(1-4)]] assms(5-7)
  by (simp_all add: count_ok_def count_abs_def)

lemma run_ok:
  assumes "sys_init s" and "connected resolve s" and "sys_run einval resolve es s = Some t"
    and "int (draws einval resolve es s) \<le> INT_MAX" and "\<not> list_ex no_reply es"
    and "race_free einval resolve es s"
  shows "sys_ok resolve t" and "pp_inv (abs_sys resolve t)"
    and "within (int (draws einval resolve es s)) (abs_sys resolve t)"
  using run_abs [OF assms(3) _ assms(5,6), of 0] assms(4) init_ok [OF assms(1,2)] init_within [OF assms(1)] by simp_all

section \<open>One machine asking\<close>

text \<open>The threads that wait for one server are of one machine.\<close>

definition asks_alone :: "sys \<Rightarrow> bool" where
  "asks_alone s \<longleftrightarrow> (\<forall>c c' pc pc' r r'. cl_pc (clients s c) = Awaiting pc r \<longrightarrow>
     cl_pc (clients s c') = Awaiting pc' r' \<longrightarrow> hd_host (handlers s ! r) = hd_host (handlers s ! r') \<longrightarrow>
     cl_host (clients s c) = cl_host (clients s c'))"

lemma await_inv:
  assumes "sys_ok resolve s" and "phase (abs_sys resolve s) c = P_await L G r"
  shows "\<exists>pc. cl_pc (clients s c) = Awaiting pc r"
proof (cases "cl_pc (clients s c)")
  case (Awaiting pc r')
  then obtain p i where "pc = AQ_loop p (Suc i)" using assms(1) unfolding sys_ok_def calls_ok_def by blast
  with Awaiting assms(2) show ?thesis by (simp add: abs_proj)
next
  case (Acquiring pc)
  with assms(2) show ?thesis by (cases pc) (simp_all add: abs_proj)
next
  case (Releasing pc)
  with assms(2) show ?thesis by (cases pc) (simp_all add: abs_proj)
qed (use assms(2) in \<open>simp_all add: abs_proj\<close>)

lemma alone_single:
  assumes ok: "sys_ok resolve s" and inv: "pp_inv (abs_sys resolve s)" and alone: "asks_alone s"
  shows "single (abs_sys resolve s)"
  unfolding single_def
proof (intro allI impI)
  let ?a = "abs_sys resolve s"
  fix r r'
  assume r: "r < length (calls ?a)" "r' < length (calls ?a)" and v: "verdict (calls ?a ! r) \<noteq> Granted"
      "verdict (calls ?a ! r') \<noteq> Granted" and sp: "spot (calls ?a ! r) = spot (calls ?a ! r')"
  obtain c L G c' L' G' where c: "phase ?a c = P_await L G r" "phase ?a c' = P_await L' G' r'"
    using inv r v unfolding pp_inv_def inv_wait_def by blast
  have "call_lock (calls ?a ! r) = L" "call_lock (calls ?a ! r') = L'"
    using inv c unfolding pp_inv_def inv_call_def by blast+
  with sp have L: "L' = L" and at: "call_at (calls ?a ! r) = call_at (calls ?a ! r')" by (simp_all add: spot_def)
  obtain pc pc' where w: "cl_pc (clients s c) = Awaiting pc r" "cl_pc (clients s c') = Awaiting pc' r'"
    using await_inv [OF ok] c by metis
  from at r have "hd_host (handlers s ! r) = hd_host (handlers s ! r')" by (simp add: abs_proj abs_call_def)
  with alone w have "home ?a c = home ?a c'" unfolding asks_alone_def abs_proj by blast
  moreover have "owner (phase ?a c) L" "owner (phase ?a c') L" using c L by simp_all
  ultimately have "c = c'" using inv unfolding pp_inv_def inv_own_def by blast
  with c show "r = r'" by simp
qed

lemma fresh_keeps:
  assumes ok: "sys_ok resolve s" and "fresh (abs_sys resolve s)"
  shows "\<not> loses_update e s"
proof
  assume "loses_update e s"
  then obtain r p x where r: "r < length (handlers s)" "hd_pc (handlers s ! r) = RQ_store p x"
      "x < highestseqno (lockvar_list (servers s (hd_host (handlers s ! r))) ! p)"
    by (auto simp: loses_update_def split: event.splits request_pc.splits)
  have "ptrs_ok s" using ok by (simp add: sys_ok_def)
  from handler_at(3) [OF this r(1) _ refl refl, of p] r
  have "x < highestseqno (lvar (servers s (hd_host (handlers s ! r))) (pack_lock_number (hd_pack (handlers s ! r))))"
    by simp
  moreover have "verdict (calls (abs_sys resolve s) ! r) = Loaded x" using r by (simp add: abs_proj abs_call_def)
  moreover have "high (abs_sys resolve s) (spot (calls (abs_sys resolve s) ! r)) =
      highestseqno (lvar (servers s (hd_host (handlers s ! r))) (pack_lock_number (hd_pack (handlers s ! r))))"
    using r(1) by (simp add: abs_sys_def abs_call_def spot_def)
  ultimately show False using assms(2) r(1) unfolding fresh_def by (force simp: abs_proj(9))
qed

lemma alone_race_free:
  assumes "sys_run einval resolve es s = Some t" and "int (n + draws einval resolve es s) \<le> INT_MAX"
    and "\<not> list_ex no_reply es"
    and "sys_ok resolve s" and "within (int n) (abs_sys resolve s)" and "pp_inv (abs_sys resolve s)"
    and "fresh (abs_sys resolve s)"
    and "\<And>es1 es2 u. es = es1 @ es2 \<Longrightarrow> sys_run einval resolve es1 s = Some u \<Longrightarrow> asks_alone u"
  shows "race_free einval resolve es s"
  using assms
proof (induction es arbitrary: n s)
  case (Cons e es)
  then obtain u where u: "sys_step einval resolve e s = Some u" "sys_run einval resolve es u = Some t"
    by (auto split: option.splits)
  have lose: "\<not> loses_update e s" by (rule fresh_keeps [OF Cons.prems(4,7)])
  let ?m = "n + (if draws_seqno e s then 1 else 0)" and ?a = "abs_sys resolve s" and ?b = "abs_sys resolve u"
  have m: "?m + draws einval resolve es u = n + draws einval resolve (e # es) s" using u(1) by simp
  then have "int ?m \<le> INT_MAX" using Cons.prems(2) by linarith
  note num = within_sys_step [OF Cons.prems(4) u(1) Cons.prems(5) refl this]
  have "?b = ?a \<or> pp_step ?a ?b"
    using sys_refines [OF Cons.prems(4) u(1)] Cons.prems(3) lose num(2) by (simp add: faulty_def)
  moreover have "single ?a"
    using Cons.prems(8) [of "[]" "e # es" s] by (intro alone_single [OF Cons.prems(4,6)]) simp
  ultimately have b: "pp_inv ?b" "fresh ?b"
    using pp_inv_step [OF Cons.prems(6)] fresh_step [OF _ _ Cons.prems(7)] Cons.prems(6,7) by metis+
  have "sys_ok resolve u"
    using sys_ok_step [OF Cons.prems(4) _ u(1)] Cons.prems(6) by (simp add: pp_inv_def)
  moreover have "asks_alone v" if "es = es1 @ es2" "sys_run einval resolve es1 u = Some v" for es1 es2 v
    using Cons.prems(8) [of "e # es1" es2 v] that u(1) by simp
  ultimately have "race_free einval resolve es u"
    using Cons.IH [OF u(2), of ?m] Cons.prems(2,3) num(1) b unfolding m by simp
  then show ?case using lose u(1) by simp
qed simp

lemma init_race_free:
  assumes "sys_init s" and "connected resolve s" and "sys_run einval resolve es s = Some t"
    and "int (draws einval resolve es s) \<le> INT_MAX" and "\<not> list_ex no_reply es"
    and "\<And>es1 es2 u. es = es1 @ es2 \<Longrightarrow> sys_run einval resolve es1 s = Some u \<Longrightarrow> asks_alone u"
  shows "race_free einval resolve es s"
proof (rule alone_race_free [where n = 0])
  show "fresh (abs_sys resolve s)" using assms(1) by (simp add: fresh_def abs_proj sys_init_def)
qed (use assms init_ok [OF assms(1,2)] init_within [OF assms(1)] in auto)

text \<open>Every server is asked by one machine: so it is in a cluster of two.\<close>

definition one_asker :: "(string \<Rightarrow> host option) \<Rightarrow> sys \<Rightarrow> bool" where
  "one_asker resolve s \<longleftrightarrow> (\<forall>h \<in> set (cluster s). \<forall>h' \<in> set (cluster s).
     \<forall>a \<in> set (nodes (servers s h)). \<forall>a' \<in> set (nodes (servers s h')).
       resolve a \<noteq> None \<longrightarrow> resolve a = resolve a' \<longrightarrow> h = h')"

lemma one_asker_alone:
  assumes "sys_ok resolve s" and "one_asker resolve s"
  shows "asks_alone s"
  unfolding asks_alone_def
proof (intro allI impI)
  fix c c' pc pc' r r'
  assume w: "cl_pc (clients s c) = Awaiting pc r" "cl_pc (clients s c') = Awaiting pc' r'"
    and h: "hd_host (handlers s ! r) = hd_host (handlers s ! r')"
  have at: "cl_host (clients s k) \<in> set (cluster s)" for k using assms(1) by (simp add: sys_ok_def connected_def)
  have node: "\<exists>a \<in> set (nodes (servers s (cl_host (clients s k)))). resolve a = Some (hd_host (handlers s ! q))"
    if "cl_pc (clients s k) = Awaiting kpc q" for k kpc q
    using assms(1) that unfolding sys_ok_def calls_ok_def by (metis nth_mem)
  from node [OF w(1)] node [OF w(2)] h at assms(2) show "cl_host (clients s c) = cl_host (clients s c')"
    unfolding one_asker_def by (metis option.distinct(1))
qed

lemma one_asker_grows: "sys_grows s t \<Longrightarrow> one_asker resolve s \<Longrightarrow> one_asker resolve t"
  by (simp add: one_asker_def sys_grows_def evolves_def)

lemma sys_grows_trans: "sys_grows s t \<Longrightarrow> sys_grows t u \<Longrightarrow> sys_grows s u"
  unfolding sys_grows_def evolves_def by (auto intro: order_trans)

lemma run_grows:
  "sys_run einval resolve es s = Some t \<Longrightarrow> shape_ok resolve s \<Longrightarrow> sys_grows s t"
proof (induction es arbitrary: s)
  case Nil
  then show ?case by (simp add: sys_grows_def shape_ok_def sys_ok_def ptrs_ok_def evolves_refl)
next
  case (Cons e es)
  then obtain u where u: "sys_step einval resolve e s = Some u" "sys_run einval resolve es u = Some t"
    by (auto split: option.splits)
  have "sys_grows s u" using sys_step_grows [OF _ u(1)] Cons.prems(2) by (simp add: shape_ok_def)
  with Cons.IH [OF u(2) shape_step [OF Cons.prems(2) u(1)]] show ?case by (blast intro: sys_grows_trans)
qed

lemma one_asker_race_free:
  assumes "sys_init s" and "connected resolve s" and "sys_run einval resolve es s = Some t"
    and "int (draws einval resolve es s) \<le> INT_MAX" and "\<not> list_ex no_reply es"
    and "one_asker resolve s"
  shows "race_free einval resolve es s"
proof (rule init_race_free [OF assms(1-5)])
  fix es1 u assume u: "sys_run einval resolve es1 s = Some u"
  have "shape_ok resolve s" using init_ok [OF assms(1,2)] by (simp add: shape_ok_def pp_inv_def)
  from run_grows [OF u this] run_shape [OF assms(1,2) u] assms(6) show "asks_alone u"
    by (intro one_asker_alone [of resolve]) (auto simp: shape_ok_def intro: one_asker_grows)
qed

section \<open>Two threads never hold one lock\<close>

lemma exclusive_run:
  assumes "sys_init s" and "connected resolve s" and "sys_run einval resolve es s = Some t"
    and "int (draws einval resolve es s) \<le> INT_MAX" and "\<not> list_ex no_reply es"
    and "one_asker resolve s \<or> race_free einval resolve es s"
    and "holds_lock t c n" and "holds_lock t c' n"
  shows "c' = c"
proof (rule pp_exclusive)
  have "race_free einval resolve es s" using assms(6) one_asker_race_free [OF assms(1-5)] by blast
  with assms(1-5) show "pp_inv (abs_sys resolve t)" by (rule run_ok)
  show "phase (abs_sys resolve t) c' = P_cs n (reached resolve (servers t (cl_host (clients t c')))
      (length (nodes (servers t (cl_host (clients t c'))))))"
    using assms(8) by (simp add: holds_lock_def abs_proj)
  show "phase (abs_sys resolve t) c = P_cs n (reached resolve (servers t (cl_host (clients t c)))
      (length (nodes (servers t (cl_host (clients t c))))))"
    using assms(7) by (simp add: holds_lock_def abs_proj)
qed

end
