(* ===== verification/Lock_Sequential.thy ===== *)
theory Lock_Sequential
  imports Lock_Server
begin

text \<open>
  The remote procedures of the lock server executed by a thread that no other thread
  interferes with, from their first statement to the point where they return, sleep, abort
  or issue a remote call. The number of statements is bounded by a budget; the lemmas show
  which budget is enough.
\<close>

section \<open>Uninterrupted execution\<close>

datatype 'pc halt =
    Returned server
  | Blocked 'pc server
  | Calling string RequestPack 'pc server
  | Aborted server
  | Running 'pc server

fun run_alone :: "nat \<Rightarrow> ('pc \<Rightarrow> server \<Rightarrow> 'pc reaction) \<Rightarrow> 'pc \<Rightarrow> server \<Rightarrow> 'pc halt" where
  "run_alone 0 step pc srv = Running pc srv"
| "run_alone (Suc k) step pc srv =
     (case step pc srv of
        Go pc' srv' \<Rightarrow> run_alone k step pc' srv'
      | Call addr pack pc' \<Rightarrow> Calling addr pack pc' srv
      | Sleep \<Rightarrow> Blocked pc srv
      | Abort \<Rightarrow> Aborted srv
      | Return \<Rightarrow> Returned srv)"

definition request_1_svc :: "bool \<Rightarrow> RequestPack \<Rightarrow> server \<Rightarrow> request_pc halt" where
  "request_1_svc einval pack srv = run_alone 10 (request_step einval pack) RQ_find srv"

definition acquire_lock_1_svc :: "bool \<Rightarrow> int \<Rightarrow> server \<Rightarrow> acquire_pc halt" where
  "acquire_lock_1_svc einval n srv = run_alone 7 (acquire_step einval n) AQ_find srv"

definition release_lock_1_svc :: "int \<Rightarrow> server \<Rightarrow> release_pc halt" where
  "release_lock_1_svc n srv =
     run_alone (2 * length (deffered (lvar srv n)) + 5) (release_step n) RL_find srv"

section \<open>A server in use\<close>

definition sample_server :: server where
  "sample_server =
     \<lparr>nodes = [''B''], mac = 5, has_initialized = True,
      lockvar_list = [\<lparr>lock = \<lparr>mx_locked = True, mx_destroyed = False\<rparr>, lock_number = 7,
        myseqno = 3, highestseqno = 4, requesting_cs = True, deffered = [0]\<rparr>],
      mutexes = [\<lparr>mx_locked = True, mx_destroyed = False\<rparr>]\<rparr>"

lemma sample_ok: "table_ok sample_server" "ptr_ok sample_server 0 7"
  by (simp_all add: sample_server_def table_ok_def ptr_ok_def)

lemma sample_fields:
  "lvar sample_server 7 = \<lparr>lock = \<lparr>mx_locked = True, mx_destroyed = False\<rparr>, lock_number = 7,
     myseqno = 3, highestseqno = 4, requesting_cs = True, deffered = [0]\<rparr>"
  "lvar sample_server 8 = new_lockvar 8" "mac sample_server = 5" "nodes sample_server = [''B'']"
  "mutexes sample_server = [\<lparr>mx_locked = True, mx_destroyed = False\<rparr>]"
  by (simp_all add: sample_server_def lvar_def)

section \<open>request\_1\_svc\<close>

lemma must_defer_stamp:
  "must_defer pack my v \<longleftrightarrow>
     requesting_cs v \<and> Stamp (myseqno v) my < Stamp (pack_seqno pack) (pack_mac pack)"
  by (auto simp: must_defer_def)

lemma must_defer_highest [simp]:
  "must_defer pack my (v\<lparr>highestseqno := k\<rparr>) = must_defer pack my v"
  by (simp add: must_defer_def)

lemma find_lockvar_create_pair:
  obtains p srv' where "find_lockvar n True srv = (Some p, srv')" and "ptr_ok srv' p n"
    and "mac srv' = mac srv" and "nodes srv' = nodes srv" and "mutexes srv' = mutexes srv"
    and "lvar srv' = lvar srv" and "table_ok srv \<Longrightarrow> table_ok srv'"
    and "\<And>q j. ptr_ok srv q j \<Longrightarrow> ptr_ok srv' q j"
proof -
  obtain p where p: "fst (find_lockvar n True srv) = Some p"
      "ptr_ok (snd (find_lockvar n True srv)) p n"
    using find_lockvar_create by blast
  then have "find_lockvar n True srv = (Some p, snd (find_lockvar n True srv))"
    by (simp add: prod_eq_iff)
  from that [OF this p(2)] show ?thesis by (simp add: lvar_find table_ok_find ptr_ok_find)
qed

definition note_request :: "RequestPack \<Rightarrow> LockVar \<Rightarrow> LockVar" where
  "note_request pack v = v\<lparr>highestseqno := max (pack_seqno pack) (highestseqno v)\<rparr>"

lemma request_after_find:
  assumes "table_ok s1" and "ptr_ok s1 p n" and "find_lockvar n True srv = (Some p, s1)"
    and "n = pack_lock_number pack"
  shows "request_1_svc einval pack srv =
    (let s2 = upd_lockvar p (note_request pack) s1; m = length (mutexes s1) in
     if must_defer pack (mac s1) (lvar s1 n)
     then Blocked (RQ_blocked m)
       (upd_mutex m (\<lambda>x. x\<lparr>mx_locked := True\<rparr>)
         (upd_lockvar p (\<lambda>v. v\<lparr>deffered := deffered v @ [m]\<rparr>)
           (s2\<lparr>mutexes := mutexes s2 @ [pthread_mutex_init]\<rparr>)))
     else Returned s2)"
proof -
  have f: "upd_lockvar p (\<lambda>v. v\<lparr>highestseqno := max (pack_seqno pack) (highestseqno (lockvar_list s1 ! p))\<rparr>) s1 =
      upd_lockvar p (note_request pack) s1"
    by (rule upd_lockvar_cong) (simp add: note_request_def)
  have "lockvar_list (upd_lockvar p (note_request pack) s1) ! p = note_request pack (lvar s1 n)"
    using assms(1,2) by (simp add: upd_lockvar_def ptr_ok_def lvar_ptr)
  then show ?thesis
    using assms(3,4) unfolding request_1_svc_def
    by (simp add: eval_nat_numeral Let_def pthread_defs f upd_mutex_def note_request_def must_defer_def)
qed

lemma request_alone:
  assumes tab: "table_ok srv" and n: "n = pack_lock_number pack"
  shows "\<exists>srv'. request_1_svc einval pack srv =
      (if must_defer pack (mac srv) (lvar srv n) then Blocked (RQ_blocked (length (mutexes srv))) srv'
       else Returned srv') \<and>
    lvar srv' = (lvar srv)(n := (lvar srv n)
      \<lparr>highestseqno := max (pack_seqno pack) (highestseqno (lvar srv n)),
       deffered := deffered (lvar srv n) @
         (if must_defer pack (mac srv) (lvar srv n) then [length (mutexes srv)] else [])\<rparr>) \<and>
    mutexes srv' = mutexes srv @ (if must_defer pack (mac srv) (lvar srv n)
      then [\<lparr>mx_locked = True, mx_destroyed = False\<rparr>] else []) \<and>
    table_ok srv' \<and> mac srv' = mac srv \<and> nodes srv' = nodes srv \<and>
    (\<forall>q j. ptr_ok srv q j \<longrightarrow> ptr_ok srv' q j)"
proof -
  obtain p s1 where s1: "find_lockvar n True srv = (Some p, s1)" "ptr_ok s1 p n"
      "mac s1 = mac srv" "nodes s1 = nodes srv" "mutexes s1 = mutexes srv" "lvar s1 = lvar srv"
      "table_ok s1" "\<And>q j. ptr_ok srv q j \<Longrightarrow> ptr_ok s1 q j"
    using find_lockvar_create_pair [of n srv] tab by metis
  let ?s2 = "upd_lockvar p (note_request pack) s1" and ?m = "length (mutexes srv)"
  have nr: "lock_number (note_request pack v) = lock_number v" for v
    by (simp add: note_request_def)
  have s2: "ptr_ok ?s2 p n" "table_ok ?s2" "lvar ?s2 = (lvar srv)(n := note_request pack (lvar srv n))"
      "\<And>q j. ptr_ok srv q j \<Longrightarrow> ptr_ok ?s2 q j"
    using s1 lvar_upd [of s1 p n "note_request pack"] nr by (simp_all add: ptr_ok_upd table_ok_upd)
  let ?s3 = "?s2\<lparr>mutexes := mutexes ?s2 @ [pthread_mutex_init]\<rparr>"
  let ?s4 = "upd_lockvar p (\<lambda>v. v\<lparr>deffered := deffered v @ [?m]\<rparr>) ?s3"
  have s4: "lvar ?s4 = (lvar ?s3)(n := (lvar ?s3 n)\<lparr>deffered := deffered (lvar ?s3 n) @ [?m]\<rparr>)"
      "table_ok ?s4" "\<And>q j. ptr_ok srv q j \<Longrightarrow> ptr_ok ?s4 q j"
    using s2 by (simp_all add: lvar_upd table_ok_upd ptr_ok_upd)
  show ?thesis
  proof (cases "must_defer pack (mac srv) (lvar srv n)")
    case True
    let ?t = "upd_mutex ?m (\<lambda>x. x\<lparr>mx_locked := True\<rparr>) ?s4"
    have "mutexes ?t = mutexes srv @ [\<lparr>mx_locked = True, mx_destroyed = False\<rparr>]"
      using s1(5) by (simp add: upd_mutex_def pthread_mutex_init_def upd_lockvar_def nth_append)
    then show ?thesis
      using request_after_find [OF s1(7,2,1) n, of einval] s1(3-6) True s2(3) s4
      by (intro exI [of _ ?t]) (simp add: note_request_def Let_def)
  next
    case False
    then show ?thesis
      using request_after_find [OF s1(7,2,1) n, of einval] s1(3-6) s2(2-4)
      by (intro exI [of _ ?s2]) (simp add: note_request_def Let_def)
  qed
qed

text \<open>
  C17. A request served by an undisturbed thread, on every branch: the highest number seen is
  raised to the request's, whatever the answer. The reply is withheld exactly when the
  server requests the lock itself with a stamp (sequence number, then hardware address) that
  comes first; then one locked mutex is appended to the deferred list and the thread sleeps
  on it, otherwise the procedure returns and changes nothing else.
\<close>

theorem request_1_svc_behaviour:
  fixes pack :: RequestPack
  defines "n \<equiv> pack_lock_number pack"
  assumes tab: "table_ok srv"
  shows "\<exists>srv'. request_1_svc einval pack srv =
      (if must_defer pack (mac srv) (lvar srv n) then Blocked (RQ_blocked (length (mutexes srv))) srv'
       else Returned srv') \<and>
    lvar srv' = (lvar srv)(n := (lvar srv n)
      \<lparr>highestseqno := max (pack_seqno pack) (highestseqno (lvar srv n)),
       deffered := deffered (lvar srv n) @
         (if must_defer pack (mac srv) (lvar srv n) then [length (mutexes srv)] else [])\<rparr>) \<and>
    mutexes srv' = mutexes srv @ (if must_defer pack (mac srv) (lvar srv n)
      then [\<lparr>mx_locked = True, mx_destroyed = False\<rparr>] else []) \<and>
    table_ok srv' \<and> mac srv' = mac srv \<and> nodes srv' = nodes srv"
  using request_alone [OF tab meta_eq_to_obj_eq [OF n_def], of einval] by blast

theorem request_1_svc_witness:
  "(\<exists>srv'. request_1_svc True \<lparr>pack_lock_number = 7, pack_seqno = 3, pack_mac = 9\<rparr> sample_server =
      Blocked (RQ_blocked 1) srv' \<and> deffered (lvar srv' 7) = [0, 1] \<and> highestseqno (lvar srv' 7) = 4) \<and>
   (\<exists>srv'. request_1_svc True \<lparr>pack_lock_number = 7, pack_seqno = 3, pack_mac = 2\<rparr> sample_server =
      Returned srv' \<and> deffered (lvar srv' 7) = [0])"
  using request_1_svc_behaviour [OF sample_ok(1), of True "\<lparr>pack_lock_number = 7, pack_seqno = 3, pack_mac = 9\<rparr>"]
    request_1_svc_behaviour [OF sample_ok(1), of True "\<lparr>pack_lock_number = 7, pack_seqno = 3, pack_mac = 2\<rparr>"]
  by (auto simp: sample_fields must_defer_def)

section \<open>release\_lock\_1\_svc\<close>

definition wake_all :: "nat list \<Rightarrow> server \<Rightarrow> server" where
  "wake_all ds srv =
     fold (\<lambda>m. upd_mutex m (\<lambda>x. pthread_mutex_destroy (pthread_mutex_unlock x))) ds srv"

lemma upd_mutex_twice: "upd_mutex m g (upd_mutex m f srv) = upd_mutex m (\<lambda>x. g (f x)) srv"
  by (cases "m < length (mutexes srv)") (simp_all add: upd_mutex_def list_update_beyond)

lemma wake_all_simps [simp]:
  "lockvar_list (wake_all ds srv) = lockvar_list srv" "mac (wake_all ds srv) = mac srv"
  "nodes (wake_all ds srv) = nodes srv"
  "length (mutexes (wake_all ds srv)) = length (mutexes srv)"
  by (induction ds arbitrary: srv) (simp_all add: wake_all_def)

lemma wake_all_mutex:
  "m < length (mutexes srv) \<Longrightarrow> mutexes (wake_all ds srv) ! m =
     (if m \<in> set ds then \<lparr>mx_locked = False, mx_destroyed = True\<rparr> else mutexes srv ! m)"
proof (induction ds arbitrary: srv)
  case Nil
  then show ?case by (simp add: wake_all_def)
next
  case (Cons d ds)
  let ?f = "\<lambda>x. pthread_mutex_destroy (pthread_mutex_unlock x)"
  have "mutexes (wake_all ds (upd_mutex d ?f srv)) ! m =
      (if m \<in> set ds then \<lparr>mx_locked = False, mx_destroyed = True\<rparr>
       else mutexes (upd_mutex d ?f srv) ! m)"
    using Cons by simp
  then show ?case
    using Cons.prems by (auto simp: wake_all_def upd_mutex_def pthread_defs nth_list_update)
qed

lemma release_loop:
  assumes "length (deffered (lockvar_list srv ! p)) = i + k"
  shows "run_alone (2 * k + j + 1) (release_step n) (RL_loop p i) srv =
     run_alone j (release_step n) (RL_reset p)
       (wake_all (drop i (deffered (lockvar_list srv ! p))) srv)"
  using assms
proof (induction k arbitrary: i srv)
  case 0
  then show ?case by (simp add: wake_all_def)
next
  case (Suc k)
  let ?d = "deffered (lockvar_list srv ! p)"
  let ?srv = "upd_mutex (?d ! i) (\<lambda>x. pthread_mutex_destroy (pthread_mutex_unlock x)) srv"
  have i: "i < length ?d" using Suc.prems by simp
  then have d: "drop i ?d = ?d ! i # drop (Suc i) ?d" by (rule Cons_nth_drop_Suc [symmetric])
  have "run_alone (2 * Suc k + j + 1) (release_step n) (RL_loop p i) srv =
      run_alone (2 * k + j + 1) (release_step n) (RL_loop p (Suc i)) ?srv"
    using i by (simp add: upd_mutex_twice)
  also have "\<dots> = run_alone j (release_step n) (RL_reset p) (wake_all (drop (Suc i) ?d) ?srv)"
    using Suc.IH [of ?srv "Suc i"] Suc.prems by simp
  also have "wake_all (drop (Suc i) ?d) ?srv = wake_all (drop i ?d) srv"
    by (simp add: wake_all_def d)
  finally show ?case .
qed

lemma release_alone:
  assumes tab: "table_ok srv" and ptr: "ptr_ok srv p n"
  shows "\<exists>srv'. release_lock_1_svc n srv = Returned srv' \<and>
    lvar srv' = (lvar srv)(n := (lvar srv n)
      \<lparr>deffered := [], lock := pthread_mutex_unlock (lock (lvar srv n))\<rparr>) \<and>
    length (mutexes srv') = length (mutexes srv) \<and>
    (\<forall>m < length (mutexes srv). mutexes srv' ! m =
       (if m \<in> set (deffered (lvar srv n)) then \<lparr>mx_locked = False, mx_destroyed = True\<rparr>
        else mutexes srv ! m)) \<and>
    table_ok srv' \<and> mac srv' = mac srv \<and> nodes srv' = nodes srv"
proof -
  let ?d = "deffered (lvar srv n)"
  let ?s1 = "wake_all ?d srv"
  let ?s2 = "upd_lockvar p (\<lambda>v. v\<lparr>deffered := []\<rparr>) ?s1"
  let ?s3 = "upd_lockvar p (\<lambda>v. v\<lparr>lock := pthread_mutex_unlock (lock v)\<rparr>) ?s2"
  have at: "lockvar_list srv ! p = lvar srv n" using tab ptr by (rule lvar_ptr)
  have "release_lock_1_svc n srv =
      run_alone (2 * length ?d + 3 + 1) (release_step n) (RL_loop p 0) srv"
    using find_lockvar_ptr [OF tab ptr] by (simp add: release_lock_1_svc_def eval_nat_numeral)
  also have "\<dots> = run_alone 3 (release_step n) (RL_reset p) ?s1"
    using release_loop [of srv p 0 "length ?d" 3 n] at by simp
  also have "\<dots> = Returned ?s3" by (simp add: eval_nat_numeral)
  finally have run: "release_lock_1_svc n srv = Returned ?s3" .
  have "lvar ?s1 = lvar srv" by (rule lvar_cong) simp
  then have s1: "table_ok ?s1" "ptr_ok ?s1 q k \<longleftrightarrow> ptr_ok srv q k" "lvar ?s1 = lvar srv" for q k
    using tab by (simp_all add: table_ok_def ptr_ok_def)
  have s2: "table_ok ?s2" "ptr_ok ?s2 p n"
      "lvar ?s2 = (lvar srv)(n := (lvar srv n)\<lparr>deffered := []\<rparr>)"
    using s1 ptr by (simp_all add: table_ok_upd ptr_ok_upd lvar_upd)
  have "table_ok ?s3" "lvar ?s3 = (lvar srv)(n := (lvar srv n)
      \<lparr>deffered := [], lock := pthread_mutex_unlock (lock (lvar srv n))\<rparr>)"
    using s2 by (simp_all add: table_ok_upd lvar_upd)
  then show ?thesis using run by (intro exI [of _ ?s3]) (simp add: wake_all_mutex)
qed

text \<open>
  C18. A release returns after two statements per deferred request: it unlocks and destroys the
  mutex of every deferred request of this lock and of no other, empties the deferred list and
  unlocks the local mutex. Sequence numbers and the flag \<open>requesting_cs\<close> are left as they
  were.
\<close>

theorem release_1_svc_behaviour:
  assumes tab: "table_ok srv" and ptr: "ptr_ok srv p n"
  shows "\<exists>srv'. release_lock_1_svc n srv = Returned srv' \<and>
    lvar srv' = (lvar srv)(n := (lvar srv n)
      \<lparr>deffered := [], lock := pthread_mutex_unlock (lock (lvar srv n))\<rparr>) \<and>
    length (mutexes srv') = length (mutexes srv) \<and>
    (\<forall>m < length (mutexes srv). mutexes srv' ! m =
       (if m \<in> set (deffered (lvar srv n)) then \<lparr>mx_locked = False, mx_destroyed = True\<rparr>
        else mutexes srv ! m)) \<and>
    table_ok srv' \<and> mac srv' = mac srv \<and> nodes srv' = nodes srv"
  using assms by (rule release_alone)

theorem release_1_svc_witness:
  "\<exists>srv'. release_lock_1_svc 7 sample_server = Returned srv' \<and> deffered (lvar srv' 7) = [] \<and>
     requesting_cs (lvar srv' 7) \<and> mutexes srv' ! 0 = \<lparr>mx_locked = False, mx_destroyed = True\<rparr>"
  using release_1_svc_behaviour [OF sample_ok]
  by (auto simp: sample_fields)

text \<open>Releasing a lock number that no acquire or request has named fails the assertion.\<close>

theorem release_unknown_aborts:
  "(\<And>p. \<not> ptr_ok srv p n) \<Longrightarrow> release_lock_1_svc n srv = Aborted srv"
  by (simp add: release_lock_1_svc_def find_lockvar_absent eval_nat_numeral)

theorem release_unknown_aborts_witness:
  "release_lock_1_svc 8 sample_server = Aborted sample_server"
  by (rule release_unknown_aborts) (simp add: sample_server_def ptr_ok_def nth_Cons')

section \<open>acquire\_lock\_1\_svc\<close>

lemma acquire_alone:
  assumes tab: "table_ok srv" and free: "\<not> mx_locked (lock (lvar srv n))"
    and alive: "\<not> mx_destroyed (lock (lvar srv n))"
  shows "\<exists>p srv'. acquire_lock_1_svc einval n srv =
      (if nodes srv = [] then Returned srv'
       else Calling (nodes srv ! 0) \<lparr>pack_lock_number = n, pack_seqno = c_int (highestseqno (lvar srv n) + 1),
              pack_mac = mac srv\<rparr> (AQ_loop p 1) srv') \<and>
    lvar srv' = (lvar srv)(n := (lvar srv n)
      \<lparr>lock := (lock (lvar srv n))\<lparr>mx_locked := True\<rparr>, requesting_cs := True,
       myseqno := c_int (highestseqno (lvar srv n) + 1)\<rparr>) \<and>
    ptr_ok srv' p n \<and> table_ok srv' \<and> mutexes srv' = mutexes srv \<and> mac srv' = mac srv \<and>
    nodes srv' = nodes srv"
proof -
  obtain p s1 where s1: "find_lockvar n True srv = (Some p, s1)" "ptr_ok s1 p n"
      "mac s1 = mac srv" "nodes s1 = nodes srv" "mutexes s1 = mutexes srv" "lvar s1 = lvar srv"
      "table_ok s1"
    using find_lockvar_create_pair [of n srv] tab by metis
  let ?x = "(lock (lvar srv n))\<lparr>mx_locked := True\<rparr>"
  let ?s2 = "upd_lockvar p (\<lambda>v. v\<lparr>lock := ?x\<rparr>) s1"
  let ?s3 = "upd_lockvar p (\<lambda>v. v\<lparr>requesting_cs := True\<rparr>) ?s2"
  let ?s4 = "upd_lockvar p (\<lambda>v. v\<lparr>myseqno := c_int (highestseqno (lockvar_list ?s3 ! p) + 1)\<rparr>) ?s3"
  have s2: "table_ok ?s2" "ptr_ok ?s2 p n" "lvar ?s2 = (lvar srv)(n := (lvar srv n)\<lparr>lock := ?x\<rparr>)"
    using s1 by (simp_all add: table_ok_upd ptr_ok_upd lvar_upd)
  have s3: "table_ok ?s3" "ptr_ok ?s3 p n"
      "lvar ?s3 = (lvar srv)(n := (lvar srv n)\<lparr>lock := ?x, requesting_cs := True\<rparr>)"
    using s2 by (simp_all add: table_ok_upd ptr_ok_upd lvar_upd)
  have s4: "table_ok ?s4" "ptr_ok ?s4 p n" "lvar ?s4 = (lvar srv)(n := (lvar srv n)
      \<lparr>lock := ?x, requesting_cs := True, myseqno := c_int (highestseqno (lvar srv n) + 1)\<rparr>)"
    using s3 lvar_ptr [OF s3(1,2)] by (simp_all add: table_ok_upd ptr_ok_upd lvar_upd)
  have "lock (lockvar_list s1 ! p) = lock (lvar srv n)"
    using lvar_ptr [OF s1(7,2)] s1(6) by simp
  then have "acquire_lock_1_svc einval n srv = run_alone 2 (acquire_step einval n) (AQ_loop p 0) ?s4"
    using s1(1) free alive by (simp add: acquire_lock_1_svc_def eval_nat_numeral pthread_defs)
  then have "acquire_lock_1_svc einval n srv = (if nodes srv = [] then Returned ?s4
       else Calling (nodes srv ! 0) \<lparr>pack_lock_number = n, pack_seqno = c_int (highestseqno (lvar srv n) + 1),
              pack_mac = mac srv\<rparr> (AQ_loop p 1) ?s4)"
    using s1(3,4) lvar_ptr [OF s4(1,2)] s4(3) by (simp add: eval_nat_numeral)
  then show ?thesis
    using s1(3-5) s4 by (intro exI [of _ p] exI [of _ ?s4]) simp
qed

text \<open>
  C19. An acquire that finds the local mutex free takes it, raises the flag, draws the number
  after the highest one seen (with the wrap-around of a C \<open>int\<close>) and, in this order, either
  returns because there is no other node or sends its first request with that number and
  its hardware address.
\<close>

theorem acquire_1_svc_behaviour:
  assumes tab: "table_ok srv" and free: "\<not> mx_locked (lock (lvar srv n))"
    and alive: "\<not> mx_destroyed (lock (lvar srv n))"
  shows "\<exists>p srv'. acquire_lock_1_svc einval n srv =
      (if nodes srv = [] then Returned srv'
       else Calling (nodes srv ! 0) \<lparr>pack_lock_number = n, pack_seqno = c_int (highestseqno (lvar srv n) + 1),
              pack_mac = mac srv\<rparr> (AQ_loop p 1) srv') \<and>
    lvar srv' = (lvar srv)(n := (lvar srv n)
      \<lparr>lock := (lock (lvar srv n))\<lparr>mx_locked := True\<rparr>, requesting_cs := True,
       myseqno := c_int (highestseqno (lvar srv n) + 1)\<rparr>) \<and>
    ptr_ok srv' p n \<and> table_ok srv' \<and> mutexes srv' = mutexes srv \<and> mac srv' = mac srv \<and>
    nodes srv' = nodes srv"
  using assms by (rule acquire_alone)

theorem acquire_1_svc_witness:
  "\<exists>p srv'. acquire_lock_1_svc True 8 sample_server =
     Calling ''B'' \<lparr>pack_lock_number = 8, pack_seqno = 1, pack_mac = 5\<rparr> (AQ_loop p 1) srv' \<and>
     requesting_cs (lvar srv' 8)"
  using acquire_1_svc_behaviour [OF sample_ok(1), of 8 True]
  by (auto simp: sample_fields new_lockvar_def pthread_defs c_int_def)

end
