(* ===== verification/Lock_Properties.thy ===== *)
theory Lock_Properties
  imports Lock_Runs Lock_Sequential
begin

text \<open>
  What the lock managers guarantee. The safety properties hold for every cluster and every
  interleaving under the conditions their statements name; a run of three machines shows what a lost
  update does to mutual exclusion.
\<close>

section \<open>A cluster of two machines\<close>

definition demo_server :: "string \<Rightarrow> u64 \<Rightarrow> server" where
  "demo_server peer m =
     \<lparr>nodes = [peer], mac = m, has_initialized = True, lockvar_list = [], mutexes = []\<rparr>"

definition demo_resolve :: "string \<Rightarrow> host option" where
  "demo_resolve a = (if a = ''A'' then Some 0 else if a = ''B'' then Some 1 else None)"

definition demo_sys :: sys where
  "demo_sys = \<lparr>cluster = [0, 1],
     servers = (\<lambda>h. if h = 0 then demo_server ''B'' 1 else demo_server ''A'' 2),
     exited = (\<lambda>h. False),
     clients = (\<lambda>c. \<lparr>cl_host = (if c = 0 then 0 else 1), cl_number = 0, cl_pc = Idle\<rparr>),
     handlers = []\<rparr>"

text \<open>Client 0 obtains lock 7 while client 1 on the other machine asks for it and is deferred.\<close>

definition demo_contention :: "event list" where
  "demo_contention =
     Start 0 7 # replicate 6 (Client 0) @ replicate 4 (Handler 0) @ replicate 3 (Client 0) @
     Start 1 7 # replicate 6 (Client 1) @ replicate 8 (Handler 1)"

definition after :: "event list \<Rightarrow> sys" where
  "after es = the (sys_run True demo_resolve es demo_sys)"

lemma demo_init: "sys_init demo_sys"
  by (simp add: sys_init_def demo_sys_def demo_server_def)

lemma demo_connected: "connected demo_resolve demo_sys"
  by (auto simp: connected_def demo_sys_def demo_server_def demo_resolve_def inj_on_def)

lemmas demo_defs = demo_sys_def demo_server_def demo_resolve_def client_step_def handler_step_def
  set_pc_def set_server_def set_exited_def find_lockvar_def new_lockvar_def upd_lockvar_def
  upd_mutex_def must_defer_def pthread_defs c_int_def

lemmas run_defs = replicate_Suc eval_nat_numeral Let_def draws_seqno_def loses_update_def

lemma demo_contention_runs: "sys_run True demo_resolve demo_contention demo_sys = Some (after demo_contention)"
  by (simp add: after_def demo_contention_def demo_defs run_defs)

lemma demo_draws: "draws True demo_resolve demo_contention demo_sys = 2"
  by (simp add: demo_contention_def demo_defs run_defs)

lemma demo_holds: "holds_lock (after demo_contention) 0 7"
  by (simp add: holds_lock_def after_def demo_contention_def demo_defs run_defs)

lemma demo_waits: "cl_pc (clients (after demo_contention) 1) = Awaiting (AQ_loop 0 1) 1 \<and>
    hd_pc (handlers (after demo_contention) ! 1) = RQ_blocked 0"
  by (simp add: after_def demo_contention_def demo_defs run_defs)

lemma demo_contention_replies: "\<not> list_ex no_reply demo_contention"
  by (simp add: demo_contention_def list_ex_iff)

lemma demo_one_asker: "one_asker demo_resolve demo_sys"
  by (auto simp: one_asker_def demo_sys_def demo_server_def demo_resolve_def split: if_splits)

lemmas demo_conditions = demo_init demo_connected demo_contention_runs demo_contention_replies demo_one_asker

section \<open>Safety\<close>

text \<open>
  C2. Mutual exclusion. Start from lock managers that know each other and hold no lock
  variable, and let client threads and request handlers on all machines interleave access
  by access in any order. As long as every request is answered, at most \<open>INT_MAX\<close> sequence numbers are
  drawn, and either every server is asked by one machine only or no update of a highest number is lost, two
  different client threads, on one machine or on two, never hold the same lock number.
\<close>

theorem mutual_exclusion:
  assumes "sys_init s" and "connected resolve s" and "sys_run einval resolve es s = Some t"
    and "int (draws einval resolve es s) \<le> INT_MAX" and "\<not> list_ex no_reply es"
    and "one_asker resolve s \<or> race_free einval resolve es s"
    and "holds_lock t c n" and "c' \<noteq> c"
  shows "\<not> holds_lock t c' n"
  using exclusive_run [OF assms(1-7)] assms(8) by blast

theorem mutual_exclusion_witness:
  "holds_lock (after demo_contention) 0 7 \<and> \<not> holds_lock (after demo_contention) 1 7"
  using mutual_exclusion [OF demo_init demo_connected demo_contention_runs _ demo_contention_replies
      disjI1 [OF demo_one_asker] demo_holds, of 1]
    demo_holds demo_draws by (simp add: INT_MAX_def)



section \<open>Pointers and mutexes\<close>



section \<open>An atomic lock\<close>

text \<open>
  What a user of the lock service expects. A thread is outside, wants a lock or has it; it asks, it takes the lock
  it wants when no thread has it, and it gives it back.
\<close>

datatype user = Out | Wants int | Has int

inductive atomic_lock :: "(cid \<Rightarrow> user) \<Rightarrow> (cid \<Rightarrow> user) \<Rightarrow> bool" where
  ask: "u c = Out \<Longrightarrow> atomic_lock u (u(c := Wants n))"
| take: "u c = Wants n \<Longrightarrow> \<forall>c'. u c' \<noteq> Has n \<Longrightarrow> atomic_lock u (u(c := Has n))"
| give_back: "u c = Has n \<Longrightarrow> atomic_lock u (u(c := Out))"

definition one_holder :: "(cid \<Rightarrow> user) \<Rightarrow> bool" where
  "one_holder u \<longleftrightarrow> (\<forall>c c' n. u c = Has n \<longrightarrow> u c' = Has n \<longrightarrow> c = c')"

text \<open>The same of a thread of the cluster: its release begins with giving the lock back.\<close>

fun user_of :: "client_pc \<Rightarrow> int \<Rightarrow> user" where
  "user_of Idle n = Out"
| "user_of (Acquiring pc) n = Wants n"
| "user_of (Awaiting pc r) n = Wants n"
| "user_of Holding n = Has n"
| "user_of (Releasing pc) n = Out"

definition lock_users :: "sys \<Rightarrow> cid \<Rightarrow> user" where
  "lock_users s c = user_of (cl_pc (clients s c)) (cl_number (clients s c))"

lemma lock_users_has: "lock_users s c = Has n \<longleftrightarrow> holds_lock s c n"
  by (cases "cl_pc (clients s c)") (auto simp: lock_users_def holds_lock_def)

lemma lock_users_upd:
  "clients t = (clients s)(c := k) \<Longrightarrow> lock_users t = (lock_users s)(c := user_of (cl_pc k) (cl_number k))"
  by (auto simp: lock_users_def fun_eq_iff)

lemma client_users:
  assumes "client_step einval resolve c s = Some t"
  shows "lock_users t = lock_users s \<or>
    (\<exists>n. lock_users s c = Wants n \<and> lock_users t = (lock_users s)(c := Has n))"
proof -
  let ?k = "clients s c"
  have "clients t = clients s \<or> (\<exists>pc. clients t = (clients s)(c := ?k\<lparr>cl_pc := pc\<rparr>) \<and>
      (user_of pc (cl_number ?k) = user_of (cl_pc ?k) (cl_number ?k) \<or>
       user_of (cl_pc ?k) (cl_number ?k) = Wants (cl_number ?k) \<and> pc = Holding))"
    using assms
    by (auto simp: client_step_def Let_def set_exited_def set_pc_def set_server_def
        split: if_splits client_pc.splits reaction.splits option.splits)
  then show ?thesis
  proof
    assume "clients t = clients s"
    then show ?thesis by (simp add: lock_users_def fun_eq_iff)
  next
    assume "\<exists>pc. clients t = (clients s)(c := ?k\<lparr>cl_pc := pc\<rparr>) \<and>
      (user_of pc (cl_number ?k) = user_of (cl_pc ?k) (cl_number ?k) \<or>
       user_of (cl_pc ?k) (cl_number ?k) = Wants (cl_number ?k) \<and> pc = Holding)"
    then show ?thesis by (auto simp: lock_users_upd lock_users_def)
  qed
qed

lemma users_step:
  assumes "sys_step einval resolve e s = Some t" and "one_holder (lock_users t)"
  shows "lock_users t = lock_users s \<or> atomic_lock (lock_users s) (lock_users t)"
proof (cases e)
  case (Client c)
  with assms(1) have "client_step einval resolve c s = Some t" by (simp split: if_splits)
  from client_users [OF this] show ?thesis
  proof
    assume "\<exists>n. lock_users s c = Wants n \<and> lock_users t = (lock_users s)(c := Has n)"
    then obtain n where n: "lock_users s c = Wants n" "lock_users t = (lock_users s)(c := Has n)" by blast
    with assms(2) have "\<forall>c'. lock_users s c' \<noteq> Has n" unfolding one_holder_def by (metis fun_upd_apply user.distinct(5))
    with atomic_lock.take [of "lock_users s" c n] n show ?thesis by simp
  qed simp
next
  case (Start c n)
  with assms(1) have "lock_users s c = Out" "lock_users t = (lock_users s)(c := Wants n)"
    by (auto simp: lock_users_def fun_eq_iff split: if_splits)
  with atomic_lock.ask [of "lock_users s" c n] show ?thesis by simp
next
  case (Leave c)
  with assms(1) have "lock_users s c = Has (cl_number (clients s c))" "lock_users t = (lock_users s)(c := Out)"
    by (auto simp: lock_users_def set_pc_def fun_eq_iff split: if_splits)
  with atomic_lock.give_back [of "lock_users s" c] show ?thesis by simp
next
  case (No_reply c)
  with assms(1) have "lock_users t = lock_users s"
    by (auto simp: lock_users_def set_pc_def fun_eq_iff split: if_splits client_pc.splits)
  then show ?thesis ..
next
  case (Handler r)
  with assms(1) have "clients t = clients s"
    by (auto simp: handler_step_def Let_def set_exited_def set_server_def split: if_splits reaction.splits)
  then show ?thesis by (simp add: lock_users_def fun_eq_iff)
qed

definition lock_ok :: "(string \<Rightarrow> host option) \<Rightarrow> nat \<times> sys \<Rightarrow> bool" where
  "lock_ok resolve a \<longleftrightarrow> count_ok resolve a \<and> pp_inv (count_abs resolve a)"

lemma lock_ok_one_holder: "lock_ok resolve a \<Longrightarrow> one_holder (lock_users (snd a))"
  unfolding one_holder_def lock_users_has
  using pp_exclusive [of "abs_sys resolve (snd a)"]
  by (auto simp: lock_ok_def count_abs_def holds_lock_def abs_proj)

interpretation atomic_refinement: stuttering_refinement atomic_lock one_holder
  "count_step einval resolve" "lock_ok resolve" "\<lambda>a. lock_users (snd a)"
  for einval resolve
proof unfold_locales
  show "one_holder u \<Longrightarrow> atomic_lock u v \<Longrightarrow> one_holder v" for u v
    by (erule atomic_lock.cases) (auto simp: one_holder_def)
next
  fix a b assume a: "lock_ok resolve a" "count_step einval resolve a b"
  then show b: "lock_ok resolve b"
    using lock_refinement.abs_run [OF r_into_rtranclp [of "count_step einval resolve", OF a(2)]]
    by (simp add: lock_ok_def)
  from a(2) obtain e where "sys_step einval resolve e (snd a) = Some (snd b)" unfolding count_step_def by blast
  from users_step [OF this lock_ok_one_holder [OF b]]
  show "lock_users (snd b) = lock_users (snd a) \<or> atomic_lock (lock_users (snd a)) (lock_users (snd b))" .
qed

lemma init_lock_ok:
  assumes "sys_init s" and "connected resolve s"
  shows "lock_ok resolve (0, s)" and "lock_users s = (\<lambda>c. Out)"
  using init_ok [OF assms] init_within [OF assms(1)] assms(1)
  by (simp_all add: lock_ok_def count_ok_def count_abs_def lock_users_def sys_init_def fun_eq_iff)

text \<open>
  C3. The lock managers implement an atomic lock, event by event. Under the conditions of mutual exclusion, that is when
  every request is answered, at most \<open>INT_MAX\<close> numbers are drawn and every server is asked by one machine only or no update is
  lost, the state the client threads see after a run is one the atomic lock reaches, and whatever event
  comes next, an access of a server thread anywhere, is invisible to them or is one step of the atomic lock: a
  thread asks, takes the lock it asked for while no thread has it, or gives it back.
\<close>

theorem lock_managers_refine_atomic_lock:
  assumes "sys_init s" and "connected resolve s" and "sys_run einval resolve es s = Some t"
    and "sys_step einval resolve e t = Some u"
    and "int (draws einval resolve (es @ [e]) s) \<le> INT_MAX" and "\<not> list_ex no_reply (es @ [e])"
    and "one_asker resolve s \<or> race_free einval resolve (es @ [e]) s"
  shows "atomic_lock\<^sup>*\<^sup>* (\<lambda>c. Out) (lock_users t) \<and>
    (lock_users u = lock_users t \<or> atomic_lock (lock_users t) (lock_users u))"
proof -
  have run: "sys_run einval resolve (es @ [e]) s = Some u" using assms(3,4) by (simp add: sys_run_append)
  have "race_free einval resolve (es @ [e]) s"
    using assms(7) one_asker_race_free [OF assms(1,2) run assms(5,6)] by blast
  then have free: "race_free einval resolve es s" "race_free einval resolve [e] t"
    using race_free_append [OF assms(3)] by simp_all
  let ?n = "draws einval resolve es s" and ?k = "draws einval resolve [e] t"
  have d: "int (?n + ?k) \<le> INT_MAX" using assms(5) draws_append [OF assms(3)] by simp
  then have "(count_step einval resolve)\<^sup>*\<^sup>* (0, s) (?n, t)"
    using run_counts [OF assms(3) _ _ free(1), of 0] assms(6) by simp
  with init_lock_ok [OF assms(1,2)] have t: "lock_ok resolve (?n, t)" "one_holder (lock_users t)"
      "atomic_lock\<^sup>*\<^sup>* (\<lambda>c. Out) (lock_users t)"
    using atomic_refinement.abs_run [of einval resolve "(0, s)" "(?n, t)"] lock_ok_one_holder [of resolve "(0, s)"] by auto
  have "count_step einval resolve (?n, t) (?n + ?k, u)"
    using assms(4,6) free(2) d by (auto simp: count_step_def)
  from atomic_refinement.refines [OF t(1) _ this] t(2,3) show ?thesis by simp
qed

theorem lock_managers_refine_witness:
  "\<exists>u. sys_step True demo_resolve (Leave 0) (after demo_contention) = Some u \<and>
     atomic_lock (lock_users (after demo_contention)) (lock_users u)"
proof -
  obtain u where u: "sys_step True demo_resolve (Leave 0) (after demo_contention) = Some u"
      "u = set_pc 0 (Releasing RL_find) (after demo_contention)"
    by (simp add: after_def demo_contention_def demo_defs run_defs)
  have "lock_users u 0 \<noteq> lock_users (after demo_contention) 0"
    using demo_holds by (simp add: u(2) lock_users_def holds_lock_def set_pc_def)
  moreover have "draws True demo_resolve (demo_contention @ [Leave 0]) demo_sys = 2"
    using draws_append [OF demo_contention_runs, of "[Leave 0]"] demo_draws u(1) by (simp add: draws_seqno_def)
  ultimately show ?thesis
    using lock_managers_refine_atomic_lock [OF demo_init demo_connected demo_contention_runs u(1) _ _
        disjI1 [OF demo_one_asker]] demo_contention_replies u(1) by (auto simp: INT_MAX_def)
qed

section \<open>Sequence numbers\<close>

text \<open>
  C5. Sequence numbers stay in range in every run of at most \<open>INT_MAX\<close> draws, also when requests stay
  unanswered and updates are lost: both numbers a server keeps for a lock lie between zero and the count of
  numbers drawn in the whole run, every request in flight carries a number between one and that count, and so
  does the number under which a thread holds a lock. No addition has wrapped.
\<close>

theorem sequence_numbers_bounded:
  assumes "sys_init s" and "connected resolve s" and "sys_run einval resolve es s = Some t"
    and "int (draws einval resolve es s) \<le> INT_MAX"
  shows "0 \<le> highestseqno (lvar (servers t h) n) \<and>
    highestseqno (lvar (servers t h) n) \<le> int (draws einval resolve es s) \<and>
    0 \<le> myseqno (lvar (servers t h) n) \<and>
    myseqno (lvar (servers t h) n) \<le> int (draws einval resolve es s) \<and>
    (r < length (handlers t) \<longrightarrow> 1 \<le> pack_seqno (hd_pack (handlers t ! r)) \<and>
       pack_seqno (hd_pack (handlers t ! r)) \<le> int (draws einval resolve es s)) \<and>
    (holds_lock t c n \<longrightarrow> 1 \<le> myseqno (lvar (servers t (cl_host (clients t c))) n))"
proof -
  let ?D = "int (draws einval resolve es s)" and ?a = "abs_sys resolve t"
  have "shape_ok resolve s" using init_ok [OF assms(1,2)] by (simp add: shape_ok_def pp_inv_def)
  from run_within [OF assms(3) this, of 0] init_within [OF assms(1)] assms(4) have num: "within ?D ?a" by simp
  have "0 \<le> high ?a (h, n) \<and> high ?a (h, n) \<le> ?D \<and> 0 \<le> seq ?a (h, n) \<and> seq ?a (h, n) \<le> ?D"
    using num unfolding within_def by blast
  moreover have "1 \<le> call_seq (calls ?a ! r) \<and> call_seq (calls ?a ! r) \<le> ?D" if "r < length (handlers t)"
    using num that unfolding within_def by (simp add: abs_proj(9))
  moreover have "1 \<le> seq ?a (home ?a c, n)" if "holds_lock t c n"
  proof -
    have "active (phase ?a c) n" using that by (simp add: holds_lock_def abs_proj)
    with num show ?thesis unfolding within_def by blast
  qed
  ultimately show ?thesis by (simp add: abs_proj abs_call_def)
qed

theorem sequence_numbers_bounded_witness:
  "0 \<le> highestseqno (lvar (servers (after demo_contention) 0) 7) \<and>
   highestseqno (lvar (servers (after demo_contention) 0) 7) \<le> 2 \<and>
   1 \<le> myseqno (lvar (servers (after demo_contention) (cl_host (clients (after demo_contention) 0))) 7)"
  using sequence_numbers_bounded [OF demo_init demo_connected demo_contention_runs, of 0 7 0 0]
    demo_draws demo_holds by (simp add: INT_MAX_def)

section \<open>How a lock manager ends\<close>

lemma exit_run:
  assumes "sys_run einval resolve es s = Some t" and "shape_ok resolve s" and "knows_lock s"
    and "exited t h" and "\<not> exited s h"
  shows "\<exists>es1 c es2 u. es = es1 @ Client c # es2 \<and> sys_run einval resolve es1 s = Some u \<and>
    cl_host (clients u c) = h \<and> unanswered resolve u c"
  using assms
proof (induction es arbitrary: s)
  case (Cons e es)
  then obtain u where u: "sys_step einval resolve e s = Some u" "sys_run einval resolve es u = Some t"
    by (auto split: option.splits)
  have ok: "sys_ok resolve s" using Cons.prems(2) by (simp add: shape_ok_def)
  show ?case
  proof (cases "exited u h")
    case True
    with Cons.prems(5) have "exited u \<noteq> exited s" by metis
    from exit_step [OF ok Cons.prems(3) u(1) this] True Cons.prems(5) obtain c where
        "e = Client c" "unanswered resolve s c" "cl_host (clients s c) = h"
      by (auto split: if_splits)
    then show ?thesis by (intro exI [of _ "[]"]) auto
  next
    case False
    from Cons.IH [OF u(2) shape_step [OF Cons.prems(2) u(1)] knows_lock_step [OF ok Cons.prems(3) u(1)]
        Cons.prems(4) False] obtain es1 c es2 v where
        "es = es1 @ Client c # es2" "sys_run einval resolve es1 u = Some v" "cl_host (clients v c) = h"
        "unanswered resolve v c" by blast
    then show ?thesis using u(1) by (intro exI [of _ "e # es1"]) auto
  qed
qed simp


text \<open>A machine whose node list ends with an address at which nobody is.\<close>

definition demo_stale :: sys where
  "demo_stale = demo_sys\<lparr>servers := (servers demo_sys)(0 := (demo_server ''B'' 1)\<lparr>nodes := [''B'', ''X'']\<rparr>)\<rparr>"

definition demo_stale_run :: "event list" where
  "demo_stale_run = Start 0 7 # replicate 6 (Client 0) @ replicate 4 (Handler 0) @ replicate 2 (Client 0)"


section \<open>A lost update\<close>

text \<open>
  Three machines. A request of client 2 to machine 0 computes the highest number 1, and before it is
  stored a request of client 1 stores 2 there; the store of 1 loses it. Machine 0 later draws 2 again, and
  client 1, which holds the lock under the number 2 with the higher hardware address, grants the request.
\<close>

definition demo_three :: sys where
  "demo_three = \<lparr>cluster = [0, 1, 2],
     servers = (\<lambda>h. if h = 0 then (demo_server ''B'' 1)\<lparr>nodes := [''B'', ''C'']\<rparr>
       else if h = 1 then (demo_server ''A'' 2)\<lparr>nodes := [''A'', ''C'']\<rparr>
       else (demo_server ''B'' 3)\<lparr>nodes := [''B'', ''A'']\<rparr>),
     exited = (\<lambda>h. False),
     clients = (\<lambda>c. \<lparr>cl_host = (if c = 0 then 0 else if c = 1 then 1 else 2), cl_number = 0, cl_pc = Idle\<rparr>),
     handlers = []\<rparr>"

definition resolve_three :: "string \<Rightarrow> host option" where
  "resolve_three a = (if a = ''A'' then Some 0 else if a = ''B'' then Some 1 else if a = ''C'' then Some 2 else None)"

definition lost_update_run :: "event list" where
  "lost_update_run =
     Start 2 7 # replicate 6 (Client 2) @ replicate 4 (Handler 0) @ replicate 2 (Client 2) @ replicate 2 (Handler 1) @
     Start 1 7 # replicate 6 (Client 1) @ replicate 4 (Handler 2) @ replicate 2 (Client 1) @ replicate 8 (Handler 3) @
     replicate 2 (Handler 1) @ replicate 3 (Client 2) @ Leave 2 # replicate 7 (Client 2) @
     Handler 3 # replicate 3 (Client 1) @
     Start 2 7 # replicate 5 (Client 2) @
     Start 0 7 # replicate 6 (Client 0) @ replicate 6 (Handler 4) @ replicate 2 (Client 0) @ replicate 6 (Handler 5) @
     replicate 3 (Client 0)"

lemma lost_update_breaks_exclusion:
  "sys_init demo_three" "connected resolve_three demo_three" "\<not> list_ex no_reply lost_update_run"
  "\<exists>t. sys_run True resolve_three lost_update_run demo_three = Some t \<and> holds_lock t 0 7 \<and> holds_lock t 1 7"
proof -
  show "sys_init demo_three" by (simp add: sys_init_def demo_three_def demo_server_def)
  show "connected resolve_three demo_three"
    by (auto simp: connected_def demo_three_def demo_server_def resolve_three_def inj_on_def)
  show "\<not> list_ex no_reply lost_update_run" by (simp add: lost_update_run_def list_ex_iff)
  show "\<exists>t. sys_run True resolve_three lost_update_run demo_three = Some t \<and> holds_lock t 0 7 \<and> holds_lock t 1 7"
    by (simp add: lost_update_run_def holds_lock_def demo_three_def resolve_three_def demo_defs run_defs)
qed

end
