(* ===== verification/Lock_Liveness.thy ===== *)
theory Lock_Liveness
  imports Lock_Properties
begin

text \<open>
  Where waiting threads are never woken. \<^verbatim>\<open>release_lock_1_svc\<close> does not reset
  \<open>requesting_cs\<close>, so a machine that has used a lock once keeps deferring later requests
  although it no longer competes. The abstract protocol makes the consequence visible: a
  waiting thread and the machine it waits for defer each other for good. The invariant
  \<open>stuck\<close> describes this state and no step of the protocol leaves it.
\<close>

section \<open>Two machines that defer each other\<close>

text \<open>A thread of machine \<open>A\<close> that neither leaves the lock nor has \<open>B\<close>'s permission for it.\<close>

definition harmless :: "int \<Rightarrow> host \<Rightarrow> host \<Rightarrow> proto \<Rightarrow> cid \<Rightarrow> bool" where
  "harmless L A B s c \<longleftrightarrow> phase s c \<noteq> P_release L \<and> (\<forall>G. phase s c \<noteq> P_cs L G) \<and>
     (active (phase s c) L \<longrightarrow> seq s (B, L) < seq s (A, L) \<and> \<not> holds_permission s c B) \<and>
     (\<forall>x. phase s c = P_store L x \<longrightarrow> seq s (B, L) < x)"

definition waiter :: "int \<Rightarrow> host \<Rightarrow> host \<Rightarrow> cid \<Rightarrow> proto \<Rightarrow> bool" where
  "waiter L A B c s \<longleftrightarrow> home s c = B \<and> seq s (B, L) \<le> high s (A, L) \<and>
     (\<exists>G r. phase s c = P_await L G r \<and> call_at (calls s ! r) = A \<and>
        verdict (calls s ! r) = Deferred)"

definition stuck :: "int \<Rightarrow> host \<Rightarrow> host \<Rightarrow> cid \<Rightarrow> proto \<Rightarrow> bool" where
  "stuck L A B c s \<longleftrightarrow> A \<noteq> B \<and> peers s = {A, B} \<and> waiter L A B c s \<and>
     (\<forall>c'. home s c' = A \<longrightarrow> harmless L A B s c')"

lemma waiter_step:
  assumes inv: "inv_own s" "inv_call s" and w: "waiter L A B c s"
    and no: "\<And>c'. home s c' = A \<Longrightarrow> phase s c' \<noteq> P_release L" and "A \<noteq> B"
    and step: "pp_step s t"
  shows "waiter L A B c t"
proof -
  obtain G r where g: "phase s c = P_await L G r" "call_at (calls s ! r) = A"
      "verdict (calls s ! r) = Deferred" "home s c = B" "seq s (B, L) \<le> high s (A, L)"
    using w unfolding waiter_def by blast
  then have r: "r < length (calls s)" "call_lock (calls s ! r) = L"
    using inv(2) unfolding inv_call_def by blast+
  have own: "c' = c" if "owner (phase s c') L" "home s c' = B" for c'
    using inv(1) g that unfolding inv_own_def by (metis active.simps(2) owner.simps(8))
  from step show ?thesis
  proof cases
    case (store c' L' x)
    then show ?thesis using g r own [of c'] \<open>A \<noteq> B\<close> by (auto simp: waiter_def)
  next
    case (wake r' c')
    then have "r' \<noteq> r" using g r no [of c'] by auto
    then show ?thesis using g wake(1) by (auto simp: waiter_def verdict_decide)
  next
    case (noted r' x)
    then have "r' \<noteq> r" using g by auto
    then show ?thesis using g noted by (auto simp: waiter_def verdict_decide)
  next
    case (send c' L' G' d)
    then show ?thesis using g r by (auto simp: waiter_def nth_append)
  qed (use g r in \<open>auto simp: waiter_def verdict_decide\<close>)
qed

lemma harmless_verdict:
  assumes "harmless L A B s c" and "phase t = phase s" and "seq t = seq s"
    and "t = decide r v u" and "calls u = calls s"
    and "\<And>G. phase s c = P_await L G r \<Longrightarrow> call_at (calls s ! r) = B \<Longrightarrow> v \<noteq> Granted"
  shows "harmless L A B t c"
proof -
  have call: "call_at (calls t ! r') = call_at (calls s ! r')"
      "verdict (calls t ! r') = v \<and> r' = r \<or> verdict (calls t ! r') = verdict (calls s ! r')" for r'
    by (auto simp: assms(4,5) verdict_decide)
  have "holds_permission s c B" if perm: "holds_permission t c B" and act: "active (phase s c) L"
  proof (cases "B \<in> granted_by (phase s c)")
    case False
    with perm assms(2) obtain M G r' where p: "phase s c = P_await M G r'"
        "call_at (calls t ! r') = B" "verdict (calls t ! r') = Granted"
      by (auto simp: holds_permission_def)
    with act call [of r'] assms(6) show ?thesis by (auto simp: holds_permission_def)
  qed (simp add: holds_permission_def)
  with assms(1-3) show ?thesis by (auto simp: harmless_def)
qed

lemma harmless_step:
  assumes inv: "pp_inv s" and w: "waiter L A B c s" and peers: "peers s = {A, B}" "A \<noteq> B"
    and no: "harmless L A B s c'" "home s c' = A"
    and step: "pp_step s t"
  shows "harmless L A B t c'"
proof -
  have c: "owner (phase s c) L" "home s c = B" "seq s (B, L) \<le> high s (A, L)"
    using w by (auto simp: waiter_def)
  have "bids s c L (seq s (B, L))" using w by (auto simp: waiter_def bids_def)
  then have req: "req s (B, L)" using inv c(2) unfolding pp_inv_def inv_req_def by metis
  have phase_c: "\<exists>G r. phase s c = P_await L G r" using w by (auto simp: waiter_def)
  have own: "c1 = c2" if "owner (phase s c1) M" "owner (phase s c2) M" "home s c1 = home s c2" for c1 c2 M
    using inv that unfolding pp_inv_def inv_own_def by blast
  have call: "r < length (calls s) \<and> call_lock (calls s ! r) = M \<and>
      call_seq (calls s ! r) = seq s (home s c', M)"
    if "phase s c' = P_await M G r" for M G r
    using inv that unfolding pp_inv_def inv_call_def by blast
  have asks: "req s (spot (calls s ! r)) \<and> seq s (spot (calls s ! r)) < call_seq (calls s ! r)"
    if "phase s c' = P_await L G r" "call_at (calls s ! r) = B" for G r
    using call [OF that(1)] that no req by (auto simp: harmless_def spot_def)
  have read: "call_seq (calls s ! r) \<le> seq s (spot (calls s ! r))"
    if "r < length (calls s)" "verdict (calls s ! r) = Close" for r
    using inv that unfolding pp_inv_def inv_read_def by fastforce
  note verdict = harmless_verdict [OF no(1)]
  from step show ?thesis
  proof cases
    case (number d M x)
    show ?thesis
    proof (cases "d = c'")
      case True
      then show ?thesis using number no(2) c(3) by (auto simp: harmless_def)
    next
      case False
      with no number show ?thesis by (auto simp: harmless_def holds_permission_def)
    qed
  next
    case (store d M x)
    have d: "owner (phase s d) M" "phase s d \<noteq> P_await L G r" for G r using store by simp_all
    have notB: "\<not> (home s d = B \<and> M = L)" using own [of d L c] d c(1,2) phase_c by auto
    show ?thesis
    proof (cases "d = c'")
      case True
      then show ?thesis
        using store no c(3) peers(2) by (auto simp: harmless_def holds_permission_def)
    next
      case False
      then have "\<not> (home s d = A \<and> M = L \<and> owner (phase s c') L)"
        using own [OF d(1), of c'] no(2) by auto
      with False notB no active_owner [of "phase s c'" L] show ?thesis unfolding store(1)
        by (auto simp: harmless_def holds_permission_def)
    qed
  next
    case (wake r d)
    have "phase s c' \<noteq> P_await L G r" if "call_at (calls s ! r) = B" for G
    proof
      assume "phase s c' = P_await L G r"
      then have d: "phase s d = P_release L" "home s d = B" using call wake that by auto
      then have "d = c" using own [of d L c] c(1,2) by simp
      with d phase_c show False by auto
    qed
    then show ?thesis using wake by (intro verdict [OF _ _ wake(1)]) auto
  next
    case (free r)
    then show ?thesis using asks [of _ r] by (intro verdict [OF _ _ free(1)]) auto
  next
    case (grant r)
    then show ?thesis using asks [of _ r] read [of r] by (intro verdict [OF _ _ grant(1)]) auto
  next
    case (look r x)
    then show ?thesis by (intro verdict [OF _ _ look(1)]) auto
  next
    case (noted r x)
    then show ?thesis by (intro verdict [OF _ _ noted(1)]) auto
  next
    case (rival r)
    then show ?thesis by (intro verdict [OF _ _ rival(1)]) auto
  next
    case (later r)
    then show ?thesis by (intro verdict [OF _ _ later(1)]) auto
  next
    case (near r)
    then show ?thesis by (intro verdict [OF _ _ near(1)]) auto
  next
    case (tie r)
    then show ?thesis by (intro verdict [OF _ _ tie(1)]) auto
  next
    case (send d M G e)
    then show ?thesis using no call
      by (auto simp: harmless_def holds_permission_def nth_append split: if_splits)
  next
    case (reply d M G r)
    then show ?thesis using no by (auto simp: harmless_def holds_permission_def split: if_splits)
  next
    case (enter d M G)
    then show ?thesis using no peers
      by (auto simp: harmless_def holds_permission_def split: if_splits)
  qed (use no in \<open>auto simp: harmless_def holds_permission_def\<close>)
qed

lemma stuck_step:
  assumes "pp_inv s" and "stuck L A B c s" and "pp_step s t"
  shows "stuck L A B c t"
proof -
  have static: "peers t = peers s" "home t = home s" using assms(3) by (cases; simp)+
  have s: "A \<noteq> B" "peers s = {A, B}" "waiter L A B c s" "\<And>c'. home s c' = A \<Longrightarrow> harmless L A B s c'"
    using assms(2) by (simp_all add: stuck_def)
  have "waiter L A B c t"
    by (rule waiter_step [OF _ _ s(3) _ s(1) assms(3)])
      (use assms(1) s(4) in \<open>auto simp: pp_inv_def harmless_def\<close>)
  moreover have "harmless L A B t c'" if "home s c' = A" for c'
    by (rule harmless_step [OF assms(1) s(3,2,1) s(4) [OF that] that assms(3)])
  ultimately show ?thesis using s static by (simp add: stuck_def)
qed

lemma stuck_nobody:
  assumes "pp_inv s" and "stuck L A B c s"
  shows "phase s c' \<noteq> P_cs L G"
proof
  assume cs: "phase s c' = P_cs L G"
  have "home s c' \<in> {A, B}" using assms by (auto simp: pp_inv_def inv_static_def stuck_def)
  moreover have "home s c' \<noteq> A" using assms(2) cs by (auto simp: stuck_def harmless_def)
  moreover have "c' = c" if "home s c' = B"
    using assms cs that unfolding pp_inv_def inv_own_def stuck_def waiter_def
    by (metis active.simps(2,3) owner.simps(8,9))
  ultimately show False using assms(2) cs by (auto simp: stuck_def waiter_def)
qed

interpretation deadlock: invariant_system pp_step "\<lambda>a. pp_inv a \<and> stuck L A B c a" for L A B c
  by unfold_locales (auto intro: pp_system.inv_step stuck_step)

text \<open>A run that ends in such a state is followed by no run in which the lock is held.\<close>

lemma stuck_forever:
  assumes init: "sys_init s" "connected resolve s" "one_asker resolve s"
    and pre: "sys_run einval resolve es s = Some u" "\<not> list_ex no_reply es"
    and st: "stuck n A B w (abs_sys resolve u)"
    and run: "sys_run einval resolve (es @ fs) s = Some t"
    and "int (draws einval resolve (es @ fs) s) \<le> INT_MAX" and "\<not> list_ex no_reply fs"
  shows "\<not> holds_lock t c n"
proof
  assume "holds_lock t c n"
  let ?k = "draws einval resolve es s" and ?j = "draws einval resolve fs u"
  have u: "sys_run einval resolve fs u = Some t" "int (?k + ?j) \<le> INT_MAX"
    using assms(8) run pre(1) draws_append [OF pre(1), of fs] by (simp_all add: sys_run_append)
  have free: "race_free einval resolve es s" "race_free einval resolve fs u"
    using one_asker_race_free [OF init(1,2) run assms(8) _ init(3)] pre assms(9) race_free_append [OF pre(1)] by simp_all
  have "int ?k \<le> INT_MAX" using u(2) by simp
  note ok = run_ok [OF init(1,2) pre(1) this pre(2) free(1)]
  have "pp_step\<^sup>*\<^sup>* (abs_sys resolve u) (abs_sys resolve t)"
    by (rule run_abs [OF u assms(9) free(2) ok(1,3,2)])
  from deadlock.inv_run [OF this, of n A B w] st ok
  have "pp_inv (abs_sys resolve t)" "stuck n A B w (abs_sys resolve t)" by simp_all
  then have "phase (abs_sys resolve t) c \<noteq> P_cs n G" for G by (rule stuck_nobody)
  with \<open>holds_lock t c n\<close> show False by (auto simp: holds_lock_def abs_proj)
qed

section \<open>A lock that has been used once is lost\<close>

text \<open>
  Client 0 takes lock 7 and gives it back; nobody else has asked for it. Then client 1 on
  the other machine asks for it.
\<close>

definition demo_reuse :: "event list" where
  "demo_reuse =
     Start 0 7 # replicate 6 (Client 0) @ replicate 4 (Handler 0) @ replicate 3 (Client 0) @
     Leave 0 # replicate 5 (Client 0) @
     Start 1 7 # replicate 6 (Client 1) @ replicate 8 (Handler 1)"

lemma demo_reuse_runs: "sys_run True demo_resolve demo_reuse demo_sys = Some (after demo_reuse)"
  by (simp add: after_def demo_reuse_def demo_defs run_defs)

lemma demo_reuse_draws: "draws True demo_resolve demo_reuse demo_sys = 2"
  by (simp add: demo_reuse_def demo_defs run_defs)

lemma demo_reuse_replies: "\<not> list_ex no_reply demo_reuse"
  by (simp add: demo_reuse_def list_ex_iff)

lemma demo_reuse_stuck: "stuck 7 0 1 1 (abs_sys demo_resolve (after demo_reuse))"
  by (auto simp: after_def demo_reuse_def demo_defs run_defs abs_sys_def stuck_def waiter_def
      harmless_def abs_call_def lvar_def)



section \<open>First use by two machines at once\<close>

text \<open>
  Both clients start on a fresh cluster. Client 0 has set \<open>requesting_cs\<close> but not yet written
  \<open>myseqno\<close> when the request of client 1 is judged against the old number 0.
\<close>

definition demo_race :: "event list" where
  "demo_race =
     Start 0 7 # replicate 3 (Client 0) @
     Start 1 7 # replicate 6 (Client 1) @ replicate 8 (Handler 0) @
     replicate 3 (Client 0) @ replicate 8 (Handler 1)"

lemma demo_race_runs: "sys_run True demo_resolve demo_race demo_sys = Some (after demo_race)"
  by (simp add: after_def demo_race_def demo_defs run_defs)

lemma demo_race_replies: "\<not> list_ex no_reply demo_race"
  by (simp add: demo_race_def list_ex_iff)

lemma demo_race_stuck: "stuck 7 0 1 1 (abs_sys demo_resolve (after demo_race))"
  by (auto simp: after_def demo_race_def demo_defs run_defs abs_sys_def stuck_def waiter_def
      harmless_def holds_permission_def abs_call_def lvar_def reached_def)

text \<open>
  C12. Two machines that acquire a lock for the first time at the same moment can defer each
  other forever: \<^verbatim>\<open>acquire_lock_1_svc\<close> sets the flag before it draws the number, and a request
  that arrives in between is compared with a stale one. No continuation ends with the lock
  held.
\<close>

theorem concurrent_first_use_deadlocks:
  assumes "sys_run True demo_resolve (demo_race @ es) demo_sys = Some t"
    and "int (draws True demo_resolve (demo_race @ es) demo_sys) \<le> INT_MAX"
    and "\<not> list_ex no_reply es"
  shows "\<not> holds_lock t c 7"
  by (rule stuck_forever [OF demo_init demo_connected demo_one_asker demo_race_runs demo_race_replies
        demo_race_stuck assms])

theorem concurrent_first_use_deadlocks_witness:
  "sys_run True demo_resolve (demo_race @ [Start 2 7]) demo_sys = Some (after (demo_race @ [Start 2 7])) \<and>
   \<not> holds_lock (after (demo_race @ [Start 2 7])) 2 7"
proof -
  let ?es = "[Start 2 7]"
  have "sys_run True demo_resolve (demo_race @ ?es) demo_sys = Some (after (demo_race @ ?es))"
    by (simp add: after_def demo_race_def demo_defs run_defs)
  moreover have "int (draws True demo_resolve (demo_race @ ?es) demo_sys) \<le> INT_MAX"
    by (simp add: demo_race_def demo_defs run_defs INT_MAX_def)
  ultimately show ?thesis using concurrent_first_use_deadlocks [of ?es] by simp
qed

section \<open>Giving up waiting\<close>

text \<open>
  The status of \<^verbatim>\<open>request_1\<close> is ignored, so a call that returns without a reply
  counts as a permission: two clients hold lock 7 at once.
\<close>

lemma no_reply_breaks_exclusion:
  "\<exists>t. sys_run True demo_resolve (demo_contention @ [No_reply 1, Client 1, Client 1]) demo_sys = Some t \<and>
     holds_lock t 0 7 \<and> holds_lock t 1 7"
  by (simp add: demo_contention_def demo_defs run_defs holds_lock_def)

end
