(* ===== verification/Lock_Progress.thy ===== *)
theory Lock_Progress
  imports Lock_Liveness
begin

text \<open>
  What the lock managers do achieve when nobody competes: a lock that only one machine uses can
  be taken and given back any number of times. The thread-local runs of \<open>Lock_Sequential\<close> are
  lifted to runs of the cluster, one scheduled thread at a time.
\<close>

section \<open>Thread-local runs\<close>

inductive goes :: "('pc \<Rightarrow> server \<Rightarrow> 'pc reaction) \<Rightarrow> 'pc \<Rightarrow> server \<Rightarrow> 'pc \<Rightarrow> server \<Rightarrow> bool"
  for step where
  here: "goes step pc srv pc srv"
| there: "step pc srv = Go pc1 srv1 \<Longrightarrow> goes step pc1 srv1 pc' srv' \<Longrightarrow> goes step pc srv pc' srv'"

lemma run_alone_Returned:
  "run_alone k step pc srv = Returned srv' \<Longrightarrow> \<exists>pc'. goes step pc srv pc' srv' \<and> step pc' srv' = Return"
  by (induction k arbitrary: pc srv) (force intro: goes.intros split: reaction.splits)+

lemma run_alone_Calling:
  "run_alone k step pc srv = Calling a q pc2 srv' \<Longrightarrow>
     \<exists>pc'. goes step pc srv pc' srv' \<and> step pc' srv' = Call a q pc2"
  by (induction k arbitrary: pc srv) (force intro: goes.intros split: reaction.splits)+

lemma run_alone_Blocked:
  "run_alone k step pc srv = Blocked pc' srv' \<Longrightarrow> goes step pc srv pc' srv'"
  by (induction k arbitrary: pc srv) (auto intro: goes.intros split: reaction.splits)

text \<open>\<open>put pc srv\<close> is the cluster in which the scheduled thread is at \<open>pc\<close> and its server in \<open>srv\<close>.\<close>

lemma goes_run:
  assumes "goes step pc srv pc' srv'"
    and "\<And>pc srv pc1 srv1. step pc srv = Go pc1 srv1 \<Longrightarrow>
      sys_step einval resolve e (put pc srv) = Some (put pc1 srv1)"
  shows "\<exists>j. sys_run einval resolve (replicate j e) (put pc srv) = Some (put pc' srv')"
  using assms(1)
proof induction
  case (here pc srv)
  show ?case by (rule exI [of _ 0]) simp
next
  case (there pc srv pc1 srv1 pc' srv')
  then obtain j where "sys_run einval resolve (replicate j e) (put pc1 srv1) = Some (put pc' srv')"
    by blast
  with assms(2) [OF there(1)] show ?case by (intro exI [of _ "Suc j"]) simp
qed

lemma goes_run_last:
  assumes "goes step pc srv pc' srv'"
    and "\<And>pc srv pc1 srv1. step pc srv = Go pc1 srv1 \<Longrightarrow>
      sys_step einval resolve e (put pc srv) = Some (put pc1 srv1)"
    and "sys_step einval resolve e (put pc' srv') = Some t"
  shows "\<exists>j. sys_run einval resolve (replicate j e) (put pc srv) = Some t"
proof -
  obtain j where "sys_run einval resolve (replicate j e) (put pc srv) = Some (put pc' srv')"
    using goes_run [of step pc srv pc' srv' einval resolve e put, OF assms(1,2)] by blast
  with assms(3) have "sys_run einval resolve (replicate j e @ [e]) (put pc srv) = Some t"
    by (simp add: sys_run_append)
  then show ?thesis by (metis replicate_Suc replicate_append_same)
qed

section \<open>Thread-local runs in the cluster\<close>

text \<open>
  Runs in which every remote call is answered; \<open>departures\<close> lists the clients that leave a critical
  section, in their order.
\<close>

fun departures :: "event list \<Rightarrow> cid list" where
  "departures [] = []"
| "departures (Leave c # es) = c # departures es"
| "departures (_ # es) = departures es"

lemma departures_append [simp]: "departures (es @ fs) = departures es @ departures fs"
  by (induction es rule: departures.induct) simp_all

lemma departures_replicate: "departures [e] = [] \<Longrightarrow> departures (replicate j e) = []"
  by (induction j) (cases e; simp)+

definition reaches :: "bool \<Rightarrow> (string \<Rightarrow> host option) \<Rightarrow> cid list \<Rightarrow> sys \<Rightarrow> sys \<Rightarrow> bool" where
  "reaches einval resolve ds s t \<longleftrightarrow> (\<exists>es. sys_run einval resolve es s = Some t \<and>
     \<not> list_ex no_reply es \<and> departures es = ds)"

lemma reaches_append:
  "reaches einval resolve ds s t \<Longrightarrow> reaches einval resolve ds' t u \<Longrightarrow> reaches einval resolve (ds @ ds') s u"
  unfolding reaches_def
  by (elim exE conjE, rule_tac x = "es @ esa" in exI) (simp add: sys_run_append)

lemma reaches_on:
  "reaches einval resolve [] s t \<Longrightarrow> reaches einval resolve ds t u \<Longrightarrow> reaches einval resolve ds s u"
  using reaches_append [of einval resolve "[]" s t ds u] by simp

lemma reaches_event:
  "sys_step einval resolve e s = Some t \<Longrightarrow> \<not> no_reply e \<Longrightarrow> reaches einval resolve (departures [e]) s t"
  unfolding reaches_def by (rule exI [of _ "[e]"]) simp

lemma reaches_replicate:
  "\<exists>j. sys_run einval resolve (replicate j e) s = Some t \<Longrightarrow> \<not> no_reply e \<Longrightarrow> departures [e] = [] \<Longrightarrow>
     reaches einval resolve [] s t"
  unfolding reaches_def
  by (elim exE, rule_tac x = "replicate j e" in exI) (auto simp: list_ex_iff departures_replicate)

definition client_at :: "cid \<Rightarrow> client_pc \<Rightarrow> server \<Rightarrow> sys \<Rightarrow> sys" where
  "client_at c pc srv s = set_pc c pc (set_server (cl_host (clients s c)) srv s)"

lemma client_at_simps [simp]:
  "clients (client_at c pc srv s) = (clients s)(c := (clients s c)\<lparr>cl_pc := pc\<rparr>)"
  "servers (client_at c pc srv s) = (servers s)(cl_host (clients s c) := srv)"
  "exited (client_at c pc srv s) = exited s" "handlers (client_at c pc srv s) = handlers s"
  "set_pc c pc' (client_at c pc srv s) = client_at c pc' srv s"
  "set_server (cl_host (clients s c)) srv' (client_at c pc srv s) = client_at c pc srv' s"
  by (simp_all add: client_at_def set_pc_def set_server_def)

lemma client_at_here:
  "cl_pc (clients s c) = pc \<Longrightarrow> client_at c pc (servers s (cl_host (clients s c))) s = s"
  by (auto simp: client_at_def set_pc_def set_server_def)

lemma acquire_thread_goes:
  assumes "goes (acquire_step einval (cl_number (clients s c))) pc
      (servers s (cl_host (clients s c))) pc' srv'"
    and pc: "cl_pc (clients s c) = Acquiring pc" and up: "\<not> exited s (cl_host (clients s c))"
  shows "reaches einval resolve [] s (client_at c (Acquiring pc') srv' s)"
proof -
  have "\<exists>j. sys_run einval resolve (replicate j (Client c))
      (client_at c (Acquiring pc) (servers s (cl_host (clients s c))) s) =
      Some (client_at c (Acquiring pc') srv' s)"
    using up by (intro goes_run [OF assms(1)]) (simp add: client_step_def Let_def)
  then show ?thesis using client_at_here [OF pc] by (auto intro: reaches_replicate)
qed

lemma acquire_thread_returns:
  assumes run: "run_alone k (acquire_step einval (cl_number (clients s c))) pc
      (servers s (cl_host (clients s c))) = Returned srv'"
    and pc: "cl_pc (clients s c) = Acquiring pc" and up: "\<not> exited s (cl_host (clients s c))"
  shows "reaches einval resolve [] s (client_at c Holding srv' s)"
proof -
  obtain pc' where pc': "goes (acquire_step einval (cl_number (clients s c))) pc
      (servers s (cl_host (clients s c))) pc' srv'"
      "acquire_step einval (cl_number (clients s c)) pc' srv' = Return"
    using run_alone_Returned [OF run] by blast
  have "\<exists>j. sys_run einval resolve (replicate j (Client c))
      (client_at c (Acquiring pc) (servers s (cl_host (clients s c))) s) = Some (client_at c Holding srv' s)"
    using up pc'(2) by (intro goes_run_last [OF pc'(1)]) (simp_all add: client_step_def Let_def)
  then show ?thesis using client_at_here [OF pc] by (auto intro: reaches_replicate)
qed

lemma acquire_thread_calls:
  assumes run: "run_alone k (acquire_step einval (cl_number (clients s c))) pc
      (servers s (cl_host (clients s c))) = Calling a q pc2 srv'"
    and pc: "cl_pc (clients s c) = Acquiring pc" and up: "\<not> exited s (cl_host (clients s c))"
    and d: "resolve a = Some d" "\<not> exited s d"
  shows "reaches einval resolve [] s (client_at c (Awaiting pc2 (length (handlers s))) srv'
    (s\<lparr>handlers := handlers s @ [\<lparr>hd_host = d, hd_pack = q, hd_pc = RQ_find\<rparr>]\<rparr>))"
proof -
  obtain pc' where pc': "goes (acquire_step einval (cl_number (clients s c))) pc
      (servers s (cl_host (clients s c))) pc' srv'"
      "acquire_step einval (cl_number (clients s c)) pc' srv' = Call a q pc2"
    using run_alone_Calling [OF run] by blast
  have "\<exists>j. sys_run einval resolve (replicate j (Client c))
      (client_at c (Acquiring pc) (servers s (cl_host (clients s c))) s) =
      Some (client_at c (Awaiting pc2 (length (handlers s))) srv'
        (s\<lparr>handlers := handlers s @ [\<lparr>hd_host = d, hd_pack = q, hd_pc = RQ_find\<rparr>]\<rparr>))"
    using up pc'(2) d by (intro goes_run_last [OF pc'(1)])
      (simp_all add: client_step_def Let_def, simp add: client_at_def set_pc_def set_server_def)
  then show ?thesis using client_at_here [OF pc] by (auto intro: reaches_replicate)
qed

lemma release_thread_returns:
  assumes run: "run_alone k (release_step (cl_number (clients s c))) pc
      (servers s (cl_host (clients s c))) = Returned srv'"
    and pc: "cl_pc (clients s c) = Releasing pc" and up: "\<not> exited s (cl_host (clients s c))"
  shows "reaches einval resolve [] s (client_at c Idle srv' s)"
proof -
  obtain pc' where pc': "goes (release_step (cl_number (clients s c))) pc
      (servers s (cl_host (clients s c))) pc' srv'"
      "release_step (cl_number (clients s c)) pc' srv' = Return"
    using run_alone_Returned [OF run] by blast
  have "\<exists>j. sys_run einval resolve (replicate j (Client c))
      (client_at c (Releasing pc) (servers s (cl_host (clients s c))) s) = Some (client_at c Idle srv' s)"
    using up pc'(2) by (intro goes_run_last [OF pc'(1)]) (simp_all add: client_step_def Let_def)
  then show ?thesis using client_at_here [OF pc] by (auto intro: reaches_replicate)
qed

definition handler_at :: "nat \<Rightarrow> request_pc \<Rightarrow> server \<Rightarrow> sys \<Rightarrow> sys" where
  "handler_at r pc srv s = set_server (hd_host (handlers s ! r)) srv
     (s\<lparr>handlers := (handlers s)[r := (handlers s ! r)\<lparr>hd_pc := pc\<rparr>]\<rparr>)"

lemma handler_at_simps [simp]:
  "clients (handler_at r pc srv s) = clients s" "exited (handler_at r pc srv s) = exited s"
  "servers (handler_at r pc srv s) = (servers s)(hd_host (handlers s ! r) := srv)"
  "handlers (handler_at r pc srv s) = (handlers s)[r := (handlers s ! r)\<lparr>hd_pc := pc\<rparr>]"
  by (simp_all add: handler_at_def set_server_def)

lemma handler_thread_goes:
  assumes run: "goes (request_step einval (hd_pack (handlers s ! r))) RQ_find
      (servers s (hd_host (handlers s ! r))) pc' srv'"
    and pc: "hd_pc (handlers s ! r) = RQ_find" and up: "\<not> exited s (hd_host (handlers s ! r))"
    and r: "r < length (handlers s)"
  shows "reaches einval resolve [] s (handler_at r pc' srv' s)"
proof -
  have "\<exists>j. sys_run einval resolve (replicate j (Handler r))
      (handler_at r RQ_find (servers s (hd_host (handlers s ! r))) s) = Some (handler_at r pc' srv' s)"
    using up r by (intro goes_run [OF run]) (simp add: handler_step_def Let_def handler_at_def set_server_def)
  moreover have "handler_at r RQ_find (servers s (hd_host (handlers s ! r))) s = s"
    by (simp add: handler_at_def set_server_def flip: pc)
  ultimately show ?thesis by (auto intro: reaches_replicate)
qed

lemma handler_thread_returns:
  assumes run: "run_alone k (request_step einval (hd_pack (handlers s ! r))) RQ_find
      (servers s (hd_host (handlers s ! r))) = Returned srv'"
    and "hd_pc (handlers s ! r) = RQ_find" and "\<not> exited s (hd_host (handlers s ! r))"
    and "r < length (handlers s)"
  shows "reaches einval resolve [] s (handler_at r RQ_return srv' s)"
proof -
  let ?step = "request_step einval (hd_pack (handlers s ! r))"
  obtain pc' where pc': "goes ?step RQ_find (servers s (hd_host (handlers s ! r))) pc' srv'"
      "?step pc' srv' = Return"
    using run_alone_Returned [OF run] by blast
  from pc'(2) have "pc' = RQ_return"
    by (cases pc') (auto simp: Let_def split: prod.splits option.splits lock_attempt.splits if_splits)
  with handler_thread_goes [OF pc'(1) assms(2-4)] show ?thesis by simp
qed

section \<open>A lock that one machine uses\<close>

text \<open>
  Everything is up, and no machine but client \<open>c\<close>'s has asked for lock \<open>n\<close>: with the local
  mutex free, and while client \<open>c\<close> has it.
\<close>

definition sole_user :: "(string \<Rightarrow> host option) \<Rightarrow> cid \<Rightarrow> int \<Rightarrow> mutex \<Rightarrow> sys \<Rightarrow> bool" where
  "sole_user resolve c n m s \<longleftrightarrow> addresses_answer resolve s \<and>
     (\<forall>d. \<not> exited s d \<and> table_ok (servers s d) \<and>
       (d \<noteq> cl_host (clients s c) \<longrightarrow> \<not> requesting_cs (lvar (servers s d) n))) \<and>
     lock (lvar (servers s (cl_host (clients s c))) n) = m"

definition has_lock :: "(string \<Rightarrow> host option) \<Rightarrow> cid \<Rightarrow> int \<Rightarrow> nat \<Rightarrow> sys \<Rightarrow> bool" where
  "has_lock resolve c n p s \<longleftrightarrow> sole_user resolve c n \<lparr>mx_locked = True, mx_destroyed = False\<rparr> s \<and>
     cl_number (clients s c) = n \<and> ptr_ok (servers s (cl_host (clients s c))) p n"

text \<open>The request the client waits for is granted, whichever machine it was sent to.\<close>

lemma permission_arrives:
  assumes "has_lock resolve c n p s" and h: "h = cl_host (clients s c)"
    and pc: "cl_pc (clients s c) = Awaiting pc r" and r: "r < length (handlers s)"
    and k: "handlers s ! r = \<lparr>hd_host = d, hd_pack = \<lparr>pack_lock_number = n,
      pack_seqno = myseqno (lvar (servers s h) n), pack_mac = mac (servers s h)\<rparr>, hd_pc = RQ_find\<rparr>"
  shows "\<exists>t. reaches einval resolve [] s t \<and> has_lock resolve c n p t \<and>
    clients t = (clients s)(c := (clients s c)\<lparr>cl_pc := Acquiring pc\<rparr>) \<and>
    nodes (servers t h) = nodes (servers s h)"
proof -
  let ?q = "hd_pack (handlers s ! r)" and ?srv = "servers s d"
  have s: "table_ok ?srv" "\<not> exited s e" "d \<noteq> h \<Longrightarrow> \<not> requesting_cs (lvar ?srv n)" for e
    using assms(1) by (auto simp: has_lock_def sole_user_def h)
  have no: "\<not> must_defer ?q (mac ?srv) (lvar ?srv n)"
    using s(3) k by (cases "d = h") (auto simp: must_defer_def)
  obtain srv' where srv': "request_1_svc einval ?q ?srv = Returned srv'" "lvar srv' = (lvar ?srv)(n :=
      (lvar ?srv n)\<lparr>highestseqno := max (pack_seqno ?q) (highestseqno (lvar ?srv n))\<rparr>)"
      "table_ok srv'" "nodes srv' = nodes ?srv" "\<forall>q j. ptr_ok ?srv q j \<longrightarrow> ptr_ok srv' q j"
    using request_alone [OF s(1), of n ?q einval] no k by auto
  let ?t = "handler_at r RQ_return srv' s"
  have "reaches einval resolve [] s ?t"
    using srv'(1) s(2) r k by (intro handler_thread_returns) (simp_all add: request_1_svc_def)
  moreover have "reaches einval resolve [] ?t (set_pc c (Acquiring pc) ?t)"
    using reaches_event [of einval resolve "Client c" ?t] pc r s(2)
    by (simp add: client_step_def Let_def)
  ultimately have "reaches einval resolve [] s (set_pc c (Acquiring pc) ?t)" by (rule reaches_on)
  moreover have "has_lock resolve c n p (set_pc c (Acquiring pc) ?t)"
    using assms(1) srv' k by (auto simp: has_lock_def sole_user_def addresses_answer_def set_pc_def)
  ultimately show ?thesis using srv'(4) k by (intro exI) (auto simp: set_pc_def)
qed

lemma all_permissions_arrive:
  assumes "has_lock resolve c n p s" and "cl_pc (clients s c) = Acquiring (AQ_loop p i)"
  shows "\<exists>t. reaches einval resolve [] s t \<and> has_lock resolve c n p t \<and> holds_lock t c n \<and>
    cl_host (clients t c) = cl_host (clients s c)"
  using assms
proof (induction "length (nodes (servers s (cl_host (clients s c)))) - i" arbitrary: i s)
  case 0
  let ?srv = "servers s (cl_host (clients s c))"
  have "run_alone 2 (acquire_step einval (cl_number (clients s c))) (AQ_loop p i) ?srv = Returned ?srv"
    using 0 by (simp add: eval_nat_numeral)
  then have "reaches einval resolve [] s (client_at c Holding ?srv s)"
    using 0 by (intro acquire_thread_returns) (simp_all add: has_lock_def sole_user_def)
  with 0 show ?case
    by (intro exI) (auto simp: has_lock_def sole_user_def addresses_answer_def holds_lock_def)
next
  case (Suc k)
  let ?h = "cl_host (clients s c)"
  let ?srv = "servers s ?h"
  let ?q = "\<lparr>pack_lock_number = n, pack_seqno = myseqno (lvar ?srv n), pack_mac = mac ?srv\<rparr>"
  have s: "table_ok ?srv" "ptr_ok ?srv p n" "cl_number (clients s c) = n" "\<not> exited s ?h" "\<not> exited s e" for e
    using Suc.prems by (simp_all add: has_lock_def sole_user_def)
  have i: "i < length (nodes ?srv)" using Suc.hyps(2) by simp
  then have "nodes ?srv ! i \<in> set (nodes ?srv)" by simp
  then obtain d where d: "resolve (nodes ?srv ! i) = Some d"
    using Suc.prems(1) unfolding has_lock_def sole_user_def addresses_answer_def by blast
  have "run_alone 1 (acquire_step einval (cl_number (clients s c))) (AQ_loop p i) ?srv =
      Calling (nodes ?srv ! i) ?q (AQ_loop p (Suc i)) ?srv"
    using i s(3) lvar_ptr [OF s(1,2)] by simp
  note call = acquire_thread_calls [of 1 einval, OF this Suc.prems(2) s(4), of resolve, OF d s(5)]
  let ?t = "client_at c (Awaiting (AQ_loop p (Suc i)) (length (handlers s))) ?srv
    (s\<lparr>handlers := handlers s @ [\<lparr>hd_host = d, hd_pack = ?q, hd_pc = RQ_find\<rparr>]\<rparr>)"
  have "has_lock resolve c n p ?t"
    using Suc.prems by (auto simp: has_lock_def sole_user_def addresses_answer_def)
  then obtain u where u: "reaches einval resolve [] ?t u" "has_lock resolve c n p u"
      "clients u = (clients ?t)(c := (clients ?t c)\<lparr>cl_pc := Acquiring (AQ_loop p (Suc i))\<rparr>)"
      "nodes (servers u ?h) = nodes (servers ?t ?h)"
    using permission_arrives [of resolve c n p ?t ?h "AQ_loop p (Suc i)" "length (handlers s)" d einval]
    by auto
  have "k = length (nodes ?srv) - Suc i" using Suc.hyps(2) by linarith
  then obtain t where "reaches einval resolve [] u t" "has_lock resolve c n p t" "holds_lock t c n"
      "cl_host (clients t c) = cl_host (clients u c)"
    using Suc.hyps(1) [of u "Suc i"] u by auto
  with reaches_on [OF reaches_on [OF call u(1)]] u(3) show ?case by (intro exI [of _ t]) simp
qed

lemma acquire_goes_to_loop:
  assumes tab: "table_ok srv" and lk: "lock (lvar srv n) = \<lparr>mx_locked = False, mx_destroyed = False\<rparr>"
  shows "\<exists>p srv'. goes (acquire_step einval n) AQ_find srv (AQ_loop p 0) srv' \<and>
    lock (lvar srv' n) = \<lparr>mx_locked = True, mx_destroyed = False\<rparr> \<and> table_ok srv' \<and>
    ptr_ok srv' p n \<and> nodes srv' = nodes srv"
proof -
  obtain p s1 where s1: "find_lockvar n True srv = (Some p, s1)" "ptr_ok s1 p n"
      "nodes s1 = nodes srv" "lvar s1 = lvar srv" "table_ok s1"
    using find_lockvar_create_pair [of n srv] tab by metis
  let ?x = "\<lparr>mx_locked = True, mx_destroyed = False\<rparr>"
  let ?s2 = "upd_lockvar p (\<lambda>v. v\<lparr>lock := ?x\<rparr>) s1"
  let ?s3 = "upd_lockvar p (\<lambda>v. v\<lparr>requesting_cs := True\<rparr>) ?s2"
  let ?s4 = "upd_lockvar p (\<lambda>v. v\<lparr>myseqno := c_int (highestseqno (lockvar_list ?s3 ! p) + 1)\<rparr>) ?s3"
  have "lock (lockvar_list s1 ! p) = \<lparr>mx_locked = False, mx_destroyed = False\<rparr>"
    using lvar_ptr [OF s1(5,2)] s1(4) lk by simp
  then have lock: "acquire_step einval n (AQ_lock p) s1 = Go (AQ_cs p) ?s2"
    by (simp add: pthread_mutex_lock_def)
  have "goes (acquire_step einval n) (AQ_seq p) ?s3 (AQ_loop p 0) ?s4"
    by (rule goes.there [OF _ goes.there [OF _ goes.here]]) (simp, simp)
  then have "goes (acquire_step einval n) (AQ_cs p) ?s2 (AQ_loop p 0) ?s4"
    by (rule goes.there [rotated]) simp
  then have "goes (acquire_step einval n) (AQ_lock p) s1 (AQ_loop p 0) ?s4"
    using lock by (rule goes.there [rotated])
  then have "goes (acquire_step einval n) AQ_find srv (AQ_loop p 0) ?s4"
    by (rule goes.there [rotated]) (simp add: s1(1))
  moreover have "table_ok ?s4" "ptr_ok ?s4 p n" "lock (lvar ?s4 n) = ?x"
    using s1 by (simp_all add: table_ok_upd ptr_ok_upd lvar_upd)
  ultimately show ?thesis using s1(3) by (intro exI [of _ p] exI [of _ ?s4]) simp
qed

lemma acquire_reaches:
  assumes "sole_user resolve c n pthread_mutex_init s" and "cl_pc (clients s c) = Idle"
  shows "\<exists>t p. reaches einval resolve [] s t \<and> has_lock resolve c n p t \<and> holds_lock t c n \<and>
    cl_host (clients t c) = cl_host (clients s c)"
proof -
  let ?h = "cl_host (clients s c)"
  let ?s0 = "s\<lparr>clients := (clients s)(c := (clients s c)\<lparr>cl_number := n, cl_pc := Acquiring AQ_find\<rparr>)\<rparr>"
  let ?srv = "servers s ?h"
  have s: "table_ok ?srv" "\<not> exited s ?h" "lock (lvar ?srv n) = pthread_mutex_init"
    using assms(1) by (simp_all add: sole_user_def)
  have start: "reaches einval resolve [] s ?s0"
    using reaches_event [of einval resolve "Start c n" s ?s0] assms(2) s(2) by simp
  obtain p srv where srv: "goes (acquire_step einval n) AQ_find ?srv (AQ_loop p 0) srv"
      "lock (lvar srv n) = \<lparr>mx_locked = True, mx_destroyed = False\<rparr>" "table_ok srv" "ptr_ok srv p n"
      "nodes srv = nodes ?srv"
    using acquire_goes_to_loop [OF s(1), of n einval] s(3) by (auto simp: pthread_mutex_init_def)
  let ?t = "client_at c (Acquiring (AQ_loop p 0)) srv ?s0"
  have "reaches einval resolve [] ?s0 ?t"
    using acquire_thread_goes [of einval ?s0 c AQ_find "AQ_loop p 0" srv resolve] srv(1) s(2) by simp
  with start have "reaches einval resolve [] s ?t" by (rule reaches_on)
  note reach = reaches_on [OF this]
  have "has_lock resolve c n p ?t"
    using assms(1) srv by (auto simp: has_lock_def sole_user_def addresses_answer_def)
  then obtain t where "reaches einval resolve [] ?t t" "has_lock resolve c n p t" "holds_lock t c n"
      "cl_host (clients t c) = ?h"
    using all_permissions_arrive [of resolve c n p ?t 0 einval] by auto
  with reach show ?thesis by blast
qed

lemma release_reaches:
  assumes "has_lock resolve c n p s" and "cl_pc (clients s c) = Holding"
  shows "\<exists>t. reaches einval resolve [c] s t \<and> sole_user resolve c n pthread_mutex_init t \<and>
    cl_pc (clients t c) = Idle"
proof -
  let ?h = "cl_host (clients s c)" and ?s0 = "set_pc c (Releasing RL_find) s"
  let ?srv = "servers s ?h"
  have s: "table_ok ?srv" "ptr_ok ?srv p n" "cl_number (clients s c) = n" "\<not> exited s ?h"
      "lock (lvar ?srv n) = \<lparr>mx_locked = True, mx_destroyed = False\<rparr>"
    using assms(1) by (simp_all add: has_lock_def sole_user_def)
  have "reaches einval resolve [c] s ?s0"
    using reaches_event [of einval resolve "Leave c" s ?s0] assms(2) s(4) by simp
  moreover obtain srv' where srv': "release_lock_1_svc n ?srv = Returned srv'"
      "lock (lvar srv' n) = pthread_mutex_init" "table_ok srv'" "nodes srv' = nodes ?srv"
    using release_alone [OF s(1,2)] s(5) by (auto simp: pthread_defs)
  then have "reaches einval resolve [] ?s0 (client_at c Idle srv' ?s0)"
    using s(3,4) by (intro release_thread_returns)
      (auto simp: release_lock_1_svc_def set_pc_def)
  ultimately have "reaches einval resolve [c] s (client_at c Idle srv' ?s0)"
    using reaches_append [of einval resolve "[c]" s ?s0 "[]"] by simp
  moreover have "sole_user resolve c n pthread_mutex_init (client_at c Idle srv' ?s0)"
    using assms(1) srv' by (auto simp: has_lock_def sole_user_def addresses_answer_def set_pc_def)
  ultimately show ?thesis by (intro exI) auto
qed

lemma sole_user_again:
  assumes "sole_user resolve c n pthread_mutex_init s" and "cl_pc (clients s c) = Idle"
  shows "\<exists>t p. reaches einval resolve (replicate k c) s t \<and> has_lock resolve c n p t \<and> holds_lock t c n"
  using assms
proof (induction k arbitrary: s)
  case 0
  then show ?case using acquire_reaches [of resolve c n s einval] by auto
next
  case (Suc k)
  then obtain t p where t: "reaches einval resolve (replicate k c) s t" "has_lock resolve c n p t" "holds_lock t c n"
    by blast
  then obtain u where u: "reaches einval resolve [c] t u" "sole_user resolve c n pthread_mutex_init u"
      "cl_pc (clients u c) = Idle"
    using release_reaches [OF t(2)] by (force simp: holds_lock_def)
  obtain v q where v: "reaches einval resolve [] u v" "has_lock resolve c n q v" "holds_lock v c n"
    using acquire_reaches [OF u(2,3)] by blast
  have "reaches einval resolve (replicate k c @ [c] @ []) s v"
    using t(1) u(1) v(1) by (blast intro: reaches_append)
  with v show ?case by (auto simp: replicate_append_same)
qed

text \<open>
  C9. A lock that one client uses is always available to it: in a freshly started cluster of
  any size in which every address answers, client \<open>c\<close> can take lock \<open>n\<close>, give it back and take it
  again, \<open>k\<close> times over, every remote call being answered.
\<close>

theorem sole_user_is_served:
  assumes "sys_init s" and "addresses_answer resolve s" and "\<And>d. \<not> exited s d"
  shows "\<exists>es t. sys_run einval resolve es s = Some t \<and> \<not> list_ex no_reply es \<and>
    departures es = replicate k c \<and> holds_lock t c n"
proof -
  have "sole_user resolve c n pthread_mutex_init s" "cl_pc (clients s c) = Idle"
    using assms by (simp_all add: sole_user_def sys_init_def table_ok_def lvar_def new_lockvar_def)
  from sole_user_again [OF this] show ?thesis unfolding reaches_def by blast
qed

theorem sole_user_is_served_witness:
  "\<exists>es t. sys_run True demo_resolve es demo_sys = Some t \<and> \<not> list_ex no_reply es \<and>
    departures es = [0, 0, 0, 0, 0] \<and> holds_lock t 0 7"
  using sole_user_is_served [OF demo_init, of demo_resolve True 5 0 7]
  by (simp add: addresses_answer_def demo_sys_def demo_server_def demo_resolve_def eval_nat_numeral)

end
