(* ===== verification/Lock_Handover.thy ===== *)
theory Lock_Handover
  imports Lock_Progress
begin

text \<open>
  Two machines that keep competing for one lock. As long as each request arrives while the other
  machine still has the lock, every release wakes the waiting request and the lock passes back and
  forth; each round draws the next sequence number. After \<open>INT_MAX\<close> of them the addition in
  \<^verbatim>\<open>acquire_lock_1_svc\<close> wraps, and the bound assumed by mutual exclusion turns out to be needed.
\<close>

section \<open>The two machines\<close>

text \<open>The machine of client \<open>a\<close> knows exactly one other machine, that of client \<open>b\<close>.\<close>

definition knows_only :: "(string \<Rightarrow> host option) \<Rightarrow> cid \<Rightarrow> cid \<Rightarrow> sys \<Rightarrow> bool" where
  "knows_only resolve a b s \<longleftrightarrow> \<not> exited s (cl_host (clients s a)) \<and>
     table_ok (servers s (cl_host (clients s a))) \<and>
     (\<exists>d. nodes (servers s (cl_host (clients s a))) = [d] \<and> resolve d = Some (cl_host (clients s b)))"

definition pair_up :: "(string \<Rightarrow> host option) \<Rightarrow> cid \<Rightarrow> cid \<Rightarrow> sys \<Rightarrow> bool" where
  "pair_up resolve a b s \<longleftrightarrow> cl_host (clients s a) \<noteq> cl_host (clients s b) \<and>
     knows_only resolve a b s \<and> knows_only resolve b a s"

text \<open>Client \<open>a\<close> has lock \<open>n\<close>, client \<open>b\<close> has asked for it with number \<open>q\<close> and is deferred.\<close>

definition waiting_for :: "int \<Rightarrow> cid \<Rightarrow> cid \<Rightarrow> int \<Rightarrow> nat \<Rightarrow> nat \<Rightarrow> sys \<Rightarrow> bool" where
  "waiting_for n a b q r m s \<longleftrightarrow> holds_lock s a n \<and> cl_number (clients s b) = n \<and>
     (\<exists>p. cl_pc (clients s b) = Awaiting (AQ_loop p 1) r) \<and>
     r < length (handlers s) \<and> hd_host (handlers s ! r) = cl_host (clients s a) \<and>
     hd_pc (handlers s ! r) = RQ_blocked m \<and>
     m < length (mutexes (servers s (cl_host (clients s a)))) \<and>
     deffered (lvar (servers s (cl_host (clients s a))) n) = [m] \<and>
     lock (lvar (servers s (cl_host (clients s a))) n) = \<lparr>mx_locked = True, mx_destroyed = False\<rparr> \<and>
     highestseqno (lvar (servers s (cl_host (clients s a))) n) = q \<and>
     (\<exists>p. ptr_ok (servers s (cl_host (clients s a))) p n)"

text \<open>A machine whose client competes with number \<open>q\<close>, waiting or holding.\<close>

definition competes :: "int \<Rightarrow> int \<Rightarrow> server \<Rightarrow> bool" where
  "competes n q srv \<longleftrightarrow> requesting_cs (lvar srv n) \<and> myseqno (lvar srv n) = q \<and>
     deffered (lvar srv n) = [] \<and> highestseqno (lvar srv n) \<le> q \<and>
     lock (lvar srv n) = \<lparr>mx_locked = True, mx_destroyed = False\<rparr> \<and> (\<exists>p. ptr_ok srv p n)"

definition handing :: "(string \<Rightarrow> host option) \<Rightarrow> int \<Rightarrow> cid \<Rightarrow> cid \<Rightarrow> int \<Rightarrow> sys \<Rightarrow> bool" where
  "handing resolve n a b q s \<longleftrightarrow> pair_up resolve a b s \<and> (\<exists>r m. waiting_for n a b q r m s) \<and>
     competes n q (servers s (cl_host (clients s b)))"

text \<open>Client \<open>b\<close> has the lock and client \<open>a\<close>, which had it before, has gone.\<close>

definition handed :: "(string \<Rightarrow> host option) \<Rightarrow> int \<Rightarrow> cid \<Rightarrow> cid \<Rightarrow> int \<Rightarrow> sys \<Rightarrow> bool" where
  "handed resolve n a b q s \<longleftrightarrow> pair_up resolve a b s \<and> holds_lock s b n \<and>
     competes n q (servers s (cl_host (clients s b))) \<and> cl_pc (clients s a) = Idle \<and>
     lock (lvar (servers s (cl_host (clients s a))) n) = pthread_mutex_init \<and>
     deffered (lvar (servers s (cl_host (clients s a))) n) = [] \<and>
     highestseqno (lvar (servers s (cl_host (clients s a))) n) = q"

lemma pair_upD:
  assumes "pair_up resolve a b s"
  shows "cl_host (clients s a) \<noteq> cl_host (clients s b)" "a \<noteq> b"
    "\<not> exited s (cl_host (clients s a))" "\<not> exited s (cl_host (clients s b))"
    "table_ok (servers s (cl_host (clients s a)))" "table_ok (servers s (cl_host (clients s b)))"
    "length (nodes (servers s (cl_host (clients s b)))) = 1"
  using assms by (auto simp: pair_up_def knows_only_def)

section \<open>A release passes the lock on\<close>

lemma release_hands_over:
  assumes "handing resolve n a b q s"
  shows "\<exists>t. reaches einval resolve [a] s t \<and> handed resolve n a b q t"
proof -
  let ?a = "cl_host (clients s a)" and ?b = "cl_host (clients s b)"
  have up: "pair_up resolve a b s" using assms by (simp add: handing_def)
  note ab = pair_upD [OF this]
  obtain r m where w: "waiting_for n a b q r m s" using assms unfolding handing_def by blast
  then obtain p pb where p: "ptr_ok (servers s ?a) p n" "cl_pc (clients s b) = Awaiting (AQ_loop pb 1) r"
    unfolding waiting_for_def by blast
  let ?s0 = "set_pc a (Releasing RL_find) s"
  have "reaches einval resolve [a] s ?s0"
    using reaches_event [of einval resolve "Leave a" s ?s0] w ab by (simp add: waiting_for_def holds_lock_def)
  moreover obtain A where A: "release_lock_1_svc n (servers s ?a) = Returned A"
      "lvar A = (lvar (servers s ?a))(n := (lvar (servers s ?a) n)\<lparr>deffered := [], lock := pthread_mutex_init\<rparr>)"
      "mutexes A ! m = \<lparr>mx_locked = False, mx_destroyed = True\<rparr>" "table_ok A" "nodes A = nodes (servers s ?a)"
    using release_alone [OF ab(5) p(1)] w by (auto simp: waiting_for_def pthread_defs)
  let ?s1 = "client_at a Idle A ?s0"
  have "reaches einval resolve [] ?s0 ?s1"
    using A(1) ab w by (intro release_thread_returns)
      (auto simp: release_lock_1_svc_def set_pc_def waiting_for_def holds_lock_def)
  moreover
  let ?s2 = "handler_at r RQ_return (upd_mutex m (\<lambda>x. x\<lparr>mx_locked := True\<rparr>) A) ?s1"
  have "sys_step einval resolve (Handler r) ?s1 = Some ?s2"
    using w ab A(3) by (simp add: waiting_for_def handler_step_def Let_def handler_at_def set_pc_def)
  then have "reaches einval resolve [] ?s1 ?s2"
    using reaches_event [of einval resolve "Handler r"] by simp
  moreover
  let ?s3 = "set_pc b (Acquiring (AQ_loop pb 1)) ?s2"
  have "sys_step einval resolve (Client b) ?s2 = Some ?s3"
    using w p(2) ab by (simp add: waiting_for_def client_step_def Let_def set_pc_def)
  then have "reaches einval resolve [] ?s2 ?s3"
    using reaches_event [of einval resolve "Client b"] by simp
  moreover
  let ?B = "servers s ?b"
  have B: "servers ?s3 (cl_host (clients ?s3 b)) = ?B" "cl_host (clients ?s3 b) = ?b"
    using ab w by (simp_all add: set_pc_def waiting_for_def)
  have "run_alone 2 (acquire_step einval (cl_number (clients ?s3 b))) (AQ_loop pb 1) ?B = Returned ?B"
    using ab by (simp add: eval_nat_numeral)
  then have "reaches einval resolve [] ?s3 (client_at b Holding ?B ?s3)"
    using ab B by (intro acquire_thread_returns) (simp_all add: set_pc_def)
  ultimately have "reaches einval resolve ([a] @ [] @ [] @ [] @ []) s (client_at b Holding ?B ?s3)"
    by (blast intro: reaches_append)
  moreover have "competes n q ?B" using assms by (simp add: handing_def)
  then have "handed resolve n a b q (client_at b Holding ?B ?s3)"
    using A up w ab(1,2) by (simp add: handed_def pair_up_def knows_only_def holds_lock_def
        waiting_for_def set_pc_def)
  ultimately show ?thesis by auto
qed

section \<open>The next request\<close>

text \<open>Client \<open>a\<close> takes its local mutex, draws the next number and asks the other machine.\<close>

lemma acquire_asks:
  assumes "handed resolve n a b q s" and q': "q' = c_int (q + 1)"
  shows "\<exists>A p. reaches einval resolve [] s
      (client_at a (Awaiting (AQ_loop p 1) (length (handlers s))) A
        (s\<lparr>clients := (clients s)(a := (clients s a)\<lparr>cl_number := n\<rparr>),
           handlers := handlers s @ [\<lparr>hd_host = cl_host (clients s b), hd_pack = \<lparr>pack_lock_number = n,
             pack_seqno = q', pack_mac = mac (servers s (cl_host (clients s a)))\<rparr>, hd_pc = RQ_find\<rparr>]\<rparr>)) \<and>
    requesting_cs (lvar A n) \<and> myseqno (lvar A n) = q' \<and> deffered (lvar A n) = [] \<and>
    highestseqno (lvar A n) = q \<and> lock (lvar A n) = \<lparr>mx_locked = True, mx_destroyed = False\<rparr> \<and>
    ptr_ok A p n \<and> table_ok A \<and> nodes A = nodes (servers s (cl_host (clients s a)))"
proof -
  let ?a = "cl_host (clients s a)"
  let ?s0 = "s\<lparr>clients := (clients s)(a := (clients s a)\<lparr>cl_number := n, cl_pc := Acquiring AQ_find\<rparr>)\<rparr>"
  have up: "pair_up resolve a b s" using assms by (simp add: handed_def)
  note ab = pair_upD [OF this]
  obtain d where d: "nodes (servers s ?a) = [d]" "resolve d = Some (cl_host (clients s b))"
    using up by (auto simp: pair_up_def knows_only_def)
  have start: "reaches einval resolve [] s ?s0"
    using reaches_event [of einval resolve "Start a n" s ?s0] assms(1) ab by (simp add: handed_def)
  obtain p A where A: "acquire_lock_1_svc einval n (servers s ?a) = Calling d \<lparr>pack_lock_number = n,
        pack_seqno = q', pack_mac = mac (servers s ?a)\<rparr> (AQ_loop p 1) A"
      "lvar A = (lvar (servers s ?a))(n := (lvar (servers s ?a) n)\<lparr>lock := \<lparr>mx_locked = True, mx_destroyed = False\<rparr>,
        requesting_cs := True, myseqno := q'\<rparr>)"
      "ptr_ok A p n" "table_ok A" "nodes A = nodes (servers s ?a)"
    using acquire_alone [OF ab(5), of n einval] assms(1) d(1) q' by (auto simp: handed_def pthread_defs)
  have "reaches einval resolve [] ?s0 (client_at a (Awaiting (AQ_loop p 1) (length (handlers ?s0))) A
      (?s0\<lparr>handlers := handlers ?s0 @ [\<lparr>hd_host = cl_host (clients s b), hd_pack = \<lparr>pack_lock_number = n,
             pack_seqno = q', pack_mac = mac (servers s ?a)\<rparr>, hd_pc = RQ_find\<rparr>]\<rparr>))"
    using A(1) ab d(2) by (intro acquire_thread_calls) (simp_all add: acquire_lock_1_svc_def)
  from reaches_on [OF start this] A assms(1) show ?thesis
    by (intro exI [of _ A] exI [of _ p]) (simp add: handed_def client_at_def set_pc_def set_server_def)
qed

text \<open>
  The other machine notes the number and defers the request, unless the number has become
  smaller than its own.
\<close>

lemma request_is_deferred:
  assumes "competes n q srv" and "table_ok srv" and "q < q'"
  shows "\<exists>B. goes (request_step einval \<lparr>pack_lock_number = n, pack_seqno = q', pack_mac = k\<rparr>) RQ_find srv
      (RQ_blocked (length (mutexes srv))) B \<and> table_ok B \<and> nodes B = nodes srv \<and>
    length (mutexes srv) < length (mutexes B) \<and> deffered (lvar B n) = [length (mutexes srv)] \<and>
    lock (lvar B n) = \<lparr>mx_locked = True, mx_destroyed = False\<rparr> \<and> highestseqno (lvar B n) = q' \<and>
    (\<exists>p. ptr_ok B p n)"
proof -
  let ?q = "\<lparr>pack_lock_number = n, pack_seqno = q', pack_mac = k\<rparr>"
  have "must_defer ?q (mac srv) (lvar srv n)" using assms(1,3) by (simp add: must_defer_def competes_def)
  with request_alone [OF assms(2), of n ?q einval] obtain B where
    B: "request_1_svc einval ?q srv = Blocked (RQ_blocked (length (mutexes srv))) B"
      "lvar B = (lvar srv)(n := (lvar srv n)\<lparr>highestseqno := max q' (highestseqno (lvar srv n)),
         deffered := deffered (lvar srv n) @ [length (mutexes srv)]\<rparr>)"
      "mutexes B = mutexes srv @ [\<lparr>mx_locked = True, mx_destroyed = False\<rparr>]" "table_ok B" "nodes B = nodes srv"
      "\<forall>q j. ptr_ok srv q j \<longrightarrow> ptr_ok B q j"
    by auto
  with assms show ?thesis
    by (intro exI [of _ B]) (auto simp: competes_def request_1_svc_def intro: run_alone_Blocked)
qed

lemma next_request_waits:
  assumes "handed resolve n a b q s" and "q < INT_MAX" and "0 \<le> q"
  shows "\<exists>t. reaches einval resolve [] s t \<and> handing resolve n b a (q + 1) t"
proof -
  let ?a = "cl_host (clients s a)" and ?b = "cl_host (clients s b)" and ?r = "length (handlers s)"
  have up: "pair_up resolve a b s" and b: "competes n q (servers s ?b)" "holds_lock s b n"
    using assms by (simp_all add: handed_def)
  note ab = pair_upD [OF up]
  have "c_int (q + 1) = q + 1" using assms(2,3) by (simp add: c_int_id)
  then obtain A p where A: "reaches einval resolve [] s
      (client_at a (Awaiting (AQ_loop p 1) ?r) A
        (s\<lparr>clients := (clients s)(a := (clients s a)\<lparr>cl_number := n\<rparr>),
           handlers := handlers s @ [\<lparr>hd_host = ?b, hd_pack = \<lparr>pack_lock_number = n,
             pack_seqno = q + 1, pack_mac = mac (servers s ?a)\<rparr>, hd_pc = RQ_find\<rparr>]\<rparr>))" (is "reaches _ _ _ _ ?s1")
      "requesting_cs (lvar A n)" "myseqno (lvar A n) = q + 1" "deffered (lvar A n) = []"
      "highestseqno (lvar A n) = q" "lock (lvar A n) = \<lparr>mx_locked = True, mx_destroyed = False\<rparr>"
      "ptr_ok A p n" "table_ok A" "nodes A = nodes (servers s ?a)"
    using acquire_asks [OF assms(1) refl, of einval] by metis
  obtain B where B: "goes (request_step einval \<lparr>pack_lock_number = n, pack_seqno = q + 1,
        pack_mac = mac (servers s ?a)\<rparr>) RQ_find (servers s ?b) (RQ_blocked (length (mutexes (servers s ?b)))) B"
      "table_ok B" "nodes B = nodes (servers s ?b)" "length (mutexes (servers s ?b)) < length (mutexes B)"
      "deffered (lvar B n) = [length (mutexes (servers s ?b))]"
      "lock (lvar B n) = \<lparr>mx_locked = True, mx_destroyed = False\<rparr>" "highestseqno (lvar B n) = q + 1"
      "\<exists>p. ptr_ok B p n"
    using request_is_deferred [OF b(1) ab(6), of "q + 1" einval "mac (servers s ?a)"] by auto
  let ?t = "handler_at ?r (RQ_blocked (length (mutexes (servers s ?b)))) B ?s1"
  have "reaches einval resolve [] ?s1 ?t"
    using B(1) ab by (intro handler_thread_goes) simp_all
  with A(1) have "reaches einval resolve [] s ?t" by (rule reaches_on)
  moreover have "handing resolve n b a (q + 1) ?t"
    using A(2-) B(2-) ab up b(2)
    by (auto simp: handing_def pair_up_def knows_only_def waiting_for_def competes_def holds_lock_def)
  ultimately show ?thesis by blast
qed

lemma wrapped_request_granted:
  assumes "handed resolve n a b INT_MAX s"
  shows "\<exists>t. reaches einval resolve [] s t \<and> holds_lock t a n \<and> holds_lock t b n"
proof -
  let ?a = "cl_host (clients s a)" and ?b = "cl_host (clients s b)" and ?r = "length (handlers s)"
  let ?q = "\<lparr>pack_lock_number = n, pack_seqno = - (2 ^ 31), pack_mac = mac (servers s ?a)\<rparr>"
  have up: "pair_up resolve a b s" and b: "competes n INT_MAX (servers s ?b)" "holds_lock s b n"
    using assms by (simp_all add: handed_def)
  note ab = pair_upD [OF up]
  obtain A p where A: "reaches einval resolve [] s (client_at a (Awaiting (AQ_loop p 1) ?r) A
        (s\<lparr>clients := (clients s)(a := (clients s a)\<lparr>cl_number := n\<rparr>),
           handlers := handlers s @ [\<lparr>hd_host = ?b, hd_pack = ?q, hd_pc = RQ_find\<rparr>]\<rparr>))"
      (is "reaches _ _ _ _ ?s1") "length (nodes A) = 1"
    using acquire_asks [OF assms c_int_wraps [symmetric], of einval] up
    by (auto simp: pair_up_def knows_only_def)
  have "\<not> must_defer ?q (mac (servers s ?b)) (lvar (servers s ?b) n)"
    using b(1) by (simp add: must_defer_def competes_def INT_MAX_def)
  with request_alone [OF ab(6), of n ?q einval]
  obtain B where B: "request_1_svc einval ?q (servers s ?b) = Returned B" by auto
  let ?s2 = "handler_at ?r RQ_return B ?s1"
  let ?s3 = "set_pc a (Acquiring (AQ_loop p 1)) ?s2"
  have "reaches einval resolve [] ?s1 ?s2"
    using B ab by (intro handler_thread_returns) (simp_all add: request_1_svc_def)
  moreover have "sys_step einval resolve (Client a) ?s2 = Some ?s3"
    using ab by (simp add: client_step_def Let_def)
  then have "reaches einval resolve [] ?s2 ?s3"
    using reaches_event [of einval resolve "Client a"] by simp
  moreover have "run_alone 2 (acquire_step einval (cl_number (clients ?s3 a))) (AQ_loop p 1)
      (servers ?s3 (cl_host (clients ?s3 a))) = Returned A"
    using A(2) ab by (simp add: eval_nat_numeral set_pc_def)
  then have "reaches einval resolve [] ?s3 (client_at a Holding A ?s3)"
    using ab by (intro acquire_thread_returns) (simp_all add: set_pc_def)
  ultimately have "reaches einval resolve [] s (client_at a Holding A ?s3)"
    using A(1) by (blast intro: reaches_on)
  moreover have "holds_lock (client_at a Holding A ?s3) a n" "holds_lock (client_at a Holding A ?s3) b n"
    using b(2) ab by (auto simp: holds_lock_def set_pc_def)
  ultimately show ?thesis by blast
qed

section \<open>Rounds\<close>

text \<open>The clients of \<open>k\<close> rounds, in turn.\<close>

fun turns :: "nat \<Rightarrow> cid \<Rightarrow> cid \<Rightarrow> cid list" where
  "turns 0 a b = []"
| "turns (Suc k) a b = a # turns k b a"

lemma rounds:
  assumes "handing resolve n a b q s" and "0 \<le> q" and "q + int k \<le> INT_MAX"
  shows "\<exists>t. reaches einval resolve (turns k a b) s t \<and>
    (if even k then handing resolve n a b (q + int k) t else handing resolve n b a (q + int k) t)"
  using assms
proof (induction k arbitrary: a b q s)
  case 0
  have "reaches einval resolve [] s s" unfolding reaches_def by (rule exI [of _ "[]"]) simp
  with 0 show ?case by auto
next
  case (Suc k)
  obtain t where t: "reaches einval resolve [a] s t" "handed resolve n a b q t"
    using release_hands_over [OF Suc.prems(1)] by blast
  obtain u where u: "reaches einval resolve [] t u" "handing resolve n b a (q + 1) u"
    using next_request_waits [OF t(2)] Suc.prems by auto
  obtain v where v: "reaches einval resolve (turns k b a) u v"
      "if even k then handing resolve n b a (q + 1 + int k) v else handing resolve n a b (q + 1 + int k) v"
    using Suc.IH [OF u(2)] Suc.prems by auto
  have "reaches einval resolve ([a] @ [] @ turns k b a) s v"
    using t(1) u(1) v(1) by (blast intro: reaches_append)
  with v(2) show ?case by (auto simp: algebra_simps split: if_splits)
qed

lemma demo_handing: "handing demo_resolve 7 0 1 2 (after demo_contention)"
  by (simp add: handing_def pair_up_def knows_only_def waiting_for_def competes_def holds_lock_def
      after_def demo_contention_def demo_defs run_defs lvar_def table_ok_def ptr_ok_def)

lemma length_turns [simp]: "length (turns k a b) = k"
  by (induction k arbitrary: a b) simp_all

lemma demo_rounds:
  assumes "int k + 2 \<le> INT_MAX"
  shows "\<exists>t. reaches True demo_resolve (turns k 0 1) (after demo_contention) t \<and>
    (if even k then handing demo_resolve 7 0 1 (int k + 2) t else handing demo_resolve 7 1 0 (int k + 2) t)"
  using rounds [OF demo_handing, of k True] assms unfolding add.commute [of 2] by simp

lemma handing_holds: "handing resolve n a b q s \<Longrightarrow> holds_lock s a n"
  by (auto simp: handing_def waiting_for_def)

text \<open>
  Two machines that ask for a lock while the other one has it can obtain it in turn, for as many rounds as
  there are sequence numbers: a schedule exists in which every release wakes the request it has deferred.
\<close>

lemma contended_lock_passes_on:
  assumes "int k + 2 \<le> INT_MAX"
  shows "\<exists>es t. sys_run True demo_resolve (demo_contention @ es) demo_sys = Some t \<and>
    \<not> list_ex no_reply es \<and> departures es = turns k 0 1 \<and> holds_lock t (if even k then 0 else 1) 7"
proof -
  obtain t where "reaches True demo_resolve (turns k 0 1) (after demo_contention) t"
      "holds_lock t (if even k then 0 else 1) 7"
    using demo_rounds [OF assms] handing_holds by (auto split: if_splits)
  then obtain es where "sys_run True demo_resolve es (after demo_contention) = Some t" "\<not> list_ex no_reply es"
      "departures es = turns k 0 1"
    unfolding reaches_def by blast
  with \<open>holds_lock t (if even k then 0 else 1) 7\<close> show ?thesis
    by (intro exI [of _ es] exI [of _ t]) (simp add: sys_run_append demo_contention_runs)
qed

text \<open>
  C16. The bound on the sequence numbers is needed: after \<open>INT_MAX - 1\<close> releases in turn the sum
  \<open>highestseqno + 1\<close> wraps to the smallest \<open>int\<close>, the other machine takes the request for the older one
  and grants it, and two clients hold the lock although no remote call has given up.
\<close>

theorem sequence_wrap_breaks_exclusion:
  "\<exists>es t. sys_run True demo_resolve es demo_sys = Some t \<and> \<not> list_ex no_reply es \<and>
     length (departures es) = nat INT_MAX - 1 \<and> holds_lock t 0 7 \<and> holds_lock t 1 7"
proof -
  let ?k = "nat INT_MAX - 2"
  have k: "int ?k + 2 = INT_MAX" "odd ?k" by (simp_all add: INT_MAX_def)
  then obtain t where t: "reaches True demo_resolve (turns ?k 0 1) (after demo_contention) t"
      "handing demo_resolve 7 1 0 INT_MAX t"
    using demo_rounds [of ?k] by auto
  obtain u where u: "reaches True demo_resolve [1] t u" "handed demo_resolve 7 1 0 INT_MAX u"
    using release_hands_over [OF t(2)] by blast
  obtain v where v: "reaches True demo_resolve [] u v" "holds_lock v 1 7" "holds_lock v 0 7"
    using wrapped_request_granted [OF u(2)] by blast
  have "reaches True demo_resolve (departures demo_contention) demo_sys (after demo_contention)"
    using demo_contention_runs demo_contention_replies unfolding reaches_def by blast
  moreover have "departures demo_contention = []" by (simp add: demo_contention_def departures_replicate)
  ultimately have "reaches True demo_resolve (turns ?k 0 1 @ [1] @ []) demo_sys v"
    using t(1) u(1) v(1) by (metis reaches_append reaches_on)
  moreover have "length (turns ?k 0 1 @ [1] @ []) = nat INT_MAX - 1" by (simp add: INT_MAX_def)
  ultimately show ?thesis using v(2,3) unfolding reaches_def by metis
qed

end
