(* ===== verification/Lock_Lone.thy ===== *)
theory Lock_Lone
  imports Lock_Progress
begin

text \<open>
  All client threads on one machine, as when the test program \<^verbatim>\<open>psu_dist_lock_mgr_test.c\<close> is started on one
  machine of a cluster. Its threads compete for the local mutexes only, no request is ever deferred,
  and no schedule leads into a deadlock.
\<close>

section \<open>The protocol with one active machine\<close>

definition idle_elsewhere :: "host \<Rightarrow> proto \<Rightarrow> bool" where
  "idle_elsewhere h s \<longleftrightarrow> (\<forall>c. home s c \<noteq> h \<longrightarrow> phase s c = P_idle)"

definition requests_only :: "host \<Rightarrow> proto \<Rightarrow> bool" where
  "requests_only h s \<longleftrightarrow> (\<forall>d L. req s (d, L) \<longrightarrow> d = h)"

text \<open>A local mutex that is locked has an owner.\<close>

definition held_owned :: "proto \<Rightarrow> bool" where
  "held_owned s \<longleftrightarrow> (\<forall>d L. held s (d, L) \<longrightarrow> (\<exists>c. home s c = d \<and> owner (phase s c) L))"

text \<open>No request is deferred.\<close>

definition undeferred :: "proto \<Rightarrow> bool" where
  "undeferred s \<longleftrightarrow> (\<forall>r < length (calls s). verdict (calls s ! r) \<noteq> Deferred)"

lemma held_owned_move:
  assumes s: "held_owned s" and t: "phase t = (phase s)(c := p)" "home t = home s"
    and own: "\<And>L. owner (phase s c) L \<Longrightarrow> held t (home s c, L) \<Longrightarrow> owner p L"
    and held: "\<And>d L. held t (d, L) \<Longrightarrow> held s (d, L) \<or> d = home s c \<and> owner p L"
  shows "held_owned t"
  unfolding held_owned_def
proof (intro allI impI)
  fix d L assume h: "held t (d, L)"
  show "\<exists>c. home t c = d \<and> owner (phase t c) L"
  proof (cases "d = home s c \<and> owner p L")
    case True
    then show ?thesis using t by (intro exI [of _ c]) simp
  next
    case False
    then obtain c' where "home s c' = d" "owner (phase s c') L"
      using held [OF h] s unfolding held_owned_def by blast
    then show ?thesis using t own h False by (intro exI [of _ c']) auto
  qed
qed

lemma held_owned_step:
  assumes "held_owned s" and step: "pp_step s t"
  shows "held_owned t"
proof -
  note keep = held_owned_move [OF assms(1)]
  from step show ?thesis
  proof cases
    case (want c L) then show ?thesis by (intro keep [of t c "P_want L"]) auto
  next
    case (lock c L) then show ?thesis by (intro keep [of t c "P_flag L"]) (auto split: if_splits)
  next
    case (raise c L) then show ?thesis by (intro keep [of t c "P_number L"]) auto
  next
    case (number c L x) then show ?thesis by (intro keep [of t c "P_store L x"]) auto
  next
    case (store c L x) then show ?thesis by (intro keep [of t c "P_collect L {}"]) auto
  next
    case (send c L G d) then show ?thesis by (intro keep [of t c "P_await L G (length (calls s))"]) auto
  next
    case (reply c L G r)
    then show ?thesis by (intro keep [of t c "P_collect L (insert (call_at (calls s ! r)) G)"]) auto
  next
    case (enter c L G) then show ?thesis by (intro keep [of t c "P_cs L G"]) auto
  next
    case (leave c L G) then show ?thesis by (intro keep [of t c "P_release L"]) auto
  next
    case (unlock c L) then show ?thesis by (intro keep [of t c P_idle]) (auto split: if_splits)
  qed (use assms(1) in \<open>auto simp: held_owned_def\<close>)
qed

lemma requests_only_step:
  assumes "requests_only h s" and "idle_elsewhere h s" and step: "pp_step s t"
  shows "requests_only h t"
  using step
proof cases
  case (raise c L)
  then have "home s c = h" using assms(2) unfolding idle_elsewhere_def by (metis phase.distinct(3))
  with raise assms(1) show ?thesis by (auto simp: requests_only_def)
qed (use assms(1) in \<open>auto simp: requests_only_def\<close>)

lemma own_request:
  assumes inv: "pp_inv s" and "idle_elsewhere h s" and "requests_only h s"
    and r: "r < length (calls s)" "verdict (calls s ! r) \<noteq> Granted" "req s (spot (calls s ! r))"
  shows "call_seq (calls s ! r) = seq s (spot (calls s ! r))" and "call_mac (calls s ! r) = hmac s (call_at (calls s ! r))"
proof -
  obtain c L G where p: "phase s c = P_await L G r" using inv r unfolding pp_inv_def inv_wait_def by blast
  then have k: "call_lock (calls s ! r) = L" "call_seq (calls s ! r) = seq s (home s c, L)"
      "call_mac (calls s ! r) = hmac s (home s c)"
    using inv unfolding pp_inv_def inv_call_def by blast+
  have "home s c = h" using assms(2) p unfolding idle_elsewhere_def by force
  moreover have "call_at (calls s ! r) = h" using assms(3) r(3) unfolding requests_only_def spot_def by blast
  ultimately show "call_seq (calls s ! r) = seq s (spot (calls s ! r))"
    "call_mac (calls s ! r) = hmac s (call_at (calls s ! r))" using k by (simp_all add: spot_def)
qed

lemma undeferred_step:
  assumes inv: "pp_inv s" and "idle_elsewhere h s" and "requests_only h s" and u: "undeferred s" and step: "pp_step s t"
  shows "undeferred t"
proof -
  note own = own_request [OF assms(1-3)]
  have read: "req s (spot (calls s ! r))" if "r < length (calls s)" "verdict (calls s ! r) \<in> {Rival, Close}" for r
    using inv that unfolding pp_inv_def inv_read_def by fastforce
  from step show ?thesis
  proof cases
    case (send c L G d)
    with u show ?thesis by (auto simp: undeferred_def nth_append less_Suc_eq)
  next
    case (later r)
    with own(1) [of r] read [of r] show ?thesis by simp
  next
    case (tie r)
    with own(2) [of r] read [of r] show ?thesis by (simp add: tied_def)
  qed (use u in \<open>auto simp: undeferred_def verdict_decide\<close>)
qed

section \<open>The cluster with one active machine\<close>

fun calm :: "request_pc \<Rightarrow> bool" where
  "calm RQ_find \<longleftrightarrow> True"
| "calm (RQ_highest p) \<longleftrightarrow> True"
| "calm (RQ_store p x) \<longleftrightarrow> True"
| "calm (RQ_cs p) \<longleftrightarrow> True"
| "calm (RQ_later p) \<longleftrightarrow> True"
| "calm (RQ_tie p) \<longleftrightarrow> True"
| "calm RQ_return \<longleftrightarrow> True"
| "calm _ \<longleftrightarrow> False"

definition lone_sys :: "(string \<Rightarrow> host option) \<Rightarrow> host \<Rightarrow> sys \<Rightarrow> bool" where
  "lone_sys resolve h s \<longleftrightarrow>
     (\<forall>c. cl_host (clients s c) \<noteq> h \<longrightarrow> cl_pc (clients s c) = Idle) \<and>
     list_all (\<lambda>k. calm (hd_pc k)) (handlers s) \<and>
     requests_only h (abs_sys resolve s) \<and> held_owned (abs_sys resolve s) \<and> undeferred (abs_sys resolve s)"

lemma host_stays: "sys_step einval resolve e s = Some t \<Longrightarrow> cl_host (clients t c) = cl_host (clients s c)"
  by (cases e) (auto simp: client_step_def handler_step_def Let_def set_pc_def set_server_def set_exited_def
      split: if_splits client_pc.splits reaction.splits option.splits)

lemma idle_stays:
  assumes "cl_pc (clients s c) = Idle" and "sys_step einval resolve e s = Some t" and "\<forall>n. e \<noteq> Start c n"
  shows "cl_pc (clients t c) = Idle"
  using assms
  by (cases e) (auto simp: client_step_def handler_step_def Let_def set_pc_def set_server_def set_exited_def
      split: if_splits client_pc.splits reaction.splits option.splits)

lemma idle_abs:
  "(\<And>c. cl_host (clients s c) \<noteq> h \<Longrightarrow> cl_pc (clients s c) = Idle) \<Longrightarrow> idle_elsewhere h (abs_sys resolve s)"
  by (simp add: idle_elsewhere_def abs_proj)

lemma calm_step:
  assumes calm: "list_all (\<lambda>k. calm (hd_pc k)) (handlers s)" and step: "sys_step einval resolve e s = Some t"
    and aw: "undeferred (abs_sys resolve t)"
  shows "list_all (\<lambda>k. calm (hd_pc k)) (handlers t)"
proof (cases "\<exists>r. e = Handler r")
  case True
  then obtain r where e: "e = Handler r" "r < length (handlers s)" "handler_step einval r s = Some t"
    using step by (auto split: if_splits)
  let ?k = "handlers s ! r"
  have k: "calm (hd_pc ?k)" using calm e(2) by (simp add: list_all_length)
  show ?thesis
  proof (cases "request_step einval (hd_pack ?k) (hd_pc ?k) (servers s (hd_host ?k))")
    case (Go pc' srv')
    then have t: "handlers t = (handlers s)[r := ?k\<lparr>hd_pc := pc'\<rparr>]"
      using e(3) by (auto simp: handler_step_def Let_def set_server_def)
    have "r < length (calls (abs_sys resolve t))" using e(2) t by (simp add: abs_proj)
    then have "verdict (calls (abs_sys resolve t) ! r) \<noteq> Deferred" using aw unfolding undeferred_def by blast
    then have "pc' \<noteq> RQ_append p" for p using e(2) t by (auto simp: abs_proj abs_call_def)
    moreover have "calm pc' \<or> (\<exists>p. pc' = RQ_append p)"
      using k Go by (cases "hd_pc ?k") (auto split: if_splits prod.splits option.splits)
    ultimately have "calm pc'" by blast
    then show ?thesis
      using calm e(2) unfolding t by (auto simp: list_all_iff dest!: subsetD [OF set_update_subset_insert])
  qed (use e(3) calm in \<open>auto simp: handler_step_def Let_def set_exited_def\<close>)
next
  case False
  then have "handlers t = handlers s \<or> (\<exists>k. hd_pc k = RQ_find \<and> handlers t = handlers s @ [k])"
    using step by (cases e) (auto simp: client_step_def Let_def set_pc_def set_server_def set_exited_def
        split: if_splits client_pc.splits reaction.splits option.splits)
  then show ?thesis using calm by auto
qed

lemma lone_sys_step:
  assumes inv: "sys_ok resolve s" "pp_inv (abs_sys resolve s)" and l: "lone_sys resolve h s"
    and abs: "abs_sys resolve t = abs_sys resolve s \<or> pp_step (abs_sys resolve s) (abs_sys resolve t)"
    and step: "sys_step einval resolve e s = Some t" and st: "\<And>c n. e = Start c n \<Longrightarrow> cl_host (clients s c) = h"
  shows "lone_sys resolve h t"
proof -
  let ?s = "abs_sys resolve s" and ?t = "abs_sys resolve t"
  have s: "requests_only h ?s" "held_owned ?s" "undeferred ?s" "list_all (\<lambda>k. calm (hd_pc k)) (handlers s)"
      "\<And>c. cl_host (clients s c) \<noteq> h \<Longrightarrow> cl_pc (clients s c) = Idle"
    using l by (auto simp: lone_sys_def)
  have idle: "idle_elsewhere h ?s" using s(5) by (rule idle_abs)
  have t: "requests_only h ?t \<and> held_owned ?t \<and> undeferred ?t"
    using abs
  proof
    assume "pp_step ?s ?t"
    then show ?thesis
      using requests_only_step [OF s(1) idle] held_owned_step [OF s(2)] undeferred_step [OF inv(2) idle s(1,3)] by blast
  qed (use s in simp)
  moreover have "cl_pc (clients t c) = Idle" if "cl_host (clients t c) \<noteq> h" for c
    using that host_stays [OF step, of c] s(5) [of c] st [of c] by (intro idle_stays [OF _ step]) auto
  moreover have "list_all (\<lambda>k. calm (hd_pc k)) (handlers t)" using calm_step [OF s(4) step] t by blast
  ultimately show ?thesis by (simp add: lone_sys_def)
qed

lemma lone_init:
  assumes "sys_init s"
  shows "lone_sys resolve h s"
  using assms by (simp add: lone_sys_def sys_init_def requests_only_def held_owned_def undeferred_def abs_sys_def
      lvar_def new_lockvar_def pthread_mutex_init_def)

lemma run_host: "sys_run einval resolve es s = Some t \<Longrightarrow> cl_host (clients t c) = cl_host (clients s c)"
  by (induction es arbitrary: s) (auto dest: host_stays split: option.splits)

lemma idle_run:
  assumes "sys_run einval resolve es s = Some t" and "sys_init s" and "\<forall>n. Start c n \<notin> set es"
  shows "cl_pc (clients t c) = Idle"
  using assms(1,3)
proof (induction es arbitrary: t rule: rev_induct)
  case Nil
  with assms(2) show ?case by (simp add: sys_init_def)
next
  case (snoc e es)
  then obtain u where u: "sys_run einval resolve es s = Some u" "sys_step einval resolve e u = Some t"
    by (auto simp: sys_run_append split: option.splits)
  with snoc show ?case by (intro idle_stays [OF _ u(2)]) auto
qed

lemma lone_race_free:
  assumes init: "sys_init s" "connected resolve s"
    and run: "sys_run einval resolve es s = Some t" "int (draws einval resolve es s) \<le> INT_MAX"
      "\<not> list_ex no_reply es" and start: "\<forall>c n. Start c n \<in> set es \<longrightarrow> cl_host (clients s c) = h"
  shows "race_free einval resolve es s"
proof (rule init_race_free [OF init run])
  fix es1 es2 u assume u: "es = es1 @ es2" "sys_run einval resolve es1 s = Some u"
  have "cl_host (clients u c) = h" if "cl_pc (clients u c) = Awaiting pc r" for c pc r
    using idle_run [OF u(2) init(1), of c] that start u(1) run_host [OF u(2), of c] by auto
  then show "asks_alone u" unfolding asks_alone_def by metis
qed

lemma lone_run:
  assumes init: "sys_init s" "connected resolve s"
    and "sys_run einval resolve es s = Some t" and "int (draws einval resolve es s) \<le> INT_MAX"
    and "\<not> list_ex no_reply es" and "\<forall>c n. Start c n \<in> set es \<longrightarrow> cl_host (clients s c) = h"
  shows "lone_sys resolve h t"
  using assms(3-)
proof (induction es arbitrary: t rule: rev_induct)
  case Nil
  with lone_init [OF init(1)] show ?case by simp
next
  case (snoc e es)
  then obtain u where u: "sys_run einval resolve es s = Some u" "sys_step einval resolve e u = Some t"
    by (auto simp: sys_run_append split: option.splits)
  let ?k = "draws einval resolve es s"
  have k: "draws einval resolve (es @ [e]) s = ?k + (if draws_seqno e u then 1 else 0)"
    using draws_append [OF u(1), of "[e]"] u(2) by simp
  then have kb: "int ?k \<le> INT_MAX" using snoc.prems(2) by simp
  have no: "\<not> list_ex no_reply es" "\<not> no_reply e" using snoc.prems(3) by simp_all
  have start: "\<forall>c n. Start c n \<in> set es \<longrightarrow> cl_host (clients s c) = h" using snoc.prems(4) by auto
  have "race_free einval resolve (es @ [e]) s" using lone_race_free [OF init snoc.prems] .
  then have free: "race_free einval resolve es s" "\<not> loses_update e u"
    using race_free_append [OF u(1), of "[e]"] by simp_all
  note ok = run_ok [OF init u(1) kb no(1) free(1)]
  have "\<not> wraps_seqno e u" using within_sys_step(2) [OF ok(1) u(2) ok(3) k] snoc.prems(2) by simp
  then have abs: "abs_sys resolve t = abs_sys resolve u \<or> pp_step (abs_sys resolve u) (abs_sys resolve t)"
    using sys_refines [OF ok(1) u(2)] no(2) free(2) unfolding faulty_def by blast
  have "lone_sys resolve h u" by (rule snoc.IH [OF u(1) kb no(1) start])
  then show ?case
    using lone_sys_step [OF ok(1,2) _ abs u(2)] snoc.prems(4) run_host [OF u(1)] by auto
qed

section \<open>No deadlock\<close>

definition moves :: "event \<Rightarrow> bool" where
  "moves e \<longleftrightarrow> (case e of Client c \<Rightarrow> True | Handler r \<Rightarrow> True | Leave c \<Rightarrow> True | _ \<Rightarrow> False)"

lemma client_moves:
  assumes ok: "sys_ok resolve s" and calm: "list_all (\<lambda>k. calm (hd_pc k)) (handlers s)"
    and up: "\<And>h. \<not> exited s h" and pc: "cl_pc (clients s c) \<noteq> Idle"
    and free: "\<And>p. cl_pc (clients s c) = Acquiring (AQ_lock p) \<Longrightarrow>
      \<not> mx_locked (lock (lvar (servers s (cl_host (clients s c))) (cl_number (clients s c))))"
  shows "\<exists>e t. moves e \<and> sys_step einval resolve e s = Some t"
proof -
  let ?h = "cl_host (clients s c)" and ?n = "cl_number (clients s c)"
  have client: ?thesis if "client_step einval resolve c s \<noteq> None"
    using that up by (intro exI [of _ "Client c"]) (auto simp: moves_def)
  show ?thesis
  proof (cases "cl_pc (clients s c)")
    case Idle
    with pc show ?thesis by simp
  next
    case Holding
    with up show ?thesis by (intro exI [of _ "Leave c"]) (simp add: moves_def)
  next
    case (Awaiting pc r)
    then have r: "r < length (handlers s)" using ok by (simp add: sys_ok_def calls_ok_def)
    then have "calm (hd_pc (handlers s ! r))" using calm by (simp add: list_all_length)
    then have "hd_pc (handlers s ! r) = RQ_return \<or> handler_step einval r s \<noteq> None"
      by (cases "hd_pc (handlers s ! r)") (auto simp: handler_step_def Let_def split: prod.split option.split)
    then show ?thesis
    proof
      assume "hd_pc (handlers s ! r) = RQ_return"
      with Awaiting show ?thesis by (intro client) (simp add: client_step_def Let_def)
    next
      assume "handler_step einval r s \<noteq> None"
      with r up show ?thesis by (intro exI [of _ "Handler r"]) (auto simp: moves_def)
    qed
  next
    case (Releasing pc)
    then show ?thesis
      by (intro client) (cases pc; auto simp: client_step_def Let_def split: prod.split option.split)
  next
    case (Acquiring pc)
    have "pthread_mutex_lock einval (lock (lockvar_list (servers s ?h) ! p)) \<noteq> Asleep" if "pc = AQ_lock p" for p
    proof -
      have "lockvar_list (servers s ?h) ! p = lvar (servers s ?h) ?n"
        using ok Acquiring that by (intro Lock_Refinement.client_at(3)) (simp_all add: sys_ok_def)
      moreover have "\<not> mx_destroyed (lock (lvar (servers s ?h) ?n))" using ok by (simp add: sys_ok_def alive_def)
      ultimately show ?thesis using free Acquiring that by (simp add: pthread_mutex_lock_def)
    qed
    then show ?thesis using Acquiring
      by (intro client) (cases pc; auto simp: client_step_def Let_def
          split: prod.split option.split lock_attempt.split)
  qed
qed

lemma owner_not_blocked:
  assumes "owner (phase (abs_sys resolve s) c) n"
  shows "cl_pc (clients s c) \<noteq> Idle \<and> (\<forall>p. cl_pc (clients s c) \<noteq> Acquiring (AQ_lock p))"
  using assms by (auto simp: abs_proj)

text \<open>
  One machine alone never deadlocks: while only client threads of one machine use the locks, however
  many threads and locks there are and however they are scheduled, some thread can always go on as long
  as a thread is between its call of \<^verbatim>\<open>psu_acquire_lock\<close> and the return of \<^verbatim>\<open>psu_release_lock\<close>.
\<close>

lemma lone_moves:
  assumes "sys_init s" and "connected resolve s" and "addresses_answer resolve s" and "\<forall>d. \<not> exited s d"
    and "sys_run einval resolve es s = Some t" and "int (draws einval resolve es s) \<le> INT_MAX"
    and "\<not> list_ex no_reply es" and "\<forall>c n. Start c n \<in> set es \<longrightarrow> cl_host (clients s c) = h"
    and "cl_pc (clients t c) \<noteq> Idle"
  shows "\<exists>e u. moves e \<and> sys_step einval resolve e t = Some u"
proof -
  note ok = run_ok [OF assms(1,2,5-7) lone_race_free [OF assms(1,2,5-8)]]
  have lone: "lone_sys resolve h t" using assms(1,2,5-8) by (rule lone_run)
  have "knows_lock s" using assms(1) by (simp add: knows_lock_def sys_init_def)
  then have up: "\<not> exited t d" for d
    using no_exit_run [OF assms(5)] assms(3,4) init_ok [OF assms(1,2)] by (simp add: shape_ok_def pp_inv_def)
  have calm: "list_all (\<lambda>k. calm (hd_pc k)) (handlers t)" using lone by (simp add: lone_sys_def)
  note go = client_moves [OF ok(1) calm up, where einval = einval]
  let ?held = "held (abs_sys resolve t) (cl_host (clients t c), cl_number (clients t c))"
  show ?thesis
  proof (cases ?held)
    case True
    then obtain c' where "owner (phase (abs_sys resolve t) c') (cl_number (clients t c))"
      using lone unfolding lone_sys_def held_owned_def by blast
    then show ?thesis using owner_not_blocked by (intro go [of c']) blast+
  next
    case False
    then show ?thesis using assms(9) by (intro go [of c]) (simp_all add: abs_proj)
  qed
qed

end
