(* ===== verification/Lock_Termination.thy ===== *)
theory Lock_Termination
  imports Lock_Lone
begin

text \<open>
  Client threads of one machine always come to an end: every statement of a thread lowers a potential,
  whatever the schedule, and a thread that is not finished is never left without a thread that can go on.
\<close>

section \<open>No deferred requests\<close>

definition quiet_server :: "server \<Rightarrow> bool" where
  "quiet_server srv \<longleftrightarrow> (\<forall>v \<in> set (lockvar_list srv). deffered v = [])"

definition quiet :: "sys \<Rightarrow> bool" where
  "quiet s \<longleftrightarrow> (\<forall>h. quiet_server (servers s h))"

lemma quiet_upd:
  assumes "quiet_server srv" and "\<And>v. deffered v = [] \<Longrightarrow> deffered (f v) = []"
  shows "quiet_server (upd_lockvar p f srv)"
proof (cases "p < length (lockvar_list srv)")
  case True
  then have "deffered (lockvar_list srv ! p) = []" using assms(1) by (simp add: quiet_server_def)
  with assms show ?thesis
    by (auto simp: quiet_server_def upd_lockvar_def dest!: subsetD [OF set_update_subset_insert])
qed (use assms(1) in \<open>simp add: quiet_server_def upd_lockvar_def list_update_beyond\<close>)

lemma quiet_mutex: "quiet_server (upd_mutex m f srv) \<longleftrightarrow> quiet_server srv"
  by (simp add: quiet_server_def)

lemma quiet_find: "quiet_server srv \<Longrightarrow> find_lockvar n b srv = (p, srv') \<Longrightarrow> quiet_server srv'"
  by (auto simp: quiet_server_def find_lockvar_def new_lockvar_def split: option.splits if_splits)

lemma quiet_steps:
  "quiet_server srv \<Longrightarrow> acquire_step einval n apc srv = Go apc' srv' \<Longrightarrow> quiet_server srv'"
  "quiet_server srv \<Longrightarrow> release_step n lpc srv = Go lpc' srv' \<Longrightarrow> quiet_server srv'"
  "quiet_server srv \<Longrightarrow> calm qpc \<Longrightarrow> request_step einval pack qpc srv = Go qpc' srv' \<Longrightarrow> quiet_server srv'"
proof -
  show "quiet_server srv \<Longrightarrow> acquire_step einval n apc srv = Go apc' srv' \<Longrightarrow> quiet_server srv'"
    by (cases apc) (auto intro: quiet_upd quiet_find split: prod.splits option.splits lock_attempt.splits if_splits)
  show "quiet_server srv \<Longrightarrow> release_step n lpc srv = Go lpc' srv' \<Longrightarrow> quiet_server srv'"
    by (cases lpc) (auto intro: quiet_upd quiet_find simp: quiet_mutex Let_def
        split: prod.splits option.splits if_splits)
  show "quiet_server srv \<Longrightarrow> calm qpc \<Longrightarrow> request_step einval pack qpc srv = Go qpc' srv' \<Longrightarrow> quiet_server srv'"
    by (cases qpc) (auto intro: quiet_upd quiet_find split: prod.splits option.splits if_splits)
qed

lemma quiet_step:
  assumes "quiet s" and "list_all (\<lambda>k. calm (hd_pc k)) (handlers s)" and "sys_step einval resolve e s = Some t"
  shows "quiet t"
proof -
  have q: "quiet_server (servers s h)" for h using assms(1) by (simp add: quiet_def)
  have c: "calm (hd_pc (handlers s ! r))" if "r < length (handlers s)" for r
    using assms(2) that by (simp add: list_all_length)
  show ?thesis
    using assms(3) q
    by (cases e) (auto simp: quiet_def client_step_def handler_step_def Let_def set_pc_def set_server_def
        set_exited_def intro: quiet_steps(1,2) [OF q] quiet_steps(3) [OF q c]
        split: if_splits client_pc.splits reaction.splits option.splits)
qed

section \<open>The potential\<close>

fun handler_left :: "request_pc \<Rightarrow> nat" where
  "handler_left RQ_find = 6"
| "handler_left (RQ_highest p) = 5"
| "handler_left (RQ_store p x) = 4"
| "handler_left (RQ_cs p) = 3"
| "handler_left (RQ_later p) = 2"
| "handler_left (RQ_tie p) = 1"
| "handler_left _ = 0"

fun acquire_left :: "nat \<Rightarrow> acquire_pc \<Rightarrow> nat" where
  "acquire_left N AQ_find = 13 + 8 * N"
| "acquire_left N (AQ_lock p) = 12 + 8 * N"
| "acquire_left N (AQ_cs p) = 11 + 8 * N"
| "acquire_left N (AQ_seq p) = 10 + 8 * N"
| "acquire_left N (AQ_store p x) = 9 + 8 * N"
| "acquire_left N (AQ_loop p i) = 8 + 8 * (N - i)"
| "acquire_left N AQ_return = 7"

fun release_left :: "release_pc \<Rightarrow> nat" where
  "release_left RL_find = 5"
| "release_left (RL_loop p i) = 4"
| "release_left (RL_destroy p i) = 5"
| "release_left (RL_reset p) = 3"
| "release_left (RL_unlock p) = 2"
| "release_left RL_return = 1"

fun client_left :: "nat \<Rightarrow> client_pc \<Rightarrow> nat" where
  "client_left N Idle = 0"
| "client_left N (Acquiring pc) = acquire_left N pc"
| "client_left N (Awaiting pc r) = Suc (acquire_left N pc)"
| "client_left N Holding = 6"
| "client_left N (Releasing pc) = release_left pc"

definition left_of :: "sys \<Rightarrow> cid \<Rightarrow> nat" where
  "left_of s c = client_left (length (nodes (servers s (cl_host (clients s c))))) (cl_pc (clients s c))"

definition handlers_left :: "sys \<Rightarrow> nat" where
  "handlers_left s = sum_list (map (\<lambda>k. handler_left (hd_pc k)) (handlers s))"

definition potential :: "cid set \<Rightarrow> sys \<Rightarrow> nat" where
  "potential C s = (\<Sum>c \<in> C. left_of s c) + handlers_left s"

lemma nodes_step: "sys_step einval resolve e s = Some t \<Longrightarrow> nodes (servers t h) = nodes (servers s h)"
proof -
  have "acquire_step einval n apc srv = Go apc' srv' \<Longrightarrow> nodes srv' = nodes srv" for n apc srv apc' srv'
    by (cases apc) (auto dest!: arg_cong [of "find_lockvar _ _ _" _ snd]
        split: prod.splits option.splits lock_attempt.splits if_splits)
  moreover have "release_step n lpc srv = Go lpc' srv' \<Longrightarrow> nodes srv' = nodes srv" for n lpc srv lpc' srv'
    by (cases lpc) (auto simp: Let_def dest!: arg_cong [of "find_lockvar _ _ _" _ snd]
        split: prod.splits option.splits if_splits)
  moreover have "request_step einval pack qpc srv = Go qpc' srv' \<Longrightarrow> nodes srv' = nodes srv" for pack qpc srv qpc' srv'
    by (cases qpc) (auto simp: Let_def dest!: arg_cong [of "find_lockvar _ _ _" _ snd]
        split: prod.splits option.splits lock_attempt.splits if_splits)
  ultimately show "sys_step einval resolve e s = Some t \<Longrightarrow> nodes (servers t h) = nodes (servers s h)"
    by (cases e) (auto simp: client_step_def handler_step_def Let_def set_pc_def set_server_def
        set_exited_def split: if_splits client_pc.splits reaction.splits option.splits)
qed

lemma potential_client:
  assumes "finite C" and "c \<in> C" and "\<And>c'. c' \<noteq> c \<Longrightarrow> left_of t c' = left_of s c'"
    and "left_of t c + handlers_left t < left_of s c + handlers_left s"
  shows "potential C t < potential C s"
proof -
  have "(\<Sum>c' \<in> C - {c}. left_of t c') = (\<Sum>c' \<in> C - {c}. left_of s c')"
    using assms(3) by (intro sum.cong) auto
  then show ?thesis
    using assms(4) by (simp add: potential_def sum.remove [OF assms(1,2)])
qed

lemma handlers_left_update:
  assumes "r < length (handlers s)" and "handlers t = (handlers s)[r := k]"
  shows "handlers_left t + handler_left (hd_pc (handlers s ! r)) = handlers_left s + handler_left (hd_pc k)"
proof -
  let ?f = "\<lambda>k. handler_left (hd_pc k)"
  have "?f (handlers s ! r) \<le> handlers_left s"
    using elem_le_sum_list [of r "map ?f (handlers s)"] assms(1) by (simp add: handlers_left_def)
  then show ?thesis
    using assms by (simp add: handlers_left_def map_update sum_list_update)
qed

lemma acquire_lowers:
  "acquire_step einval n pc srv = Go pc' srv' \<Longrightarrow>
     acquire_left (length (nodes srv)) pc' < acquire_left (length (nodes srv)) pc"
  "acquire_step einval n pc srv = Call addr pack pc' \<Longrightarrow>
     acquire_left (length (nodes srv)) pc' + 8 = acquire_left (length (nodes srv)) pc"
  "acquire_step einval n pc srv = Return \<Longrightarrow> 6 < acquire_left N pc"
  by (cases pc; auto split: prod.splits option.splits lock_attempt.splits if_splits)+

lemma release_lowers:
  assumes "\<And>p i. pc = RL_loop p i \<Longrightarrow> deffered (lockvar_list srv ! p) = []"
  shows "release_step n pc srv = Go pc' srv' \<Longrightarrow> release_left pc' < release_left pc"
  using assms by (cases pc) (auto simp: Let_def split: prod.splits option.splits if_splits)

lemma request_lowers:
  "calm pc \<Longrightarrow> calm pc' \<Longrightarrow> request_step einval pack pc srv = Go pc' srv' \<Longrightarrow> handler_left pc' < handler_left pc"
  by (cases pc) (auto split: prod.splits option.splits if_splits)

text \<open>A step of a client thread that neither ends its server nor starts a handler.\<close>

lemma potential_set_pc:
  assumes "finite C" and "c \<in> C" and t: "clients t = (clients s)(c := (clients s c)\<lparr>cl_pc := pc\<rparr>)"
    and nodes: "\<And>h. nodes (servers t h) = nodes (servers s h)"
    and "client_left (length (nodes (servers s (cl_host (clients s c))))) pc + handlers_left t < left_of s c + handlers_left s"
  shows "potential C t < potential C s"
  using assms by (intro potential_client [of C c]) (auto simp: left_of_def)

lemma potential_handler:
  assumes calm: "list_all (\<lambda>k. calm (hd_pc k)) (handlers s)" "list_all (\<lambda>k. calm (hd_pc k)) (handlers t)"
    and up: "\<And>h. \<not> exited t h" and step: "sys_step einval resolve (Handler r) s = Some t"
  shows "potential C t < potential C s"
proof -
  let ?k = "handlers s ! r"
  have r: "r < length (handlers s)" "handler_step einval r s = Some t" using step by (auto split: if_splits)
  have "request_step einval (hd_pack ?k) (hd_pc ?k) (servers s (hd_host ?k)) \<noteq> Abort"
    using up r by (auto simp: handler_step_def Let_def set_exited_def split: if_splits) (metis fun_upd_same)
  with r obtain pc' srv' where go: "request_step einval (hd_pack ?k) (hd_pc ?k) (servers s (hd_host ?k)) = Go pc' srv'"
      "t = set_server (hd_host ?k) srv' (s\<lparr>handlers := (handlers s)[r := ?k\<lparr>hd_pc := pc'\<rparr>]\<rparr>)"
    by (auto simp: handler_step_def Let_def split: reaction.splits)
  then have h: "handlers t = (handlers s)[r := ?k\<lparr>hd_pc := pc'\<rparr>]" by (simp add: set_server_def)
  then have "handlers t ! r = ?k\<lparr>hd_pc := pc'\<rparr>" using r(1) by simp
  then have "calm (hd_pc ?k)" "calm pc'" using calm r(1) h by (auto simp: list_all_length)
  then have "handlers_left t < handlers_left s"
    using request_lowers [OF _ _ go(1)] handlers_left_update [OF r(1) h] by simp
  moreover have "left_of t = left_of s"
    using nodes_step [OF step] go(2) by (auto simp: left_of_def set_server_def fun_eq_iff)
  ultimately show ?thesis by (simp add: potential_def)
qed

lemma potential_client_step:
  assumes ok: "sys_ok resolve s" and quiet: "quiet s"
    and C: "finite C" "c \<in> C" and up: "\<And>h. \<not> exited t h" and step: "sys_step einval resolve (Client c) s = Some t"
  shows "potential C t < potential C s"
proof -
  let ?h = "cl_host (clients s c)" and ?n = "cl_number (clients s c)"
  let ?N = "length (nodes (servers s ?h))"
  have cs: "client_step einval resolve c s = Some t" using step by (simp split: if_splits)
  have alive: "t \<noteq> set_exited d s'" for d s' using up [of d] by (auto simp: set_exited_def)
  note move = potential_set_pc [OF C _ nodes_step [OF step]]
  have same: "handlers_left t = handlers_left s" if "handlers t = handlers s" using that by (simp add: handlers_left_def)
  show ?thesis
  proof (cases "cl_pc (clients s c)")
    case (Acquiring pc)
    show ?thesis
    proof (cases "acquire_step einval ?n pc (servers s ?h)")
      case (Go pc' srv')
      then show ?thesis
        using cs Acquiring acquire_lowers(1) [OF Go]
        by (intro move [of "Acquiring pc'"]) (auto simp: client_step_def set_pc_def set_server_def left_of_def handlers_left_def)
    next
      case (Call addr pack pc')
      then show ?thesis
        using cs Acquiring acquire_lowers(2) [OF Call] alive
        by (intro move [of "Awaiting pc' (length (handlers s))"])
          (auto simp: client_step_def Let_def set_pc_def left_of_def handlers_left_def split: option.splits if_splits)
    next
      case Return
      then show ?thesis
        using cs Acquiring acquire_lowers(3) [OF Return]
        by (intro move [of Holding]) (auto simp: client_step_def set_pc_def left_of_def handlers_left_def)
    qed (use cs Acquiring alive in \<open>auto simp: client_step_def\<close>)
  next
    case (Awaiting pc r)
    then show ?thesis
      using cs by (intro move [of "Acquiring pc"])
        (auto simp: client_step_def set_pc_def left_of_def handlers_left_def split: if_splits)
  next
    case (Releasing pc)
    have d: "deffered (lockvar_list (servers s ?h) ! p) = []" if "pc = RL_loop p i" for p i
    proof -
      have "ptr_ok (servers s ?h) p ?n"
        using ok Releasing that by (intro Lock_Refinement.client_at(2)) (simp_all add: sys_ok_def)
      then show ?thesis using quiet unfolding ptr_ok_def quiet_def quiet_server_def by (meson nth_mem)
    qed
    show ?thesis
    proof (cases "release_step ?n pc (servers s ?h)")
      case (Go pc' srv')
      then show ?thesis
        using cs Releasing release_lowers [OF d Go]
        by (intro move [of "Releasing pc'"]) (auto simp: client_step_def set_pc_def set_server_def left_of_def handlers_left_def)
    next
      case Return
      then have "pc = RL_return" by (cases pc) (auto simp: Let_def split: prod.splits option.splits if_splits)
      with Return show ?thesis
        using cs Releasing by (intro move [of Idle]) (auto simp: client_step_def set_pc_def left_of_def handlers_left_def)
    qed (use cs Releasing alive in \<open>auto simp: client_step_def\<close>)
  qed (use cs in \<open>auto simp: client_step_def\<close>)
qed

section \<open>Every schedule ends\<close>

text \<open>The threads that a schedule starts, in their order.\<close>

fun starts :: "event list \<Rightarrow> cid list" where
  "starts [] = []"
| "starts (Start c n # es) = c # starts es"
| "starts (_ # es) = starts es"

lemma starts_append [simp]: "starts (es @ fs) = starts es @ starts fs"
  by (induction es rule: starts.induct) simp_all

text \<open>What a thread has yet to do shows how often it has left the critical section.\<close>

fun underway :: "client_pc \<Rightarrow> nat" where
  "underway Idle = 0"
| "underway (Releasing pc) = 0"
| "underway _ = 1"

lemma visits_step:
  assumes "sys_step einval resolve e s = Some t"
  shows "count_list (departures [e]) c + underway (cl_pc (clients t c)) =
    count_list (starts [e]) c + underway (cl_pc (clients s c))"
  using assms
  by (cases e) (auto simp: client_step_def handler_step_def Let_def set_pc_def set_server_def set_exited_def
      split: if_splits client_pc.splits reaction.splits option.splits)

lemma visits_run:
  assumes "sys_run einval resolve es s = Some t"
  shows "count_list (departures es) c + underway (cl_pc (clients t c)) =
    count_list (starts es) c + underway (cl_pc (clients s c))"
  using assms
proof (induction es arbitrary: s)
  case (Cons e es)
  then obtain u where u: "sys_step einval resolve e s = Some u" "sys_run einval resolve es u = Some t"
    by (auto split: option.splits)
  from Cons.IH [OF u(2)] visits_step [OF u(1), of c] departures_append [of "[e]" es] starts_append [of "[e]" es]
  show ?case by simp
qed simp

lemma started_only:
  assumes "sys_run einval resolve es s = Some t" and "\<And>c. cl_pc (clients s c) = Idle" and "cl_pc (clients t c) \<noteq> Idle"
  shows "c \<in> set (starts es)"
  using assms(1,3)
proof (induction es arbitrary: t rule: rev_induct)
  case (snoc e es)
  then obtain u where u: "sys_run einval resolve es s = Some u" "sys_step einval resolve e u = Some t"
    by (auto simp: sys_run_append split: option.splits)
  show ?case
  proof (cases "cl_pc (clients u c) = Idle")
    case True
    then obtain n where "e = Start c n" using idle_stays [OF True u(2)] snoc.prems(2) by blast
    then show ?thesis by simp
  qed (use snoc.IH [OF u(1)] in simp)
qed (use assms(2) in simp)

lemma potential_start:
  assumes "finite C" and "c \<in> C" and "sys_step einval resolve (Start c n) s = Some t"
  shows "potential C t = potential C s + (13 + 8 * length (nodes (servers s (cl_host (clients s c)))))"
proof -
  have t: "t = s\<lparr>clients := (clients s)(c := (clients s c)\<lparr>cl_number := n, cl_pc := Acquiring AQ_find\<rparr>)\<rparr>"
      "cl_pc (clients s c) = Idle"
    using assms(3) by (auto split: if_splits)
  have "(\<Sum>c' \<in> C - {c}. left_of t c') = (\<Sum>c' \<in> C - {c}. left_of s c')"
    unfolding t(1) by (intro sum.cong) (auto simp: left_of_def)
  moreover have "left_of t c = 13 + 8 * length (nodes (servers s (cl_host (clients s c))))" "left_of s c = 0"
    using t by (simp_all add: left_of_def)
  ultimately show ?thesis
    using t(1) by (simp add: potential_def sum.remove [OF assms(1,2)] handlers_left_def)
qed

lemma lone_bound:
  assumes init: "sys_init s" "connected resolve s" and ans: "addresses_answer resolve s" and up: "\<And>d. \<not> exited s d"
    and "sys_run einval resolve es s = Some t" and "int (draws einval resolve es s) \<le> INT_MAX"
    and "\<not> list_ex no_reply es" and "\<forall>c n. Start c n \<in> set es \<longrightarrow> cl_host (clients s c) = h"
    and C: "finite C" "set (starts es) \<subseteq> C"
  shows "quiet t \<and> nodes (servers t h) = nodes (servers s h) \<and>
    length es + potential C t \<le> length (starts es) * (14 + 8 * length (nodes (servers s h)))"
  using assms(5-8) C(2)
proof (induction es arbitrary: t rule: rev_induct)
  case Nil
  with init(1) show ?case
    by (auto simp: quiet_def quiet_server_def sys_init_def potential_def left_of_def handlers_left_def)
next
  case (snoc e es)
  then obtain u where u: "sys_run einval resolve es s = Some u" "sys_step einval resolve e u = Some t"
    by (auto simp: sys_run_append split: option.splits)
  have no: "\<not> list_ex no_reply es" "\<not> no_reply e" and st: "\<forall>c n. Start c n \<in> set es \<longrightarrow> cl_host (clients s c) = h"
    using snoc.prems(3,4) by auto
  have kb: "int (draws einval resolve es s) \<le> INT_MAX"
    using snoc.prems(2) draws_append [OF u(1), of "[e]"] by simp
  have IH: "quiet u" "nodes (servers u h) = nodes (servers s h)"
      "length es + potential C u \<le> length (starts es) * (14 + 8 * length (nodes (servers s h)))"
    using snoc.IH [OF u(1) kb no(1) st] snoc.prems(5) by auto
  have calm: "list_all (\<lambda>k. calm (hd_pc k)) (handlers u)" "list_all (\<lambda>k. calm (hd_pc k)) (handlers t)"
    using lone_run [OF init u(1) kb no(1) st] lone_run [OF init snoc.prems(1-4)] by (simp_all add: lone_sys_def)
  have "knows_lock s" using init(1) by (simp add: knows_lock_def sys_init_def)
  then have upt: "\<not> exited t d" for d
    using no_exit_run [OF snoc.prems(1)] ans up init_ok [OF init] by (simp add: shape_ok_def pp_inv_def)
  have act: "c \<in> C" if "cl_pc (clients u c) \<noteq> Idle" for c
    using started_only [OF u(1) _ that] init(1) snoc.prems(5) by (auto simp: sys_init_def)
  have "length (es @ [e]) + potential C t \<le> length (starts (es @ [e])) * (14 + 8 * length (nodes (servers s h)))"
  proof (cases e)
    case (Start c n)
    have "cl_host (clients u c) = h" using Start snoc.prems(4) run_host [OF u(1), of c] by auto
    moreover have "c \<in> C" using snoc.prems(5) Start by auto
    ultimately show ?thesis
      using potential_start [OF C(1) _ u(2) [unfolded Start]] IH(2,3) Start by simp
  next
    case (Leave c)
    then have "cl_pc (clients u c) = Holding" "t = set_pc c (Releasing RL_find) u" using u(2) by (auto split: if_splits)
    then have "potential C t < potential C u"
      using act [of c] by (intro potential_set_pc [OF C(1), of c _ _ "Releasing RL_find"])
        (auto simp: set_pc_def left_of_def handlers_left_def)
    with IH(3) Leave show ?thesis by simp
  next
    case (Client c)
    then have "cl_pc (clients u c) \<noteq> Idle" using u(2) by (auto simp: client_step_def split: if_splits)
    then have "potential C t < potential C u"
      using run_ok [OF init u(1) kb no(1) lone_race_free [OF init u(1) kb no(1) st]] IH(1) act upt u(2) Client
      by (intro potential_client_step [OF _ _ C(1)]) auto
    with IH(3) Client show ?thesis by simp
  next
    case (Handler r)
    with potential_handler [OF calm upt] u(2) have "potential C t < potential C u" by blast
    with IH(3) Handler show ?thesis by simp
  qed (use no(2) in simp)
  with quiet_step [OF IH(1) calm(1) u(2)] nodes_step [OF u(2)] IH(2) show ?case by simp
qed

text \<open>
  C7. Threads of one machine always finish. While only client threads of one machine use the locks, however
  many threads and locks there are, every schedule is finite, with at most 14 steps per use of a
  lock and eight more per other machine; and when no thread can go on any more, every thread has left its
  critical section as often as it has called \<^verbatim>\<open>psu_acquire_lock\<close> and has returned from \<^verbatim>\<open>psu_release_lock\<close>.
  In particular there is no deadlock.
\<close>

theorem one_machine_finishes:
  assumes "sys_init s" and "connected resolve s" and "addresses_answer resolve s" and "\<forall>d. \<not> exited s d"
    and "sys_run einval resolve es s = Some t" and "int (draws einval resolve es s) \<le> INT_MAX"
    and "\<not> list_ex no_reply es" and "\<forall>c n. Start c n \<in> set es \<longrightarrow> cl_host (clients s c) = h"
  shows "length es \<le> length (starts es) * (14 + 8 * length (nodes (servers s h))) \<and>
    ((\<forall>e. moves e \<longrightarrow> sys_step einval resolve e t = None) \<longrightarrow>
      (\<forall>c. cl_pc (clients t c) = Idle \<and> count_list (departures es) c = count_list (starts es) c))"
proof (intro conjI impI allI)
  show "length es \<le> length (starts es) * (14 + 8 * length (nodes (servers s h)))"
    using lone_bound [OF assms(1-3) _ assms(5-8), of "set (starts es)"] assms(4) by simp
next
  fix c assume stuck: "\<forall>e. moves e \<longrightarrow> sys_step einval resolve e t = None"
  show idle: "cl_pc (clients t c) = Idle"
    using lone_moves [OF assms, of c] stuck by (metis option.distinct(1))
  have "cl_pc (clients s c) = Idle" using assms(1) by (simp add: sys_init_def)
  with visits_run [OF assms(5), of c] idle
  show "count_list (departures es) c = count_list (starts es) c" by simp
qed

text \<open>Two threads of machine 0 compete for lock 1; the second one sleeps on the local mutex.\<close>

definition demo_local :: "event list" where
  "demo_local = [Start 0 1, Client 0, Client 0, Start 2 1, Client 2, Client 0]"

definition demo_one :: sys where
  "demo_one = demo_sys\<lparr>clients := (\<lambda>c. \<lparr>cl_host = 0, cl_number = 0, cl_pc = Idle\<rparr>)\<rparr>"

theorem one_machine_finishes_witness:
  "\<exists>t. sys_run True demo_resolve demo_local demo_one = Some t \<and> sys_step True demo_resolve (Client 2) t = None \<and>
     length demo_local \<le> 44 \<and> (\<exists>e u. moves e \<and> sys_step True demo_resolve e t = Some u)"
proof -
  define t where "t = the (sys_run True demo_resolve demo_local demo_one)"
  have run: "sys_run True demo_resolve demo_local demo_one = Some t"
    by (simp add: t_def demo_local_def demo_one_def demo_defs run_defs)
  have "sys_step True demo_resolve (Client 2) t = None" "cl_pc (clients t 2) \<noteq> Idle"
    by (simp_all add: t_def demo_local_def demo_one_def demo_defs run_defs)
  moreover have "sys_init demo_one" "connected demo_resolve demo_one" "addresses_answer demo_resolve demo_one"
      "\<forall>d. \<not> exited demo_one d" "\<forall>c. cl_host (clients demo_one c) = 0" "length (nodes (servers demo_one 0)) = 1"
    by (auto simp: demo_one_def sys_init_def demo_sys_def demo_server_def connected_def demo_resolve_def
        inj_on_def addresses_answer_def)
  moreover have "int (draws True demo_resolve demo_local demo_one) \<le> INT_MAX" "\<not> list_ex no_reply demo_local"
      "length (starts demo_local) = 2"
    by (simp_all add: demo_local_def demo_one_def demo_defs run_defs INT_MAX_def)
  ultimately show ?thesis
    using one_machine_finishes [of demo_one demo_resolve True demo_local t 0] run
    by (intro exI [of _ t]) (auto simp: not_None_eq)
qed

end
