(* ===== verification/C_String.thy ===== *)
theory C_String
  imports Prelude
begin

text \<open>
  The string functions of the C library the program calls. A C string is the list of its
  characters before the terminating zero; a buffer that is written into has a capacity, and a
  write that does not fit with its terminating zero is the fault \<open>Out_of_bounds\<close>.
\<close>

section \<open>Tokens\<close>

text \<open>One call of \<open>strtok\<close>: skip delimiters, cut the token off, step over one delimiter.\<close>

definition strtok_step :: "char \<Rightarrow> string \<Rightarrow> (string \<times> string) option" where
  "strtok_step d s =
     (let s' = dropWhile (\<lambda>c. c = d) s in
      if s' = [] then None
      else Some (takeWhile (\<lambda>c. c \<noteq> d) s', tl (dropWhile (\<lambda>c. c \<noteq> d) s')))"

text \<open>The tokens of a loop that calls \<open>strtok\<close> until it returns null.\<close>

function strtok_all :: "char \<Rightarrow> string \<Rightarrow> string list" where
  "strtok_all d s =
     (case strtok_step d s of None \<Rightarrow> [] | Some (tok, rest) \<Rightarrow> tok # strtok_all d rest)"
  by pat_completeness auto

lemma strtok_step_shorter: "strtok_step d s = Some (tok, rest) \<Longrightarrow> length rest < length s"
proof -
  assume a: "strtok_step d s = Some (tok, rest)"
  let ?s = "dropWhile (\<lambda>c. c = d) s"
  from a have s: "?s \<noteq> []" and rest: "rest = tl (dropWhile (\<lambda>c. c \<noteq> d) ?s)"
    by (auto simp: strtok_step_def Let_def split: if_splits)
  have "length rest \<le> length (dropWhile (\<lambda>c. c \<noteq> d) ?s) - 1" by (simp add: rest)
  also have "\<dots> \<le> length ?s - 1" using length_dropWhile_le by (rule diff_le_mono)
  also have "\<dots> < length ?s" using s by simp
  also have "\<dots> \<le> length s" by (rule length_dropWhile_le)
  finally show ?thesis .
qed

termination strtok_all
  by (relation "measure (\<lambda>(d, s). length s)") (auto dest: strtok_step_shorter)

declare strtok_all.simps [simp del]

section \<open>Joining\<close>

fun join :: "string \<Rightarrow> string list \<Rightarrow> string" where
  "join sep [] = []"
| "join sep [x] = x"
| "join sep (x # y # ys) = x @ sep @ join sep (y # ys)"

definition is_token :: "char \<Rightarrow> string \<Rightarrow> bool" where
  "is_token d t \<longleftrightarrow> t \<noteq> [] \<and> d \<notin> set t"

lemma takeWhile_token: "d \<notin> set t \<Longrightarrow> takeWhile (\<lambda>c. c \<noteq> d) (t @ d # s) = t"
  by (induction t) auto

lemma dropWhile_token: "d \<notin> set t \<Longrightarrow> dropWhile (\<lambda>c. c \<noteq> d) (t @ d # s) = d # s"
  by (induction t) auto

lemma dropWhile_delims: "is_token d t \<Longrightarrow> dropWhile (\<lambda>c. c = d) (t @ s) = t @ s"
  by (cases t) (auto simp: is_token_def)

lemma strtok_all_cons:
  assumes "is_token d t"
  shows "strtok_all d (t @ d # s) = t # strtok_all d s"
  using assms dropWhile_delims [OF assms, of "d # s"]
  by (subst strtok_all.simps)
    (simp add: strtok_step_def is_token_def takeWhile_token dropWhile_token)

lemma strtok_all_last:
  assumes "is_token d t"
  shows "strtok_all d t = [t]"
proof -
  have all: "takeWhile (\<lambda>c. c \<noteq> d) t = t" "dropWhile (\<lambda>c. c \<noteq> d) t = []"
    using assms by (auto simp: is_token_def takeWhile_eq_all_conv)
  have "dropWhile (\<lambda>c. c = d) t = t" "t \<noteq> []"
    using assms dropWhile_delims [OF assms, of "[]"] by (simp_all add: is_token_def)
  then have "strtok_step d t = Some (t, [])"
    by (simp only: strtok_step_def Let_def all list.sel if_False)
  then show ?thesis
    by (simp add: strtok_all.simps [of d t] strtok_all.simps [of d "[]"] strtok_step_def)
qed

lemma strtok_join: "\<forall>t \<in> set ts. is_token d t \<Longrightarrow> strtok_all d (join [d] ts) = ts"
  by (induction "[d]" ts rule: join.induct)
    (simp_all add: strtok_all_cons strtok_all_last strtok_all.simps [of d "[]"] strtok_step_def)

lemma strtok_tokens: "t \<in> set (strtok_all d s) \<Longrightarrow> is_token d t"
proof (induction d s rule: strtok_all.induct)
  case (1 d s)
  show ?case
  proof (cases "strtok_step d s")
    case None
    with "1.prems" show ?thesis by (simp add: strtok_all.simps [of d s])
  next
    case (Some a)
    obtain tok rest where a: "a = (tok, rest)" by (cases a)
    have "is_token d tok"
    proof -
      let ?s = "dropWhile (\<lambda>c. c = d) s"
      have s: "?s \<noteq> []" "tok = takeWhile (\<lambda>c. c \<noteq> d) ?s"
        using Some a by (auto simp: strtok_step_def Let_def split: if_splits)
      have "hd ?s \<noteq> d" using s(1) by (rule hd_dropWhile)
      with s show ?thesis
        by (cases ?s) (auto simp: is_token_def dest: set_takeWhileD)
    qed
    with "1.IH" [OF Some a [symmetric]] "1.prems" show ?thesis
      by (simp add: strtok_all.simps [of d s] Some a) blast
  qed
qed

section \<open>Internet addresses\<close>

text \<open>What \<open>inet_ntop\<close> and \<open>inet_ntoa\<close> print.\<close>

fun decimal :: "nat \<Rightarrow> string" where
  "decimal n = (if n < 10 then [char_of (48 + n)] else decimal (n div 10) @ [char_of (48 + n mod 10)])"

declare decimal.simps [simp del]

definition inet_ntop :: "byte \<Rightarrow> byte \<Rightarrow> byte \<Rightarrow> byte \<Rightarrow> string" where
  "inet_ntop a b c d = join ''.'' (map (\<lambda>x. decimal (unat x)) [a, b, c, d])"

definition digit_value :: "char \<Rightarrow> nat" where
  "digit_value c = of_char c - 48"

lemma of_char_digit: "n < 10 \<Longrightarrow> of_char (char_of (48 + n) :: char) = 48 + (n :: nat)"
  by (simp add: of_char_of)

lemma decimal_value: "foldl (\<lambda>v c. 10 * v + digit_value c) 0 (decimal n) = n"
proof (induction n rule: decimal.induct)
  case (1 n)
  show ?case
  proof (cases "n < 10")
    case True
    then show ?thesis by (simp add: decimal.simps [of n] digit_value_def of_char_digit)
  next
    case False
    have "n mod 10 < 10" by simp
    then have "digit_value (char_of (48 + n mod 10)) = n mod 10"
      unfolding digit_value_def by (subst of_char_digit) simp_all
    with False 1 show ?thesis by (simp add: decimal.simps [of n])
  qed
qed

lemma inj_decimal: "decimal m = decimal n \<Longrightarrow> m = n"
  by (metis decimal_value)

lemma decimal_digits: "c \<in> set (decimal n) \<Longrightarrow> 48 \<le> (of_char c :: nat) \<and> (of_char c :: nat) < 58"
proof (induction n rule: decimal.induct)
  case (1 n)
  have "n mod 10 < 10" by simp
  then have "of_char (char_of (48 + n mod 10) :: char) = 48 + n mod 10" by (rule of_char_digit)
  with 1 show ?case
    by (cases "n < 10") (auto simp: decimal.simps [of n] of_char_digit)
qed

lemma decimal_token: "is_token CHR ''.'' (decimal n)" "CHR 0x00 \<notin> set (decimal n)"
proof -
  have "decimal n \<noteq> []" by (simp add: decimal.simps [of n])
  moreover have "CHR ''.'' \<notin> set (decimal n)" "CHR 0x00 \<notin> set (decimal n)"
    using decimal_digits [of _ n] by force+
  ultimately show "is_token CHR ''.'' (decimal n)" "CHR 0x00 \<notin> set (decimal n)" by (simp_all add: is_token_def)
qed

lemma length_decimal: "n < 256 \<Longrightarrow> length (decimal n) \<le> 3"
  by (simp add: decimal.simps [of n] decimal.simps [of "n div 10"] decimal.simps [of "n div 10 div 10"])

lemma length_inet_ntop: "length (inet_ntop a b c d) \<le> 15"
proof -
  have "length (decimal (unat x)) \<le> 3" for x :: byte
    using length_decimal [of "unat x"] unsigned_less [of x, where ?'a = nat] by simp
  from this [of a] this [of b] this [of c] this [of d] show ?thesis by (simp add: inet_ntop_def)
qed

lemma nul_inet_ntop: "CHR 0x00 \<notin> set (inet_ntop a b c d)"
  by (simp add: inet_ntop_def decimal_token)

lemma inj_inet_ntop: "inet_ntop a b c d = inet_ntop a' b' c' d' \<longleftrightarrow> a = a' \<and> b = b' \<and> c = c' \<and> d = d'"
proof
  have tok: "strtok_all CHR ''.'' (inet_ntop a b c d) = map (\<lambda>x. decimal (unat x)) [a, b, c, d]" for a b c d
    unfolding inet_ntop_def by (rule strtok_join) (auto simp: decimal_token)
  assume "inet_ntop a b c d = inet_ntop a' b' c' d'"
  then have "map (\<lambda>x. decimal (unat x)) [a, b, c, d] = map (\<lambda>x. decimal (unat x)) [a', b', c', d']"
    using tok by metis
  then show "a = a' \<and> b = b' \<and> c = c' \<and> d = d'" by (auto dest!: inj_decimal intro: word_unat_eq_iff [THEN iffD2])
qed simp

section \<open>Buffers\<close>

text \<open>\<open>strcat\<close> into a buffer of \<open>cap\<close> bytes.\<close>

definition strcat :: "nat \<Rightarrow> string \<Rightarrow> string \<Rightarrow> string outcome" where
  "strcat cap dst src =
     (if length dst + length src + 1 \<le> cap then Inr (dst @ src) else Inl Out_of_bounds)"

text \<open>
  \<open>strncpy\<close> into an array of \<open>n\<close> bytes: at most \<open>n\<close> characters, padded with zeroes; without a
  terminating zero when the source is not shorter than \<open>n\<close>.
\<close>

definition strncpy :: "nat \<Rightarrow> string \<Rightarrow> string" where
  "strncpy n src = take n src @ replicate (n - length src) (CHR 0x00)"

text \<open>The C string in an array, and the comparison of the first \<open>n\<close> characters of two.\<close>

definition c_str :: "string \<Rightarrow> string" where
  "c_str a = takeWhile (\<lambda>c. c \<noteq> CHR 0x00) a"

definition strncmp_eq :: "nat \<Rightarrow> string \<Rightarrow> string \<Rightarrow> bool" where
  "strncmp_eq n a b \<longleftrightarrow> take n (c_str a) = take n (c_str b)"

lemma length_strncpy [simp]: "length (strncpy n src) = n"
  by (simp add: strncpy_def)

lemma c_str_strncpy: "CHR 0x00 \<notin> set src \<Longrightarrow> c_str (strncpy n src) = take n src"
proof -
  assume a: "CHR 0x00 \<notin> set src"
  then have "\<forall>c \<in> set (take n src). c \<noteq> CHR 0x00" by (metis in_set_takeD)
  then show ?thesis
    by (cases "n - length src") (simp_all add: c_str_def strncpy_def takeWhile_append2)
qed

end
