(* ===== verification/Utility.thy ===== *)
theory Utility
  imports C_String Xdr
begin

unbundle bit_operations_syntax

text \<open>
  The functions of \<^verbatim>\<open>utility.c\<close> that read the network interfaces and open connections. What the
  operating system returns is an argument: the list of interfaces of \<open>getifaddrs\<close>, each with
  an address that may be null, and the outcome of \<open>clnt_create\<close>.
\<close>

section \<open>Interfaces\<close>

datatype sockaddr =
    Sockaddr_in byte byte byte byte
  | Sockaddr_ll "byte list"
  | Sockaddr_other

type_synonym ifaddrs = "sockaddr option list"

text \<open>The array \<open>sll_addr\<close> has eight bytes.\<close>

definition ifaddrs_ok :: "ifaddrs \<Rightarrow> bool" where
  "ifaddrs_ok addrs \<longleftrightarrow> (\<forall>b. Some (Sockaddr_ll b) \<in> set addrs \<longrightarrow> length b = 8)"

section \<open>Local addresses\<close>

text \<open>
  When \<open>getifaddrs\<close> fails, the loop reads the structure that was allocated and never written.
\<close>

fun local_ips :: "ifaddrs \<Rightarrow> string list" where
  "local_ips [] = []"
| "local_ips (Some (Sockaddr_in a b c d) # addrs) = inet_ntop a b c d # local_ips addrs"
| "local_ips (_ # addrs) = local_ips addrs"

definition get_local_ip_addresses :: "ifaddrs option \<Rightarrow> string list \<Rightarrow> string list outcome" where
  "get_local_ip_addresses getifaddrs buf =
     (case getifaddrs of
        None \<Rightarrow> Inl Uninitialised_read
      | Some addrs \<Rightarrow> Inr (buf @ local_ips addrs))"

section \<open>Hardware address\<close>

fun get_ptr :: "sockaddr option \<Rightarrow> byte list option outcome" where
  "get_ptr None = Inl Null_dereference"
| "get_ptr (Some (Sockaddr_ll b)) = Inr (Some b)"
| "get_ptr (Some _) = Inr None"

definition or_mac :: "u64 \<Rightarrow> byte list \<Rightarrow> u64" where
  "or_mac result ptr =
     fold (\<lambda>i r. r OR push_bit (8 * i) (ucast (ptr ! (5 - i)))) [5, 4, 3, 2, 1, 0] result"

fun mac_loop :: "ifaddrs \<Rightarrow> u64 \<Rightarrow> u64 outcome" where
  "mac_loop [] result = Inr result"
| "mac_loop (a # addrs) result =
     (case get_ptr a of
        Inl f \<Rightarrow> Inl f
      | Inr None \<Rightarrow> mac_loop addrs result
      | Inr (Some ptr) \<Rightarrow>
          (let result' = or_mac result ptr in
           if result' \<noteq> 0 then Inr result' else mac_loop addrs result'))"

definition get_mac_address :: "ifaddrs option \<Rightarrow> u64 outcome" where
  "get_mac_address getifaddrs =
     (case getifaddrs of None \<Rightarrow> Inr 0 | Some addrs \<Rightarrow> mac_loop addrs 0)"

section \<open>Connections\<close>

text \<open>\<open>clnt_create\<close> is an argument: the connection it opens, or null.\<close>

definition create_client :: "(string \<Rightarrow> 'c option) \<Rightarrow> string \<Rightarrow> 'c outcome" where
  "create_client clnt_create h =
     (case clnt_create h of None \<Rightarrow> Inl Exit_failure | Some client \<Rightarrow> Inr client)"

section \<open>Threads that serve remote calls\<close>

datatype reply = Success | Decode_error | No_procedure | System_error

datatype 'td dispatched =
    Replied "reply list"
  | Spawned 'td

text \<open>
  \<open>parse\<close> is the function pointer \<open>parse_thread_data\<close>, which fills the data for the new thread from the
  procedure number and the bytes of the argument.
\<close>

definition dispatcher :: "(nat \<Rightarrow> byte list \<Rightarrow> 'td outcome) \<Rightarrow> nat \<Rightarrow> byte list \<Rightarrow> 'td dispatched outcome" where
  "dispatcher parse rq_proc bs =
     (if rq_proc = 0 then Inr (Replied [Success])
      else case parse rq_proc bs of
        Inl f \<Rightarrow> Inl f
      | Inr td \<Rightarrow> Inr (Spawned td))"

text \<open>
  What the thread does after the procedure has returned \<open>retval\<close>: the reply, if any, and the release
  of the arguments. \<open>sent\<close> and \<open>freed\<close> are the results of \<open>svc_sendreply\<close> and \<open>svc_freeargs\<close>.
\<close>

definition run_thread :: "bool \<Rightarrow> bool \<Rightarrow> bool \<Rightarrow> reply list outcome" where
  "run_thread retval sent freed =
     (let replies = (if retval then (if sent then [Success] else [System_error]) else []) in
      if freed then Inr replies else Inl Exit_failure)"

section \<open>Properties\<close>

text \<open>The hardware address of the first interface that has one, as a number.\<close>

definition mac_value :: "byte list \<Rightarrow> u64" where
  "mac_value b = of_nat (be_val (take 6 b))"

fun first_mac :: "ifaddrs \<Rightarrow> u64" where
  "first_mac [] = 0"
| "first_mac (Some (Sockaddr_ll b) # addrs) = (if mac_value b \<noteq> 0 then mac_value b else first_mac addrs)"
| "first_mac (_ # addrs) = first_mac addrs"

lemma horner_or: "push_bit 8 (a :: u64) OR ucast (b :: byte) = a * 256 + ucast b"
proof -
  have "push_bit 8 a AND ucast b = 0"
    by (rule bit_word_eqI) (auto simp: bit_simps dest: bit_imp_le_length)
  then have "push_bit 8 a + ucast b = push_bit 8 a OR ucast b" by (rule disjunctive_add_eq_or)
  then show ?thesis by (simp add: push_bit_eq_mult)
qed

lemma or_mac_value:
  assumes "length b = 8"
  shows "or_mac 0 b = mac_value b"
proof -
  obtain b0 b1 b2 b3 b4 b5 c where b: "b = b0 # b1 # b2 # b3 # b4 # b5 # c"
    using assms by (auto simp: length_Suc_conv eval_nat_numeral)
  have "or_mac 0 b = push_bit 8 (push_bit 8 (push_bit 8 (push_bit 8 (push_bit 8 (ucast b0)
      OR ucast b1) OR ucast b2) OR ucast b3) OR ucast b4) OR ucast b5"
    by (simp add: or_mac_def b push_bit_or)
  also have "\<dots> = mac_value b"
    by (simp add: horner_or mac_value_def b be_val_def)
  finally show ?thesis .
qed

lemma mac_loop_first:
  assumes "None \<notin> set addrs" and "ifaddrs_ok addrs"
  shows "mac_loop addrs 0 = Inr (first_mac addrs)"
  using assms
proof (induction addrs rule: first_mac.induct)
  case (2 b addrs)
  then have "length b = 8" and "ifaddrs_ok addrs" by (auto simp: ifaddrs_ok_def)
  with 2 show ?case by (simp add: or_mac_value Let_def)
qed (auto simp: ifaddrs_ok_def)

lemma be_val_bound: "be_val bs < 256 ^ length bs"
proof (induction bs rule: rev_induct)
  case Nil
  then show ?case by (simp add: be_val_def)
next
  case (snoc b bs)
  have "unat b < 256" using unsigned_less [of b, where ?'a = nat] by simp
  with snoc show ?case by (simp add: be_val_append)
qed

lemma mac_value_bound: "mac_value b < 2 ^ 48"
proof -
  have "be_val (take 6 b) < 256 ^ length (take 6 b)" by (rule be_val_bound)
  also have "\<dots> \<le> 256 ^ 6" by (rule power_increasing) simp_all
  finally have v: "be_val (take 6 b) < 2 ^ 48" by simp
  then have "unat (of_nat (be_val (take 6 b)) :: u64) = be_val (take 6 b)"
    by (simp add: unat_of_nat)
  with v show ?thesis by (simp add: mac_value_def word_less_nat_alt)
qed

text \<open>
  C25. \<^verbatim>\<open>get_mac_address\<close> returns the six bytes of the first link-layer address that is not all
  zero, read as a big-endian number below \<open>2 ^ 48\<close>, and zero when no interface has one, provided
  no interface comes with a null address.
\<close>

theorem get_mac_address_value:
  assumes "None \<notin> set addrs" and "ifaddrs_ok addrs"
  shows "get_mac_address (Some addrs) = Inr (first_mac addrs) \<and> first_mac addrs < 2 ^ 48"
proof -
  have "first_mac addrs < 2 ^ 48"
    by (induction addrs rule: first_mac.induct) (use mac_value_bound in simp_all)
  then show ?thesis using mac_loop_first [OF assms] by (simp add: get_mac_address_def)
qed

definition sample_ifaddrs :: ifaddrs where
  "sample_ifaddrs = [Some (Sockaddr_ll [0, 0, 0, 0, 0, 0, 0, 0]), Some (Sockaddr_in 127 0 0 1),
     Some (Sockaddr_ll [0, 0, 0, 0, 1, 2, 0, 0]), Some (Sockaddr_in 10 0 0 5)]"

theorem get_mac_address_value_witness: "get_mac_address (Some sample_ifaddrs) = Inr 258"
proof -
  have "get_mac_address (Some sample_ifaddrs) = Inr (first_mac sample_ifaddrs) \<and>
      first_mac sample_ifaddrs < 2 ^ 48"
    by (rule get_mac_address_value) (auto simp: sample_ifaddrs_def ifaddrs_ok_def)
  then show ?thesis by (simp add: sample_ifaddrs_def mac_value_def be_val_def)
qed

text \<open>
  C38. An interface whose address is null, which \<open>getifaddrs\<close> may report, ends the process when it
  comes before the first interface with a hardware address: \<^verbatim>\<open>get_ptr\<close> does not test for it.
\<close>

theorem null_interface_crashes:
  assumes "\<forall>b. Some (Sockaddr_ll b) \<notin> set before"
  shows "get_mac_address (Some (before @ None # after)) = Inl Null_dereference"
proof -
  have "mac_loop (before @ None # after) 0 = Inl Null_dereference"
    using assms
  proof (induction before)
    case (Cons a before)
    then show ?case by (cases a rule: get_ptr.cases) auto
  qed simp
  then show ?thesis by (simp add: get_mac_address_def)
qed

theorem null_interface_crashes_witness:
  "get_mac_address (Some [Some (Sockaddr_in 127 0 0 1), None, Some (Sockaddr_ll [1, 2, 3, 4, 5, 6, 0, 0])]) =
     Inl Null_dereference"
  using null_interface_crashes [of "[Some (Sockaddr_in 127 0 0 1)]"] by simp

text \<open>Addresses written by \<open>inet_ntop\<close> are tokens of a comma-separated list.\<close>

lemma inet_ntop_token: "is_token CHR '','' (inet_ntop a b c d)"
proof -
  have "CHR '','' \<notin> set (decimal n)" for n using decimal_digits [of "CHR '',''" n] by auto
  then show ?thesis by (simp add: is_token_def inet_ntop_def decimal_token(1) [unfolded is_token_def])
qed

lemma local_ips_tokens: "t \<in> set (local_ips addrs) \<Longrightarrow> is_token CHR '','' t"
  by (induction addrs rule: local_ips.induct) (auto simp: inet_ntop_token)

end
