(* ===== verification/Lock_Client.thy ===== *)
theory Lock_Client
  imports Lock_Msg Utility
begin

text \<open>
  The client library of the lock manager, \<^verbatim>\<open>psu_dist_lock_mgr.c\<close>: it writes the node addresses
  into one comma-separated string, growing its buffer in steps of 1024 bytes, sends it to the
  local server, and afterwards forwards acquire and release calls. Sizes are kept as the
  source has them: \<open>str_size\<close> is an \<open>int\<close> that wraps, and comparisons convert it to
  \<open>size_t\<close>.
\<close>

section \<open>Definitions\<close>

record lock_client =
  lc_initialized :: bool

definition to_size_t :: "int \<Rightarrow> nat" where
  "to_size_t i = nat (i mod 2 ^ 64)"

text \<open>The loop that makes room; the state is the allocated capacity and \<open>str_size\<close>.\<close>

partial_function (option) grow :: "nat \<Rightarrow> nat \<Rightarrow> int \<Rightarrow> (nat \<times> int) option" where
  "grow need cap str_size =
     (if need > to_size_t str_size
      then grow need (to_size_t str_size + 1024) (c_int (str_size + 1024))
      else Some (cap, str_size))"

fun append_nodes :: "string list \<Rightarrow> string \<Rightarrow> nat \<Rightarrow> int \<Rightarrow> string outcome option" where
  "append_nodes [] node_str cap str_size = Some (Inr node_str)"
| "append_nodes (x # xs) node_str cap str_size =
     (case grow (length node_str + length x + 2) cap str_size of
        None \<Rightarrow> None
      | Some (cap', size') \<Rightarrow>
          (case strcat cap' node_str x of
             Inl f \<Rightarrow> Some (Inl f)
           | Inr s \<Rightarrow>
               (if xs \<noteq> [] then
                  (case strcat cap' s '','' of
                     Inl f \<Rightarrow> Some (Inl f)
                   | Inr s' \<Rightarrow> append_nodes xs s' cap' size')
                else append_nodes xs s cap' size')))"

definition psu_init_lock_mgr ::
    "(string \<Rightarrow> 'c option) \<Rightarrow> string list \<Rightarrow> lock_client \<Rightarrow> (wire_call option \<times> lock_client) outcome option" where
  "psu_init_lock_mgr clnt_create nodes lc =
     (case append_nodes nodes [] 1024 1024 of
        None \<Rightarrow> None
      | Some (Inl f) \<Rightarrow> Some (Inl f)
      | Some (Inr node_str) \<Rightarrow>
          (case create_client clnt_create ''127.0.0.1'' of
             Inl f \<Rightarrow> Some (Inl f)
           | Inr client \<Rightarrow> Some (Inr (init_lock_mgr_1 node_str, lc\<lparr>lc_initialized := True\<rparr>))))"

text \<open>Before initialisation the two calls print a message and return without a lock.\<close>

definition psu_acquire_lock :: "(string \<Rightarrow> 'c option) \<Rightarrow> int \<Rightarrow> lock_client \<Rightarrow> wire_call option outcome" where
  "psu_acquire_lock clnt_create n lc =
     (if \<not> lc_initialized lc then Inr None
      else case create_client clnt_create ''127.0.0.1'' of
        Inl f \<Rightarrow> Inl f
      | Inr client \<Rightarrow> Inr (acquire_lock_1 n))"

definition psu_release_lock :: "(string \<Rightarrow> 'c option) \<Rightarrow> int \<Rightarrow> lock_client \<Rightarrow> wire_call option outcome" where
  "psu_release_lock clnt_create n lc =
     (if \<not> lc_initialized lc then Inr None
      else case create_client clnt_create ''127.0.0.1'' of
        Inl f \<Rightarrow> Inl f
      | Inr client \<Rightarrow> Inr (release_lock_1 n))"

section \<open>The buffer is always large enough\<close>

lemma to_size_t_int: "n \<le> nat INT_MAX \<Longrightarrow> to_size_t (int n) = n"
  by (simp add: to_size_t_def INT_MAX_def)

lemma grow_enough:
  assumes "need \<le> nat INT_MAX - 1024" and "cap \<le> nat INT_MAX"
  shows "\<exists>cap'. grow need cap (int cap) = Some (cap', int cap') \<and> need \<le> cap' \<and> cap' \<le> nat INT_MAX"
  using assms(2)
proof (induction "need - cap" arbitrary: cap rule: less_induct)
  case less
  show ?case
  proof (cases "need > cap")
    case True
    have cap': "cap + 1024 \<le> nat INT_MAX" using True assms(1) by (simp add: INT_MAX_def)
    have "int cap + 1024 \<le> INT_MAX" using cap' by (simp add: INT_MAX_def)
    then have "c_int (int cap + 1024) = int (cap + 1024)" by (simp add: c_int_id)
    then have "grow need cap (int cap) = grow need (cap + 1024) (int (cap + 1024))"
      using True less.prems by (subst grow.simps) (simp add: to_size_t_int)
    moreover have "need - (cap + 1024) < need - cap" using True by simp
    ultimately show ?thesis using less.hyps [of "cap + 1024"] cap' by simp
  next
    case False
    with less.prems show ?thesis by (subst grow.simps) (simp add: to_size_t_int)
  qed
qed

lemma append_nodes_join:
  assumes "cap \<le> nat INT_MAX"
    and "length s + length (join '','' xs) + 2 \<le> nat INT_MAX - 1024"
  shows "append_nodes xs s cap (int cap) = Some (Inr (s @ join '','' xs))"
  using assms
proof (induction xs arbitrary: s cap)
  case Nil
  then show ?case by simp
next
  case (Cons x xs)
  have "length x \<le> length (join '','' (x # xs))" by (cases xs) simp_all
  with Cons.prems have "length s + length x + 2 \<le> nat INT_MAX - 1024" by simp
  with Cons.prems(1) obtain cap' where g: "grow (length s + length x + 2) cap (int cap) = Some (cap', int cap')"
      "length s + length x + 2 \<le> cap'" "cap' \<le> nat INT_MAX"
    using grow_enough by blast
  show ?case
  proof (cases xs)
    case Nil
    with g show ?thesis by (simp add: strcat_def)
  next
    case (Cons y ys)
    have "append_nodes xs (s @ x @ '','') cap' (int cap') = Some (Inr ((s @ x @ '','') @ join '','' xs))"
      using Cons.IH [OF g(3), of "s @ x @ '',''"] Cons.prems(2) Cons by simp
    with g Cons show ?thesis by (simp add: strcat_def)
  qed
qed

lemma psu_init_lock_mgr_joins:
  assumes "length (join '','' nodes) + 2 \<le> nat INT_MAX - 1024"
    and "clnt_create ''127.0.0.1'' = Some client"
  shows "psu_init_lock_mgr clnt_create nodes lc =
    Some (Inr (init_lock_mgr_1 (join '','' nodes), lc\<lparr>lc_initialized := True\<rparr>))"
proof -
  have "append_nodes nodes [] 1024 (int 1024) = Some (Inr (join '','' nodes))"
    using append_nodes_join [of 1024 "[]" nodes] assms(1) by (simp add: INT_MAX_def)
  then show ?thesis using assms(2) by (simp add: psu_init_lock_mgr_def create_client_def)
qed

text \<open>
  C21. For every list of node addresses whose joined length is below two gigabytes less 1026 bytes,
  \<^verbatim>\<open>psu_init_lock_mgr\<close> ends, writes nothing outside its buffer although the buffer starts with 1024
  bytes, and sends the addresses separated by single commas.
\<close>

theorem psu_init_lock_mgr_sends:
  assumes "length (join '','' nodes) + 2 \<le> nat INT_MAX - 1024"
    and "clnt_create ''127.0.0.1'' = Some client"
  shows "psu_init_lock_mgr clnt_create nodes lc =
    Some (Inr (init_lock_mgr_1 (join '','' nodes), lc\<lparr>lc_initialized := True\<rparr>))"
  using assms by (rule psu_init_lock_mgr_joins)

theorem psu_init_lock_mgr_sends_witness:
  "psu_init_lock_mgr (\<lambda>h. Some ()) [''10.0.0.5'', ''10.0.0.6''] \<lparr>lc_initialized = False\<rparr> =
     Some (Inr (init_lock_mgr_1 ''10.0.0.5,10.0.0.6'', \<lparr>lc_initialized = True\<rparr>))"
  using psu_init_lock_mgr_sends [of "[''10.0.0.5'', ''10.0.0.6'']" "\<lambda>h. Some ()" "()" "\<lparr>lc_initialized = False\<rparr>"]
  by (simp add: INT_MAX_def)

end
