(* ===== verification/Lock_Test.thy ===== *)
theory Lock_Test
  imports Lock_Termination Lock_Client "HOL-Library.Multiset"
begin

text \<open>
  The test program of the lock manager, \<^verbatim>\<open>psu_dist_lock_mgr_test.c\<close>: on one machine it finishes under every
  schedule.
\<close>

section \<open>The program\<close>

text \<open>
  \<^verbatim>\<open>main\<close> passes its arguments to the lock manager and starts three threads, which use the locks 1, 1 and 2. The
  result is the call to the local server and the threads that are created, in their order, as events of
  \<open>Lock_System\<close>; \<open>None\<close> is a loop that does not end.
\<close>

definition lock_test_main ::
    "(string \<Rightarrow> 'c option) \<Rightarrow> string list \<Rightarrow> (wire_call option \<times> event list) outcome option" where
  "lock_test_main clnt_create argv =
     map_option (map_sum id (\<lambda>(call, lc). (call, map (\<lambda>i. Start i ([1, 1, 2] ! i)) [0..<3])))
       (psu_init_lock_mgr clnt_create (tl argv) \<lparr>lc_initialized = False\<rparr>)"

definition is_start :: "event \<Rightarrow> bool" where
  "is_start e \<longleftrightarrow> (case e of Start c n \<Rightarrow> True | _ \<Rightarrow> False)"

lemma starts_filter: "starts es = starts (filter is_start es)"
  by (induction es rule: starts.induct) (simp_all add: is_start_def)

lemma draws_length: "draws einval resolve es s \<le> length es"
  by (induction es arbitrary: s) (auto split: option.splits intro: le_SucI)

text \<open>The number of starts bounds the sequence numbers.\<close>

lemma lone_draws:
  assumes init: "sys_init s" "connected resolve s" "addresses_answer resolve s" "\<And>d. \<not> exited s d"
    and "sys_run einval resolve es s = Some t" and "\<not> list_ex no_reply es"
    and "\<forall>c n. Start c n \<in> set es \<longrightarrow> cl_host (clients s c) = h"
    and "int (length (starts es) * (14 + 8 * length (nodes (servers s h)))) < INT_MAX"
  shows "int (draws einval resolve es s) \<le> INT_MAX"
  using assms(5-)
proof (induction es arbitrary: t rule: rev_induct)
  case Nil
  then show ?case by (simp add: INT_MAX_def)
next
  case (snoc e es)
  let ?K = "14 + 8 * length (nodes (servers s h))"
  obtain u where u: "sys_run einval resolve es s = Some u"
    using snoc.prems(1) by (auto simp: sys_run_append split: option.splits)
  have "length (starts es) * ?K \<le> length (starts (es @ [e])) * ?K" by simp
  then have K: "int (length (starts es) * ?K) < INT_MAX" using snoc.prems(4) by linarith
  have es: "\<not> list_ex no_reply es" "\<forall>c n. Start c n \<in> set es \<longrightarrow> cl_host (clients s c) = h"
    using snoc.prems(2,3) by auto
  have "length es \<le> length (starts es) * ?K"
    using lone_bound [OF init u snoc.IH [OF u es K] es, of "set (starts es)"] by simp
  then have "draws einval resolve (es @ [e]) s \<le> Suc (length (starts es) * ?K)"
    using draws_length [of einval resolve "es @ [e]" s] by simp
  with K show ?case by linarith
qed

lemma test_threads: "map (\<lambda>i. Start i ([1, 1, 2] ! i)) [0..<3] = [Start 0 1, Start 1 1, Start 2 2]"
  by (simp add: eval_nat_numeral)

lemma lock_test_main_result:
  assumes "lock_test_main clnt_create argv = Some (Inr (call, threads))"
    and "length (join '','' (tl argv)) + 2 \<le> nat INT_MAX - 1024"
  shows "call = init_lock_mgr_1 (join '','' (tl argv))" and "threads = [Start 0 1, Start 1 1, Start 2 2]"
proof -
  have "append_nodes (tl argv) [] 1024 1024 = Some (Inr (join '','' (tl argv)))"
    using append_nodes_join [of 1024 "[]" "tl argv"] assms(2) by (simp add: INT_MAX_def)
  with assms(1) show "call = init_lock_mgr_1 (join '','' (tl argv))" "threads = [Start 0 1, Start 1 1, Start 2 2]"
    unfolding lock_test_main_def psu_init_lock_mgr_def test_threads by (auto split: sum.splits)
qed

text \<open>
  C8. The test program of the lock manager always finishes. Run on one machine of a cluster that is otherwise
  idle, it sends the list of its arguments to the server, and every schedule of its three threads is
  finite; when no thread can go on any more, each of the three has been in its critical section exactly once
  and has returned, so that \<^verbatim>\<open>pthread_join\<close> returns three times.
\<close>

theorem lock_test_finishes:
  assumes main: "lock_test_main clnt_create argv = Some (Inr (call, threads))"
    and argv: "length (join '','' (tl argv)) + 2 \<le> nat INT_MAX - 1024"
    and init: "sys_init s" "connected resolve s" "addresses_answer resolve s" "\<forall>d. \<not> exited s d"
    and host: "\<forall>c < 3. cl_host (clients s c) = h" and few: "int (42 + 24 * length (nodes (servers s h))) < INT_MAX"
    and run: "sys_run einval resolve es s = Some t" "\<not> list_ex no_reply es" "filter is_start es = threads"
  shows "call = init_lock_mgr_1 (join '','' (tl argv)) \<and> length es \<le> 42 + 24 * length (nodes (servers s h)) \<and>
    ((\<forall>e. moves e \<longrightarrow> sys_step einval resolve e t = None) \<longrightarrow>
      mset (departures es) = {#0, 1, 2#} \<and> (\<forall>c. cl_pc (clients t c) = Idle))"
proof -
  note th = lock_test_main_result(2) [OF main argv]
  have st: "starts es = [0, 1, 2]" using starts_filter [of es] run(3) th by simp
  have "c < 3" if "Start c n \<in> set es" for c n
  proof -
    have "Start c n \<in> set threads" using that unfolding run(3) [symmetric] by (simp add: is_start_def)
    then show ?thesis unfolding th by auto
  qed
  then have at: "\<forall>c n. Start c n \<in> set es \<longrightarrow> cl_host (clients s c) = h" using host by blast
  have up: "\<And>d. \<not> exited s d" using init(4) by simp
  have d: "int (draws einval resolve es s) \<le> INT_MAX"
    by (rule lone_draws [OF init(1-3) up run(1,2) at]) (use few st in simp)
  have len: "length es \<le> 42 + 24 * length (nodes (servers s h))"
    using lone_bound [OF init(1-3) up run(1) d run(2) at, of "set (starts es)"] st by simp
  have "mset (departures es) = {#0, 1, 2#} \<and> (\<forall>c. cl_pc (clients t c) = Idle)"
    if stuck: "\<forall>e. moves e \<longrightarrow> sys_step einval resolve e t = None"
  proof -
    have idle: "cl_pc (clients t c) = Idle" for c
      using lone_moves [OF init run(1) d run(2) at, of c] stuck by (metis option.distinct(1))
    have "count_list (departures es) c = count_list (starts es) c" for c
      using visits_run [OF run(1), of c] idle init(1) by (simp add: sys_init_def)
    then have "mset (departures es) = mset (starts es)" by (intro multiset_eqI) (simp add: count_mset)
    with idle st show ?thesis by simp
  qed
  with lock_test_main_result(1) [OF main argv] len show ?thesis by blast
qed

text \<open>The three threads one after the other, on machine 0 of a cluster of two.\<close>

definition serial :: "nat \<Rightarrow> cid \<Rightarrow> int \<Rightarrow> event list" where
  "serial r c n = Start c n # replicate 6 (Client c) @ replicate 4 (Handler r) @ replicate 3 (Client c) @
     Leave c # replicate 5 (Client c)"

definition demo_test :: "event list" where
  "demo_test = serial 0 0 1 @ serial 1 1 1 @ serial 2 2 2"

lemma demo_test_runs:
  "sys_run True demo_resolve demo_test demo_one = Some (the (sys_run True demo_resolve demo_test demo_one))"
  "\<not> list_ex no_reply demo_test" "filter is_start demo_test = [Start 0 1, Start 1 1, Start 2 2]"
  by (simp_all add: demo_test_def serial_def is_start_def demo_one_def demo_defs run_defs)

theorem lock_test_finishes_witness:
  "length demo_test \<le> 66 \<and> lock_test_main (\<lambda>h. Some ()) [''test'', ''10.0.0.1'', ''10.0.0.2''] =
     Some (Inr (init_lock_mgr_1 ''10.0.0.1,10.0.0.2'', filter is_start demo_test))"
proof -
  let ?argv = "[''test'', ''10.0.0.1'', ''10.0.0.2'']"
  have j: "join '','' (tl ?argv) = ''10.0.0.1,10.0.0.2''" by simp
  have "append_nodes (tl ?argv) [] 1024 1024 = Some (Inr (join '','' (tl ?argv)))"
    using append_nodes_join [of 1024 "[]" "tl ?argv"] by (simp add: INT_MAX_def)
  then have main: "lock_test_main (\<lambda>h. Some ()) ?argv =
      Some (Inr (init_lock_mgr_1 ''10.0.0.1,10.0.0.2'', [Start 0 1, Start 1 1, Start 2 2]))"
    unfolding lock_test_main_def psu_init_lock_mgr_def test_threads j by (simp add: create_client_def)
  have "sys_init demo_one" "connected demo_resolve demo_one" "addresses_answer demo_resolve demo_one"
      "\<forall>d. \<not> exited demo_one d" "\<forall>c < 3. cl_host (clients demo_one c) = 0" "length (nodes (servers demo_one 0)) = 1"
    by (auto simp: demo_one_def sys_init_def demo_sys_def demo_server_def connected_def demo_resolve_def
        inj_on_def addresses_answer_def)
  with lock_test_finishes [OF main _ _ _ _ _ _ _ demo_test_runs, of 0] main demo_test_runs(3)
  show ?thesis by (simp add: INT_MAX_def)
qed

end
