(* ===== verification/Lock_Application.thy ===== *)
theory Lock_Application
  imports Lock_Termination Lock_Client
begin

text \<open>
  The threads of applications on top of the lock system. In \<open>Lock_System\<close> a client thread and the server thread
  that serves its call are one; here they are two, because \<^verbatim>\<open>psu_acquire_lock\<close> ignores the status of its
  remote call: when the hour set by \<^verbatim>\<open>create_client\<close> has passed, the application goes on as if it had the lock,
  while the server thread works on. Every call is served by a new server thread, as the \<^verbatim>\<open>dispatcher\<close> does it.
\<close>

section \<open>State and events\<close>

text \<open>
  \<open>Critical\<close> is the part of the program between the two library calls; it knows the server thread of the
  acquire call, if there has been one.
\<close>

datatype app_pc =
    Rest
  | Acquire_call cid
  | Critical "cid option" int
  | Release_call cid

record app =
  ap_sys :: sys
  ap_host :: "nat \<Rightarrow> host"
  ap_client :: "nat \<Rightarrow> lock_client"
  ap_pc :: "nat \<Rightarrow> app_pc"
  ap_used :: "cid list"

datatype app_event =
    App_acquire nat cid int
  | App_granted nat
  | App_gives_up nat
  | App_release nat cid
  | App_done nat
  | Inner event

section \<open>Steps\<close>

definition set_app :: "nat \<Rightarrow> app_pc \<Rightarrow> app \<Rightarrow> app" where
  "set_app a pc s = s\<lparr>ap_pc := (ap_pc s)(a := pc)\<rparr>"

text \<open>Whether a server thread has served its acquire call.\<close>

definition holding :: "app \<Rightarrow> cid \<Rightarrow> bool" where
  "holding s c \<longleftrightarrow> cl_pc (clients (ap_sys s) c) = Holding"

definition new_thread :: "app \<Rightarrow> nat \<Rightarrow> cid \<Rightarrow> bool" where
  "new_thread s a c \<longleftrightarrow> c \<notin> set (ap_used s) \<and> cl_host (clients (ap_sys s) c) = ap_host s a \<and> \<not> exited (ap_sys s) (ap_host s a)"

text \<open>
  A release call finds its acquire call answered, or it has a server thread of its own while the other one
  is still at work. Before initialisation both library functions return at once.
\<close>

fun app_step :: "bool \<Rightarrow> (string \<Rightarrow> host option) \<Rightarrow> app_event \<Rightarrow> app \<Rightarrow> app option" where
  "app_step einval resolve (App_acquire a c n) s =
     (if ap_pc s a \<noteq> Rest then None
      else if \<not> lc_initialized (ap_client s a) then Some (set_app a (Critical None n) s)
      else if \<not> new_thread s a c then None
      else map_option (\<lambda>t. set_app a (Acquire_call c) (s\<lparr>ap_sys := t, ap_used := c # ap_used s\<rparr>))
             (sys_step einval resolve (Start c n) (ap_sys s)))"
| "app_step einval resolve (App_granted a) s =
     (case ap_pc s a of
        Acquire_call c \<Rightarrow>
          (if holding s c then Some (set_app a (Critical (Some c) (cl_number (clients (ap_sys s) c))) s) else None)
      | _ \<Rightarrow> None)"
| "app_step einval resolve (App_gives_up a) s =
     (case ap_pc s a of
        Acquire_call c \<Rightarrow>
          (if holding s c then None else Some (set_app a (Critical (Some c) (cl_number (clients (ap_sys s) c))) s))
      | _ \<Rightarrow> None)"
| "app_step einval resolve (App_release a c') s =
     (case ap_pc s a of
        Critical co n \<Rightarrow>
          (if \<not> lc_initialized (ap_client s a) then Some (set_app a Rest s)
           else if co \<noteq> None \<and> holding s (the co)
           then map_option (\<lambda>t. set_app a (Release_call (the co)) (s\<lparr>ap_sys := t\<rparr>))
                  (sys_step einval resolve (Leave (the co)) (ap_sys s))
           else if \<not> new_thread s a c' then None
           else Some (set_app a (Release_call c') (s\<lparr>ap_used := c' # ap_used s,
             ap_sys := (ap_sys s)\<lparr>clients := (clients (ap_sys s))(c' :=
               (clients (ap_sys s) c')\<lparr>cl_number := n, cl_pc := Releasing RL_find\<rparr>)\<rparr>\<rparr>)))
      | _ \<Rightarrow> None)"
| "app_step einval resolve (App_done a) s =
     (case ap_pc s a of
        Release_call c \<Rightarrow> (if cl_pc (clients (ap_sys s) c) = Idle then Some (set_app a Rest s) else None)
      | _ \<Rightarrow> None)"
| "app_step einval resolve (Inner e) s =
     (case e of
        Start c n \<Rightarrow> None
      | Leave c \<Rightarrow> None
      | _ \<Rightarrow> map_option (\<lambda>t. s\<lparr>ap_sys := t\<rparr>) (sys_step einval resolve e (ap_sys s)))"

fun app_run :: "bool \<Rightarrow> (string \<Rightarrow> host option) \<Rightarrow> app_event list \<Rightarrow> app \<Rightarrow> app option" where
  "app_run einval resolve [] s = Some s"
| "app_run einval resolve (e # es) s =
     (case app_step einval resolve e s of None \<Rightarrow> None | Some t \<Rightarrow> app_run einval resolve es t)"

text \<open>No remote call gives up, neither the application's nor a server's.\<close>

definition patient :: "app_event \<Rightarrow> bool" where
  "patient e \<longleftrightarrow> (case e of App_gives_up a \<Rightarrow> False | Inner e' \<Rightarrow> \<not> no_reply e' | _ \<Rightarrow> True)"

definition acquires :: "app_event list \<Rightarrow> nat" where
  "acquires es = length (filter (\<lambda>e. case e of App_acquire a c n \<Rightarrow> True | _ \<Rightarrow> False) es)"

text \<open>No server thread loses an update of a highest sequence number.\<close>

fun app_race_free :: "bool \<Rightarrow> (string \<Rightarrow> host option) \<Rightarrow> app_event list \<Rightarrow> app \<Rightarrow> bool" where
  "app_race_free einval resolve [] s \<longleftrightarrow> True"
| "app_race_free einval resolve (e # es) s \<longleftrightarrow>
     (case e of Inner e' \<Rightarrow> \<not> loses_update e' (ap_sys s) | _ \<Rightarrow> True) \<and>
     (case app_step einval resolve e s of None \<Rightarrow> True | Some t \<Rightarrow> app_race_free einval resolve es t)"

section \<open>Sequence numbers are drawn once per acquire\<close>

fun early :: "acquire_pc \<Rightarrow> nat" where
  "early (AQ_store p x) = 0"
| "early (AQ_loop p i) = 0"
| "early AQ_return = 0"
| "early _ = 1"

fun before_draw :: "client_pc \<Rightarrow> nat" where
  "before_draw (Acquiring pc) = early pc"
| "before_draw (Awaiting pc r) = early pc"
| "before_draw _ = 0"

definition draw_of :: "cid \<Rightarrow> event \<Rightarrow> sys \<Rightarrow> nat" where
  "draw_of c e s = (if e = Client c \<and> draws_seqno e s then 1 else 0)"

lemma acquire_before:
  "acquire_step einval n pc srv = Go pc' srv' \<Longrightarrow>
     early pc' + (case pc of AQ_seq p \<Rightarrow> 1 | _ \<Rightarrow> 0) \<le> early pc"
  "acquire_step einval n pc srv = Call a q pc' \<Longrightarrow> early pc' + (case pc of AQ_seq p \<Rightarrow> 1 | _ \<Rightarrow> 0) = 0"
  "acquire_step einval n pc srv = Return \<or> acquire_step einval n pc srv = Abort \<Longrightarrow>
     (case pc of AQ_seq p \<Rightarrow> 1 | _ \<Rightarrow> 0) = (0 :: nat)"
  by (cases pc; auto split: prod.splits option.splits lock_attempt.splits if_splits)+

lemma draw_step:
  assumes "sys_step einval resolve e s = Some t"
  shows "draw_of c e s + before_draw (cl_pc (clients t c)) \<le> count_list (starts [e]) c + before_draw (cl_pc (clients s c))"
proof (cases "e = Client c")
  case True
  then have cs: "client_step einval resolve c s = Some t" using assms by (auto split: if_splits)
  show ?thesis
  proof (cases "cl_pc (clients s c)")
    case (Acquiring pc)
    then have d: "draw_of c e s = (case pc of AQ_seq p \<Rightarrow> 1 | _ \<Rightarrow> 0)"
      using True by (auto simp: draw_of_def draws_seqno_def split: acquire_pc.splits)
    show ?thesis
    proof (cases "acquire_step einval (cl_number (clients s c)) pc (servers s (cl_host (clients s c)))")
      case (Go pc' srv')
      with acquire_before(1) [OF Go] cs Acquiring d True show ?thesis
        by (auto simp: client_step_def Let_def set_pc_def set_server_def)
    next
      case (Call addr pack pc')
      with acquire_before(2) [OF Call] cs Acquiring d True show ?thesis
        by (auto simp: client_step_def Let_def set_pc_def set_exited_def split: option.splits if_splits)
    next
      case Return
      with acquire_before(3) [OF disjI1 [OF Return]] cs Acquiring d True show ?thesis
        by (auto simp: client_step_def Let_def set_pc_def)
    next
      case Abort
      with acquire_before(3) [OF disjI2 [OF Abort]] cs Acquiring d True show ?thesis
        by (auto simp: client_step_def Let_def set_exited_def)
    qed (use cs Acquiring in \<open>auto simp: client_step_def\<close>)
  qed (use cs True in \<open>auto simp: client_step_def Let_def set_pc_def set_server_def set_exited_def draw_of_def draws_seqno_def
      split: if_splits reaction.splits\<close>)
next
  case False
  with assms show ?thesis
    by (cases e) (auto simp: draw_of_def client_step_def handler_step_def Let_def set_pc_def set_server_def set_exited_def
        split: if_splits client_pc.splits reaction.splits option.splits)
qed

lemma draws_starts:
  assumes "sys_run einval resolve es s = Some t" and idle: "\<And>c. cl_pc (clients s c) = Idle"
    and C: "finite C" "set (starts es) \<subseteq> C"
  shows "draws einval resolve es s + (\<Sum>c \<in> C. before_draw (cl_pc (clients t c))) \<le> length (starts es)"
  using assms(1) C(2)
proof (induction es arbitrary: t rule: rev_induct)
  case Nil
  with idle show ?case by simp
next
  case (snoc e es)
  then obtain u where u: "sys_run einval resolve es s = Some u" "sys_step einval resolve e u = Some t"
    by (auto simp: sys_run_append split: option.splits)
  let ?b = "\<lambda>s c. before_draw (cl_pc (clients s c))"
  have IH: "draws einval resolve es s + (\<Sum>c \<in> C. ?b u c) \<le> length (starts es)" using snoc u(1) by auto
  have "draws_seqno e u \<Longrightarrow> \<exists>c \<in> C. draw_of c e u = 1"
    using started_only [OF u(1) idle] snoc.prems(2)
    by (auto simp: draws_seqno_def draw_of_def split: event.splits client_pc.splits)
  then have "(if draws_seqno e u then 1 else 0) \<le> (\<Sum>c \<in> C. draw_of c e u)"
    using member_le_sum [of _ C "\<lambda>c. draw_of c e u"] C(1) by fastforce
  moreover have "(\<Sum>c \<in> C. draw_of c e u) + (\<Sum>c \<in> C. ?b t c) \<le> (\<Sum>c \<in> C. count_list (starts [e]) c) + (\<Sum>c \<in> C. ?b u c)"
    unfolding sum.distrib [symmetric] using draw_step [OF u(2)] by (intro sum_mono)
  moreover have "(\<Sum>c \<in> C. count_list (starts [e]) c) \<le> length (starts [e])"
  proof (cases e)
    case (Start x n)
    have "count_list [x] c = (if c = x then 1 else 0)" for c by simp
    with Start C(1) show ?thesis by (simp del: count_list.simps)
  qed simp_all
  ultimately show ?case using IH draws_append [OF u(1), of "[e]"] u(2) by simp
qed

section \<open>Applications that never give up\<close>

fun thread_of :: "app_pc \<Rightarrow> cid option" where
  "thread_of Rest = None"
| "thread_of (Acquire_call c) = Some c"
| "thread_of (Critical co n) = co"
| "thread_of (Release_call c) = Some c"

definition app_ok :: "app \<Rightarrow> bool" where
  "app_ok s \<longleftrightarrow> (\<forall>a. lc_initialized (ap_client s a)) \<and>
     (\<forall>a c. thread_of (ap_pc s a) = Some c \<longrightarrow> c \<in> set (ap_used s)) \<and>
     (\<forall>a b c. thread_of (ap_pc s a) = Some c \<longrightarrow> thread_of (ap_pc s b) = Some c \<longrightarrow> a = b) \<and>
     (\<forall>a co n. ap_pc s a = Critical co n \<longrightarrow> (\<exists>c. co = Some c \<and> holds_lock (ap_sys s) c n))"

lemma app_okD:
  assumes "app_ok s"
  shows "lc_initialized (ap_client s a)"
    and "thread_of (ap_pc s a) = Some c \<Longrightarrow> c \<in> set (ap_used s)"
    and "thread_of (ap_pc s a) = Some c \<Longrightarrow> thread_of (ap_pc s b) = Some c \<Longrightarrow> a = b"
    and "ap_pc s a = Critical co n \<Longrightarrow> \<exists>c. co = Some c \<and> holds_lock (ap_sys s) c n"
  using assms unfolding app_ok_def by blast+

lemma holding_stays:
  assumes "holds_lock s c n" and "sys_step einval resolve e s = Some t" and "e \<noteq> Leave c"
  shows "holds_lock t c n"
  using assms
  by (cases e) (auto simp: holds_lock_def client_step_def handler_step_def Let_def set_pc_def set_server_def set_exited_def
      split: if_splits client_pc.splits reaction.splits option.splits)

lemma set_app_simps [simp]:
  "ap_sys (set_app a pc s) = ap_sys s" "ap_host (set_app a pc s) = ap_host s" "ap_client (set_app a pc s) = ap_client s"
  "ap_used (set_app a pc s) = ap_used s" "ap_pc (set_app a pc s) = (ap_pc s)(a := pc)"
  by (simp_all add: set_app_def)

text \<open>A thread of the application moves while no other one loses its lock.\<close>

lemma app_ok_move:
  assumes ok: "app_ok s" and t: "ap_client t = ap_client s" "ap_pc t = (ap_pc s)(a := pc)" "set (ap_used s) \<subseteq> set (ap_used t)"
    and thread: "\<And>c. thread_of pc = Some c \<Longrightarrow> c \<in> set (ap_used t) \<and> (c \<notin> set (ap_used s) \<or> thread_of (ap_pc s a) = Some c)"
    and crit: "\<And>co n. pc = Critical co n \<Longrightarrow> \<exists>c. co = Some c \<and> holds_lock (ap_sys t) c n"
    and keep: "\<And>c n. holds_lock (ap_sys s) c n \<Longrightarrow> thread_of (ap_pc s a) \<noteq> Some c \<Longrightarrow> holds_lock (ap_sys t) c n"
  shows "app_ok t"
proof -
  note s = app_okD(2-4) [OF ok]
  have "c \<in> set (ap_used t)" if "thread_of (ap_pc t b) = Some c" for b c
    using that t(2,3) thread s(1) by (cases "b = a") auto
  moreover have "b = b'" if "thread_of (ap_pc t b) = Some c" "thread_of (ap_pc t b') = Some c" for b b' c
    using that t(2) thread [of c] s(1) s(2) by (cases "b = a"; cases "b' = a") auto
  moreover have "\<exists>c. co = Some c \<and> holds_lock (ap_sys t) c n" if "ap_pc t b = Critical co n" for b co n
  proof (cases "b = a")
    case False
    then have b: "ap_pc s b = Critical co n" using that t(2) by simp
    with s(3) obtain c where c: "co = Some c" "holds_lock (ap_sys s) c n" by blast
    moreover have "thread_of (ap_pc s a) \<noteq> Some c" using s(2) [of b c a] b c(1) False by auto
    ultimately show ?thesis using keep by blast
  qed (use that t(2) crit in auto)
  moreover have "\<forall>a. lc_initialized (ap_client t a)" using ok t(1) by (simp add: app_ok_def)
  ultimately show ?thesis unfolding app_ok_def by blast
qed

text \<open>A statement of a server thread takes no lock away from an application thread.\<close>

lemma app_ok_inner:
  assumes ok: "app_ok s" and step: "sys_step einval resolve e (ap_sys s) = Some u" and e: "\<And>c. e \<noteq> Leave c"
  shows "app_ok (s\<lparr>ap_sys := u\<rparr>)"
proof -
  have "\<exists>c. co = Some c \<and> holds_lock u c n" if "ap_pc s a = Critical co n" for a co n
    using app_okD(4) [OF ok that] holding_stays [OF _ step e] by blast
  then show ?thesis using ok by (simp add: app_ok_def)
qed

text \<open>
  While nobody gives up, what the applications do is a run of the lock system: \<open>simulates\<close> says that the
  step kept the invariant and was made of the given events of the system.
\<close>

definition simulates :: "bool \<Rightarrow> (string \<Rightarrow> host option) \<Rightarrow> app_event list \<Rightarrow> event list \<Rightarrow> app \<Rightarrow> app \<Rightarrow> bool" where
  "simulates einval resolve es fs s t \<longleftrightarrow> app_ok t \<and> sys_run einval resolve fs (ap_sys s) = Some (ap_sys t) \<and>
     \<not> list_ex no_reply fs \<and> length (starts fs) = acquires es \<and>
     (app_race_free einval resolve es s \<longrightarrow> race_free einval resolve fs (ap_sys s))"

lemma acquire_simulates:
  assumes "app_ok s" "app_step einval resolve (App_acquire a c n) s = Some t"
  shows "simulates einval resolve [App_acquire a c n] [Start c n] s t"
proof -
  obtain u where u: "ap_pc s a = Rest" "new_thread s a c" "sys_step einval resolve (Start c n) (ap_sys s) = Some u"
      "t = set_app a (Acquire_call c) (s\<lparr>ap_sys := u, ap_used := c # ap_used s\<rparr>)"
    using assms by (auto simp: app_ok_def simp del: sys_step.simps split: if_splits)
  have "app_ok t"
    using u by (intro app_ok_move [OF assms(1), of t a "Acquire_call c"])
      (auto simp: new_thread_def simp del: sys_step.simps intro: holding_stays)
  with u show ?thesis by (simp add: simulates_def acquires_def loses_update_def del: sys_step.simps)
qed

lemma granted_simulates:
  assumes "app_ok s" "app_step einval resolve (App_granted a) s = Some t"
  shows "simulates einval resolve [App_granted a] [] s t"
proof -
  obtain c where c: "ap_pc s a = Acquire_call c" "holding s c"
      "t = set_app a (Critical (Some c) (cl_number (clients (ap_sys s) c))) s"
    using assms by (auto split: app_pc.splits if_splits)
  have "app_ok t"
    using c app_okD(2) [OF assms(1), of a c]
    by (intro app_ok_move [OF assms(1), of t a "Critical (Some c) (cl_number (clients (ap_sys s) c))"])
      (auto simp: holding_def holds_lock_def)
  with c show ?thesis by (simp add: simulates_def acquires_def)
qed

lemma release_simulates:
  assumes "app_ok s" "app_step einval resolve (App_release a c') s = Some t"
  shows "\<exists>c. simulates einval resolve [App_release a c'] [Leave c] s t"
proof -
  obtain c n where c: "ap_pc s a = Critical (Some c) n" "holds_lock (ap_sys s) c n"
    using assms(2) app_okD(4) [OF assms(1), of a] by (cases "ap_pc s a") auto
  obtain u where u: "sys_step einval resolve (Leave c) (ap_sys s) = Some u" "t = set_app a (Release_call c) (s\<lparr>ap_sys := u\<rparr>)"
    using assms(2) app_okD(1) [OF assms(1), of a] c by (auto simp: holding_def holds_lock_def simp del: sys_step.simps split: if_splits)
  have "app_ok t"
    using u c app_okD(2) [OF assms(1), of a c] holding_stays [OF _ u(1)]
    by (intro app_ok_move [OF assms(1), of t a "Release_call c"]) (auto simp del: sys_step.simps)
  with u show ?thesis by (intro exI [of _ c]) (simp add: simulates_def acquires_def loses_update_def del: sys_step.simps)
qed

lemma done_simulates:
  assumes "app_ok s" "app_step einval resolve (App_done a) s = Some t"
  shows "simulates einval resolve [App_done a] [] s t"
proof -
  have "app_ok (set_app a Rest s)" by (rule app_ok_move [OF assms(1), of _ a Rest]) simp_all
  with assms(2) show ?thesis by (auto simp: simulates_def acquires_def split: app_pc.splits if_splits)
qed

lemma inner_simulates:
  assumes "app_ok s" "app_step einval resolve (Inner e) s = Some t" "\<not> no_reply e"
  shows "simulates einval resolve [Inner e] [e] s t"
proof -
  obtain u where u: "sys_step einval resolve e (ap_sys s) = Some u" "t = s\<lparr>ap_sys := u\<rparr>" "\<And>c. e \<noteq> Leave c" "starts [e] = []"
    using assms(2) by (auto simp del: sys_step.simps split: event.splits)
  with app_ok_inner [OF assms(1) u(1,3)] assms(3) show ?thesis
    by (simp add: simulates_def acquires_def del: sys_step.simps)
qed

lemma step_simulates:
  assumes "app_ok s" "patient e" "app_step einval resolve e s = Some t"
  shows "\<exists>fs. simulates einval resolve [e] fs s t"
proof (cases e)
  case (App_acquire a c n)
  then show ?thesis using acquire_simulates assms by blast
next
  case (App_release a c)
  then show ?thesis using release_simulates assms by blast
next
  case (App_granted a)
  then show ?thesis using granted_simulates assms by blast
next
  case (App_done a)
  then show ?thesis using done_simulates assms by blast
next
  case (Inner f)
  then show ?thesis using inner_simulates assms by (fastforce simp: patient_def simp del: app_step.simps)
qed (use assms in \<open>simp add: patient_def\<close>)

lemma run_simulates:
  assumes "app_ok s" "list_all patient es" "app_run einval resolve es s = Some t"
  shows "\<exists>fs. simulates einval resolve es fs s t"
  using assms
proof (induction es arbitrary: s)
  case Nil
  then show ?case by (auto simp: simulates_def acquires_def intro: exI [of _ "[]"])
next
  case (Cons e es)
  then obtain u where u: "app_step einval resolve e s = Some u" "app_run einval resolve es u = Some t"
    by (auto simp del: app_step.simps split: option.splits)
  obtain fs where fs: "simulates einval resolve [e] fs s u" using step_simulates Cons.prems u by fastforce
  obtain gs where gs: "simulates einval resolve es gs u t" using Cons fs u by (auto simp: simulates_def)
  have "simulates einval resolve (e # es) (fs @ gs) s t"
    using fs gs u(1) race_free_append [of einval resolve fs "ap_sys s" "ap_sys u" gs]
    by (auto simp: simulates_def sys_run_append starts_append acquires_def simp del: app_step.simps)
  then show ?case by blast
qed

section \<open>Properties\<close>

text \<open>The applications of a cluster whose library has been initialised and not used yet.\<close>

definition apps_ready :: "app \<Rightarrow> bool" where
  "apps_ready s \<longleftrightarrow> sys_init (ap_sys s) \<and> ap_used s = [] \<and>
     (\<forall>a. lc_initialized (ap_client s a) \<and> ap_pc s a = Rest)"

lemma critical_exclusive:
  assumes "apps_ready s" "connected resolve (ap_sys s)" "app_run einval resolve es s = Some t" "list_all patient es"
    "int (acquires es) \<le> INT_MAX" "one_asker resolve (ap_sys s) \<or> app_race_free einval resolve es s"
    "ap_pc t a = Critical co n" "ap_pc t b = Critical co' n"
  shows "a = b"
proof -
  have "app_ok s" using assms(1) by (simp add: apps_ready_def app_ok_def)
  then obtain fs where "simulates einval resolve es fs s t" using run_simulates assms(3,4) by blast
  then have t: "sys_run einval resolve fs (ap_sys s) = Some (ap_sys t)" "\<not> list_ex no_reply fs" "length (starts fs) = acquires es"
      "app_ok t" "one_asker resolve (ap_sys s) \<or> race_free einval resolve fs (ap_sys s)"
    using assms(6) by (auto simp: simulates_def)
  have "int (draws einval resolve fs (ap_sys s)) \<le> INT_MAX"
    using draws_starts [OF t(1) _ finite_set order_refl] assms(1,5) t(3) by (fastforce simp: apps_ready_def sys_init_def)
  moreover obtain c c' where c: "co = Some c" "co' = Some c'" "holds_lock (ap_sys t) c n" "holds_lock (ap_sys t) c' n"
    using app_okD(4) [OF t(4) assms(7)] app_okD(4) [OF t(4) assms(8)] by blast
  ultimately have "c = c'"
    using exclusive_run [OF _ assms(2) t(1) _ t(2,5) c(4,3)] assms(1) by (auto simp: apps_ready_def)
  then show ?thesis using app_okD(3) [OF t(4), of a c b] assms(7,8) c by simp
qed

text \<open>
  Four application threads on one machine of the demonstration cluster. Thread 0 has lock 7; thread 1 asks
  for it as well, waits for its time limit and goes on; thread 1 then releases what it never had.
\<close>

definition demo_app :: app where
  "demo_app = \<lparr>ap_sys = demo_one, ap_host = (\<lambda>a. 0), ap_client = (\<lambda>a. \<lparr>lc_initialized = True\<rparr>), ap_pc = (\<lambda>a. Rest), ap_used = []\<rparr>"

definition demo_taken :: "app_event list" where
  "demo_taken = App_acquire 0 0 7 # map Inner (replicate 6 (Client 0) @ replicate 4 (Handler 0) @ replicate 3 (Client 0)) @ [App_granted 0, App_acquire 1 1 7, Inner (Client 1)]"

definition demo_given_up :: "app_event list" where
  "demo_given_up = demo_taken @ [App_gives_up 1]"

definition demo_stolen :: "app_event list" where
  "demo_stolen = demo_given_up @ App_release 1 2 # map Inner (replicate 5 (Client 2)) @
     App_done 1 # App_acquire 3 3 7 # map Inner (replicate 6 (Client 3) @ replicate 4 (Handler 1) @
     replicate 3 (Client 3)) @ [App_granted 3]"

definition after_app :: "app_event list \<Rightarrow> app" where
  "after_app es = the (app_run True demo_resolve es demo_app)"

lemmas demo_app_defs = demo_app_def demo_taken_def demo_given_up_def demo_stolen_def demo_one_def set_app_def holding_def new_thread_def

text \<open>
  C14. Applications exclude each other. Start the applications of a connected cluster after initialisation and
  let their threads call \<open>psu_acquire_lock\<close> and \<open>psu_release_lock\<close> while all the server threads interleave in any
  way. As long as every remote call, of a library or of a server, returns with its reply, at most \<open>INT_MAX\<close> acquire
  calls are made, and either every server is asked by one machine only or no update of a highest sequence number
  is lost, no two threads are between an acquire and a release of the same lock.
\<close>

theorem application_exclusion:
  assumes "apps_ready s" "connected resolve (ap_sys s)" "app_run einval resolve es s = Some t" "list_all patient es"
    "int (acquires es) \<le> INT_MAX" "one_asker resolve (ap_sys s) \<or> app_race_free einval resolve es s"
    "ap_pc t a = Critical co n" "b \<noteq> a"
  shows "ap_pc t b \<noteq> Critical co' n"
  using critical_exclusive [OF assms(1-7)] assms(8) by blast

theorem application_exclusion_witness:
  "ap_pc (after_app demo_taken) 0 = Critical (Some 0) 7 \<and> ap_pc (after_app demo_taken) 1 \<noteq> Critical (Some 1) 7"
proof -
  have "app_run True demo_resolve demo_taken demo_app = Some (after_app demo_taken)"
      "ap_pc (after_app demo_taken) 0 = Critical (Some 0) 7"
    by (simp_all add: after_app_def demo_app_defs demo_defs run_defs)
  moreover have "apps_ready demo_app" "connected demo_resolve (ap_sys demo_app)"
    by (auto simp: apps_ready_def demo_app_def demo_one_def sys_init_def demo_sys_def demo_server_def connected_def
        demo_resolve_def inj_on_def)
  moreover have "list_all patient demo_taken" "int (acquires demo_taken) \<le> INT_MAX"
    by (simp_all add: demo_taken_def patient_def acquires_def INT_MAX_def run_defs)
  moreover have "one_asker demo_resolve (ap_sys demo_app)"
    using demo_one_asker by (simp add: one_asker_def demo_app_def demo_one_def)
  ultimately show ?thesis using application_exclusion [of demo_app demo_resolve True demo_taken] by auto
qed

text \<open>
  One expired call is enough to break this. \<open>psu_acquire_lock\<close> does not look at the status of its remote
  call. After the hour of \<open>create_client\<close> a waiting thread enters the part of the program that the lock
  protects beside the owner, and its release then frees the owner's lock: a third thread is granted the lock
  in the regular way while the owner still has it.
\<close>

lemma give_up_breaks_exclusion:
  "(\<exists>t. app_run True demo_resolve demo_given_up demo_app = Some t \<and>
     ap_pc t 0 = Critical (Some 0) 7 \<and> ap_pc t 1 = Critical (Some 1) 7) \<and>
   (\<exists>t. app_run True demo_resolve demo_stolen demo_app = Some t \<and>
     ap_pc t 0 = Critical (Some 0) 7 \<and> ap_pc t 1 = Rest \<and> ap_pc t 3 = Critical (Some 3) 7 \<and> holding t 0 \<and> holding t 3)"
proof (intro conjI)
  show "\<exists>t. app_run True demo_resolve demo_given_up demo_app = Some t \<and>
     ap_pc t 0 = Critical (Some 0) 7 \<and> ap_pc t 1 = Critical (Some 1) 7"
    by (simp add: demo_app_defs demo_defs run_defs)
  show "\<exists>t. app_run True demo_resolve demo_stolen demo_app = Some t \<and> ap_pc t 0 = Critical (Some 0) 7 \<and>
     ap_pc t 1 = Rest \<and> ap_pc t 3 = Critical (Some 3) 7 \<and> holding t 0 \<and> holding t 3"
    by (simp add: demo_app_defs demo_defs run_defs)
qed

end
