(* ===== verification/Dsm_Msg.thy ===== *)
theory Dsm_Msg
  imports Xdr C_String
begin

text \<open>
  The messages of the shared memory: the structures of \<^verbatim>\<open>psu_dsm_msg.h\<close>, their filters from
  \<^verbatim>\<open>psu_dsm_msg_xdr.c\<close>, the client stubs of \<^verbatim>\<open>psu_dsm_msg_clnt.c\<close> and the dispatcher of
  \<^verbatim>\<open>psu_dsm_msg_svc.c\<close>. Character arrays are lists of their fixed length; a mode is the integer
  the enumeration stands for, since the wire can carry any.
\<close>

section \<open>Structures\<close>

definition PAGE_SIZE :: nat where "PAGE_SIZE = 4096"
definition NAME_LEN :: nat where "NAME_LEN = 32"
definition IP_LEN :: nat where "IP_LEN = 16"

record host_t =
  ht_ip :: string

record page_t =
  pt_size :: u32
  pt_addr :: "byte list"

record pageid_t =
  pg_name :: string
  pg_size :: u32

record request_t =
  rq_pageid :: pageid_t
  rq_mode :: int
  rq_from :: string

definition NA :: int where "NA = 0"
definition RO :: int where "RO = 1"
definition RW :: int where "RW = 2"

section \<open>Filters\<close>

definition xdr_chars :: "nat \<Rightarrow> string xdrproc" where
  "xdr_chars n = xdr_struct (map char_byte) (map byte_char) (xdr_vector n xdr_char)"

definition xdr_host_t :: "host_t xdrproc" where
  "xdr_host_t = xdr_struct ht_ip (\<lambda>s. \<lparr>ht_ip = s\<rparr>) (xdr_chars IP_LEN)"

definition xdr_page_t :: "page_t xdrproc" where
  "xdr_page_t = xdr_struct (\<lambda>p. (pt_size p, pt_addr p)) (\<lambda>(s, a). \<lparr>pt_size = s, pt_addr = a\<rparr>)
     (xdr_pair xdr_u_int (xdr_vector PAGE_SIZE xdr_char))"

definition xdr_pageid_t :: "pageid_t xdrproc" where
  "xdr_pageid_t = xdr_struct (\<lambda>p. (pg_name p, pg_size p)) (\<lambda>(n, s). \<lparr>pg_name = n, pg_size = s\<rparr>)
     (xdr_pair (xdr_chars NAME_LEN) xdr_u_int)"

definition xdr_mode_t :: "int xdrproc" where
  "xdr_mode_t = xdr_int"

definition xdr_request_t :: "request_t xdrproc" where
  "xdr_request_t = xdr_struct (\<lambda>r. (rq_pageid r, rq_mode r, rq_from r))
     (\<lambda>(p, m, f). \<lparr>rq_pageid = p, rq_mode = m, rq_from = f\<rparr>)
     (xdr_pair xdr_pageid_t (xdr_pair xdr_mode_t (xdr_chars IP_LEN)))"

lemma sized_chars [codec_laws]: "sized_codec (xdr_chars n) (n * 4)"
  unfolding xdr_chars_def by (rule sized_struct [OF sized_vector [OF sized_char]]) (simp add: o_def)

interpretation host_t_xdr: sized_codec xdr_host_t 64
proof -
  have "sized_codec (xdr_chars IP_LEN) (IP_LEN * 4)" by (rule sized_chars)
  then show "sized_codec xdr_host_t 64"
    unfolding xdr_host_t_def by (intro sized_struct) (simp_all add: IP_LEN_def)
qed

interpretation page_t_xdr: sized_codec xdr_page_t 16388
proof -
  have "sized_codec (xdr_pair xdr_u_int (xdr_vector PAGE_SIZE xdr_char)) (4 + PAGE_SIZE * 4)"
    by (intro codec_laws)
  then show "sized_codec xdr_page_t 16388"
    unfolding xdr_page_t_def by (intro sized_struct) (simp_all add: PAGE_SIZE_def)
qed

interpretation pageid_t_xdr: sized_codec xdr_pageid_t 132
proof -
  have "sized_codec (xdr_pair (xdr_chars NAME_LEN) xdr_u_int) (NAME_LEN * 4 + 4)"
    by (intro codec_laws)
  then show "sized_codec xdr_pageid_t 132"
    unfolding xdr_pageid_t_def by (intro sized_struct) (simp_all add: NAME_LEN_def)
qed

interpretation request_t_xdr: sized_codec xdr_request_t 200
proof -
  have "sized_codec (xdr_pair xdr_pageid_t (xdr_pair xdr_int (xdr_chars IP_LEN))) (132 + (4 + IP_LEN * 4))"
    by (intro codec_laws pageid_t_xdr.sized_codec_axioms)
  then show "sized_codec xdr_request_t 200"
    unfolding xdr_request_t_def xdr_mode_t_def by (intro sized_struct) (simp_all add: IP_LEN_def)
qed

section \<open>Well-formed structures\<close>

definition host_ok :: "host_t \<Rightarrow> bool" where
  "host_ok h \<longleftrightarrow> length (ht_ip h) = IP_LEN"

definition page_ok :: "page_t \<Rightarrow> bool" where
  "page_ok p \<longleftrightarrow> length (pt_addr p) = PAGE_SIZE"

definition pageid_ok :: "pageid_t \<Rightarrow> bool" where
  "pageid_ok p \<longleftrightarrow> length (pg_name p) = NAME_LEN"

definition request_ok :: "request_t \<Rightarrow> bool" where
  "request_ok r \<longleftrightarrow> pageid_ok (rq_pageid r) \<and> is_c_int (rq_mode r) \<and> length (rq_from r) = IP_LEN"

lemma put_vector_total: "(\<And>x. \<exists>u. f x = Some u) \<Longrightarrow> \<exists>w. put_vector f xs = Some w"
proof (induction xs)
  case (Cons x xs)
  then show ?case by (metis (no_types, lifting) map_option_eq_Some option.simps(5) put_vector.simps(2))
qed simp

lemma put_char_total: "\<exists>u. x_put xdr_char c = Some u"
  by (simp add: xdr_char_def xdr_conv_def xdr_u_int_def)

lemma put_chars_total: "length s = n \<Longrightarrow> \<exists>w. x_put (xdr_chars n) s = Some w"
  using put_vector_total [OF put_char_total]
  by (simp add: xdr_chars_def xdr_struct_def xdr_conv_def xdr_vector_def)

lemma put_pair_total:
  "\<exists>u. x_put p a = Some u \<Longrightarrow> \<exists>v. x_put q b = Some v \<Longrightarrow> \<exists>w. x_put (xdr_pair p q) (a, b) = Some w"
  by (auto simp: xdr_pair_def)

lemma put_struct: "x_put (xdr_struct f g p) v = x_put p (f v)"
  by (simp add: xdr_struct_def xdr_conv_def)

lemma put_u_int_total: "\<exists>w. x_put xdr_u_int v = Some w"
  by (simp add: xdr_u_int_def)

lemma put_pageid_total: "pageid_ok p \<Longrightarrow> \<exists>w. x_put xdr_pageid_t p = Some w"
  unfolding xdr_pageid_t_def put_struct
  by (intro put_pair_total put_chars_total put_u_int_total) (simp add: pageid_ok_def)

lemma put_page_total: "page_ok p \<Longrightarrow> \<exists>w. x_put xdr_page_t p = Some w"
  unfolding xdr_page_t_def put_struct
  by (intro put_pair_total put_u_int_total)
    (simp add: page_ok_def xdr_vector_def put_vector_total put_char_total)

lemma put_host_total: "host_ok h \<Longrightarrow> \<exists>w. x_put xdr_host_t h = Some w"
  unfolding xdr_host_t_def put_struct by (intro put_chars_total) (simp add: host_ok_def)

lemma put_request_total: "request_ok r \<Longrightarrow> \<exists>w. x_put xdr_request_t r = Some w"
  unfolding xdr_request_t_def put_struct
  by (intro put_pair_total put_chars_total put_pageid_total)
    (simp_all add: request_ok_def xdr_mode_t_def xdr_int_def xdr_conv_def xdr_u_int_def)

section \<open>Calls\<close>

datatype dsm_call =
    Page_find pageid_t
  | Page_locate pageid_t
  | Page_creat pageid_t
  | Page_update request_t
  | Page_request request_t
  | Page_fetch request_t
  | Page_ack pageid_t

text \<open>
  A stub encodes its argument, calls and decodes the result. The connection \<open>clnt\<close> takes a procedure number and
  argument bytes; it changes the state \<open>'s\<close> of whatever it is connected to and answers with result bytes, or not
  at all. A null pointer stands for every kind of failure.
\<close>

definition dsm_stub ::
    "nat \<Rightarrow> 'a xdrproc \<Rightarrow> 'b xdrproc \<Rightarrow> 'a \<Rightarrow> (nat \<Rightarrow> byte list \<Rightarrow> 's \<Rightarrow> byte list option \<times> 's) \<Rightarrow> 's \<Rightarrow>
      'b option \<times> 's" where
  "dsm_stub proc xdr_argument xdr_result argp clnt s =
     (case x_put xdr_argument argp of
        None \<Rightarrow> (None, s)
      | Some w \<Rightarrow>
          (case clnt proc w s of
             (None, t) \<Rightarrow> (None, t)
           | (Some reply, t) \<Rightarrow> (map_option fst (x_get xdr_result reply), t)))"

definition psu_dsm_page_find_1 ::
    "pageid_t \<Rightarrow> (nat \<Rightarrow> byte list \<Rightarrow> 's \<Rightarrow> byte list option \<times> 's) \<Rightarrow> 's \<Rightarrow> int option \<times> 's" where
  "psu_dsm_page_find_1 = dsm_stub 1 xdr_pageid_t xdr_int"

text \<open>
  The locate stub receives the sixteen characters of a host into a static variable of the four bytes of an \<open>int\<close>.
  The pointer it returns shows the caller the host; the last twelve characters have gone over whatever the
  linker has put behind the variable, and are returned as the second component.
\<close>

definition psu_dsm_page_locate_1 ::
    "pageid_t \<Rightarrow> (nat \<Rightarrow> byte list \<Rightarrow> 's \<Rightarrow> byte list option \<times> 's) \<Rightarrow> 's \<Rightarrow> (host_t \<times> string) option \<times> 's" where
  "psu_dsm_page_locate_1 argp clnt s =
     (case dsm_stub 2 xdr_pageid_t xdr_host_t argp clnt s of
        (clnt_res, t) \<Rightarrow> (map_option (\<lambda>host. (host, drop 4 (ht_ip host))) clnt_res, t))"

definition psu_dsm_page_creat_1 ::
    "pageid_t \<Rightarrow> (nat \<Rightarrow> byte list \<Rightarrow> 's \<Rightarrow> byte list option \<times> 's) \<Rightarrow> 's \<Rightarrow> int option \<times> 's" where
  "psu_dsm_page_creat_1 = dsm_stub 3 xdr_pageid_t xdr_int"

definition psu_dsm_page_update_1 ::
    "request_t \<Rightarrow> (nat \<Rightarrow> byte list \<Rightarrow> 's \<Rightarrow> byte list option \<times> 's) \<Rightarrow> 's \<Rightarrow> int option \<times> 's" where
  "psu_dsm_page_update_1 = dsm_stub 4 xdr_request_t xdr_int"

definition psu_dsm_page_request_1 ::
    "request_t \<Rightarrow> (nat \<Rightarrow> byte list \<Rightarrow> 's \<Rightarrow> byte list option \<times> 's) \<Rightarrow> 's \<Rightarrow> page_t option \<times> 's" where
  "psu_dsm_page_request_1 = dsm_stub 5 xdr_request_t xdr_page_t"

definition psu_dsm_page_fetch_1 ::
    "request_t \<Rightarrow> (nat \<Rightarrow> byte list \<Rightarrow> 's \<Rightarrow> byte list option \<times> 's) \<Rightarrow> 's \<Rightarrow> page_t option \<times> 's" where
  "psu_dsm_page_fetch_1 = dsm_stub 6 xdr_request_t xdr_page_t"

definition psu_dsm_page_ack_1 ::
    "pageid_t \<Rightarrow> (nat \<Rightarrow> byte list \<Rightarrow> 's \<Rightarrow> byte list option \<times> 's) \<Rightarrow> 's \<Rightarrow> unit option \<times> 's" where
  "psu_dsm_page_ack_1 = dsm_stub 7 xdr_pageid_t xdr_void"

text \<open>The dispatcher of the server returns after every error.\<close>

datatype dsm_dispatch =
    Dsm_null_reply
  | Dsm_serve dsm_call
  | Dsm_decode_error
  | Dsm_no_procedure

definition dsm_decoded :: "('a \<Rightarrow> dsm_call) \<Rightarrow> ('a \<times> byte list) option \<Rightarrow> dsm_dispatch" where
  "dsm_decoded local argument =
     (case argument of None \<Rightarrow> Dsm_decode_error | Some (v, _) \<Rightarrow> Dsm_serve (local v))"

definition psu_dsm_1 :: "nat \<Rightarrow> byte list \<Rightarrow> dsm_dispatch" where
  "psu_dsm_1 rq_proc bs =
     (if rq_proc = 0 then Dsm_null_reply
      else if rq_proc = 1 then dsm_decoded Page_find (x_get xdr_pageid_t bs)
      else if rq_proc = 2 then dsm_decoded Page_locate (x_get xdr_pageid_t bs)
      else if rq_proc = 3 then dsm_decoded Page_creat (x_get xdr_pageid_t bs)
      else if rq_proc = 4 then dsm_decoded Page_update (x_get xdr_request_t bs)
      else if rq_proc = 5 then dsm_decoded Page_request (x_get xdr_request_t bs)
      else if rq_proc = 6 then dsm_decoded Page_fetch (x_get xdr_request_t bs)
      else if rq_proc = 7 then dsm_decoded Page_ack (x_get xdr_pageid_t bs)
      else Dsm_no_procedure)"

section \<open>Properties\<close>

text \<open>
  C15. Every structure of the shared memory, with its arrays of the declared lengths and a mode
  that is a C integer, survives the wire: it is encoded into 132, 200, 16388 or 64 bytes and decoded
  from them unchanged, whatever follows.
\<close>

theorem dsm_messages_roundtrip:
  assumes "pageid_ok p" and "request_ok q" and "page_ok g" and "host_ok h"
  shows "(\<exists>w. x_put xdr_pageid_t p = Some w \<and> length w = 132 \<and> x_get xdr_pageid_t (w @ r) = Some (p, r)) \<and>
    (\<exists>w. x_put xdr_request_t q = Some w \<and> length w = 200 \<and> x_get xdr_request_t (w @ r) = Some (q, r)) \<and>
    (\<exists>w. x_put xdr_page_t g = Some w \<and> length w = 16388 \<and> x_get xdr_page_t (w @ r) = Some (g, r)) \<and>
    (\<exists>w. x_put xdr_host_t h = Some w \<and> length w = 64 \<and> x_get xdr_host_t (w @ r) = Some (h, r))"
  using put_pageid_total [OF assms(1)] pageid_t_xdr.get_put [of p] pageid_t_xdr.put_size [of p]
    put_request_total [OF assms(2)] request_t_xdr.get_put [of q] request_t_xdr.put_size [of q]
    put_page_total [OF assms(3)] page_t_xdr.get_put [of g] page_t_xdr.put_size [of g]
    put_host_total [OF assms(4)] host_t_xdr.get_put [of h] host_t_xdr.put_size [of h]
  by blast

definition sample_pageid :: pageid_t where
  "sample_pageid = \<lparr>pg_name = strncpy NAME_LEN ''hello'', pg_size = 100\<rparr>"

definition sample_request :: request_t where
  "sample_request = \<lparr>rq_pageid = sample_pageid, rq_mode = RW, rq_from = strncpy IP_LEN ''130.203.16.20''\<rparr>"

lemma dsm_sample_ok: "pageid_ok sample_pageid" "request_ok sample_request"
  by (simp_all add: sample_pageid_def sample_request_def pageid_ok_def request_ok_def is_c_int_def
      INT_MAX_def RW_def)

theorem dsm_messages_roundtrip_witness:
  "\<exists>w. x_put xdr_request_t sample_request = Some w \<and> length w = 200 \<and>
     x_get xdr_request_t (w @ [1]) = Some (sample_request, [1])"
proof -
  have "page_ok \<lparr>pt_size = 1, pt_addr = replicate PAGE_SIZE 0\<rparr>" "host_ok \<lparr>ht_ip = strncpy IP_LEN ''A''\<rparr>"
    by (simp_all add: page_ok_def host_ok_def)
  from dsm_messages_roundtrip [OF dsm_sample_ok this, of "[1]"] show ?thesis by simp
qed

end
