(* ===== verification/Dsm_Util.thy ===== *)
theory Dsm_Util
  imports Dsm_Msg
begin

unbundle bit_operations_syntax

text \<open>
  The helpers of the shared memory, \<^verbatim>\<open>util.c\<close>: the hash of a page name, the linked lists for the
  directory and for the pages on a machine, and the table of servers. A list is passed by
  the pointer to its first cell, so a function that appends to an empty list changes only its
  own copy of the pointer: the caller's list stays empty. A cell of the page list is
  allocated and its \<open>next\<close> and \<open>addr\<close> are never written.
\<close>

section \<open>Hash\<close>

definition hash_step :: "u64 \<Rightarrow> char \<Rightarrow> u64" where
  "hash_step h c = (push_bit 5 h + h) + of_nat (of_char c)"

text \<open>The loop reads up to the terminating zero, and past the array when it has none.\<close>

definition hash :: "string \<Rightarrow> u64 outcome" where
  "hash str = (if CHR 0x00 \<in> set str then Inr (foldl hash_step 5381 (c_str str)) else Inl Out_of_bounds)"

text \<open>The conversion of the hash to \<open>key_t\<close>, an \<open>int\<close>.\<close>

definition to_key :: "u64 \<Rightarrow> int" where
  "to_key h = c_int (uint h)"

section \<open>The address of the machine\<close>

text \<open>
  The four bytes are those of the address that \<open>ioctl\<close> has stored for the interface \<open>eth0\<close>; without such an
  interface they are what the stack held before. \<open>inet_ntoa\<close> prints them as \<open>inet_ntop\<close> does.
\<close>

definition get_local_ipaddr :: "byte \<times> byte \<times> byte \<times> byte \<Rightarrow> string" where
  "get_local_ipaddr = (\<lambda>(a, b, c, d). strncpy IP_LEN (inet_ntop a b c d))"

section \<open>Lists\<close>

definition MAX_SERV :: nat where "MAX_SERV = 40"

record dir_entry_t =
  de_page :: pageid_t
  de_pbits :: "int list"
  de_mode :: int

record dsm_entry_t =
  dm_page :: pageid_t
  dm_addr :: "nat option"
  dm_where :: string

text \<open>\<open>dl_open\<close>: the \<open>next\<close> pointer of the last cell has never been written.\<close>

record dsm_list =
  dl_cells :: "dsm_entry_t list"
  dl_open :: bool

definition same_page :: "pageid_t \<Rightarrow> pageid_t \<Rightarrow> bool" where
  "same_page p q \<longleftrightarrow> strncmp_eq NAME_LEN (pg_name p) (pg_name q)"

definition search_dir :: "pageid_t \<Rightarrow> dir_entry_t list \<Rightarrow> nat option" where
  "search_dir page dir = first_index (\<lambda>e. same_page (de_page e) page) dir"

definition copy_page :: "pageid_t \<Rightarrow> pageid_t" where
  "copy_page p = \<lparr>pg_name = strncpy NAME_LEN (c_str (pg_name p)), pg_size = pg_size p\<rparr>"

definition insert_dir :: "dir_entry_t \<Rightarrow> dir_entry_t list \<Rightarrow> dir_entry_t list" where
  "insert_dir entry dir =
     (let new = \<lparr>de_page = copy_page (de_page entry), de_pbits = de_pbits entry, de_mode = de_mode entry\<rparr> in
      if dir = [] then dir else dir @ [new])"

definition search_dsm :: "pageid_t \<Rightarrow> dsm_list \<Rightarrow> nat option outcome" where
  "search_dsm page dsm =
     (case first_index (\<lambda>e. same_page (dm_page e) page) (dl_cells dsm) of
        Some i \<Rightarrow> Inr (Some i)
      | None \<Rightarrow> (if dl_open dsm then Inl Uninitialised_read else Inr None))"

definition insert_dsm :: "pageid_t \<Rightarrow> string \<Rightarrow> dsm_list \<Rightarrow> dsm_list outcome" where
  "insert_dsm page whr dsm =
     (let new = \<lparr>dm_page = copy_page page, dm_addr = None, dm_where = strncpy IP_LEN (c_str whr)\<rparr> in
      if dl_cells dsm = [] then Inr dsm
      else if dl_open dsm then Inl Uninitialised_read
      else Inr \<lparr>dl_cells = dl_cells dsm @ [new], dl_open = True\<rparr>)"

text \<open>What is printed; the format \<open>%s\<close> reads past an array without a terminating zero.\<close>

definition print_string :: "string \<Rightarrow> string outcome" where
  "print_string a = (if CHR 0x00 \<in> set a then Inr (c_str a) else Inl Out_of_bounds)"

fun print_names :: "string list \<Rightarrow> string outcome" where
  "print_names [] = Inr []"
| "print_names (a # as) =
     (case print_string a of
        Inl f \<Rightarrow> Inl f
      | Inr s \<Rightarrow> map_sum id (\<lambda>rest. ''host '' @ s @ [CHR 0x0A] @ rest) (print_names as))"

definition print_dir :: "dir_entry_t list \<Rightarrow> string outcome" where
  "print_dir dir = map_sum id (append (''dir = '' @ [CHR 0x0A])) (print_names (map (\<lambda>e. pg_name (de_page e)) dir))"

definition print_dsm :: "dsm_list \<Rightarrow> string outcome" where
  "print_dsm dsm =
     (case print_names (map (\<lambda>e. pg_name (dm_page e)) (dl_cells dsm)) of
        Inl f \<Rightarrow> Inl f
      | Inr out \<Rightarrow> (if dl_open dsm then Inl Uninitialised_read else Inr (''dsm = '' @ [CHR 0x0A] @ out)))"

text \<open>The index, or -1.\<close>

definition get_server_id :: "string list \<Rightarrow> string \<Rightarrow> int" where
  "get_server_id server host =
     (case first_index (\<lambda>s. strncmp_eq IP_LEN s host) (take MAX_SERV server) of
        Some i \<Rightarrow> int i
      | None \<Rightarrow> - 1)"

text \<open>The loop never moves to the next cell.\<close>

partial_function (option) get_name_from_addr ::
    "dsm_entry_t \<Rightarrow> nat \<Rightarrow> dsm_entry_t list \<Rightarrow> dsm_entry_t outcome option" where
  "get_name_from_addr dentry addr p =
     (case p of
        [] \<Rightarrow> Some (Inr dentry)
      | e # _ \<Rightarrow>
          (case dm_addr e of
             None \<Rightarrow> Some (Inl Uninitialised_read)
           | Some a \<Rightarrow>
               get_name_from_addr
                 \<lparr>dm_page = \<lparr>pg_name = (if a \<le> addr \<and> addr < a + PAGE_SIZE
                                       then strncpy NAME_LEN (c_str (pg_name (dm_page e)))
                                       else pg_name (dm_page dentry)),
                            pg_size = pg_size (dm_page e)\<rparr>,
                  dm_addr = Some a, dm_where = strncpy IP_LEN (c_str (dm_where e))\<rparr> addr p))"

section \<open>Properties\<close>

lemma hash_step_33: "hash_step h c = h * 33 + of_nat (of_char c)"
  by (simp add: hash_step_def push_bit_eq_mult algebra_simps)

lemma foldl_hash:
  "foldl hash_step h s = h * 33 ^ length s + (\<Sum>i < length s. of_nat (of_char (s ! i)) * 33 ^ (length s - 1 - i))"
proof (induction s arbitrary: h)
  case (Cons c s)
  have "foldl hash_step h (c # s) = (h * 33 + of_nat (of_char c)) * 33 ^ length s +
      (\<Sum>i < length s. of_nat (of_char (s ! i)) * 33 ^ (length s - 1 - i))"
    using Cons [of "hash_step h c"] by (simp add: hash_step_33 [of h c])
  then show ?case
    by (simp add: sum.lessThan_Suc_shift algebra_simps del: sum.lessThan_Suc)
qed simp

text \<open>
  C36. The shift-and-add loop computes the polynomial \<open>5381 * 33 ^ n + \<dots>\<close> of the characters before
  the terminating zero, modulo \<open>2 ^ 64\<close>.
\<close>

theorem hash_is_polynomial:
  assumes "CHR 0x00 \<in> set str" and "s = c_str str"
  shows "hash str = Inr (5381 * 33 ^ length s +
    (\<Sum>i < length s. of_nat (of_char (s ! i)) * 33 ^ (length s - 1 - i)))"
  using assms foldl_hash [of 5381 s] by (simp add: hash_def)

theorem hash_is_polynomial_witness: "hash (strncpy NAME_LEN ''ab'') = Inr 5863208"
proof -
  have "c_str (strncpy NAME_LEN ''ab'') = ''ab''" by (simp add: c_str_strncpy NAME_LEN_def)
  moreover have "CHR 0x00 \<in> set (strncpy NAME_LEN ''ab'')" by (simp add: strncpy_def NAME_LEN_def)
  ultimately show ?thesis
    using hash_is_polynomial [of "strncpy NAME_LEN ''ab''" "''ab''"]
    by (simp add: lessThan_Suc)
qed

text \<open>A page name fits its array with a terminating zero exactly when it is shorter than it.\<close>

lemma hash_array:
  assumes "CHR 0x00 \<notin> set name"
  shows "hash (strncpy NAME_LEN name) =
    (if length name < NAME_LEN then Inr (foldl hash_step 5381 name) else Inl Out_of_bounds)"
proof (cases "length name < NAME_LEN")
  case True
  then have "CHR 0x00 \<in> set (strncpy NAME_LEN name)" by (simp add: strncpy_def)
  with True assms show ?thesis by (simp add: hash_def c_str_strncpy)
next
  case False
  then have "CHR 0x00 \<notin> set (strncpy NAME_LEN name)"
    using assms by (auto simp: strncpy_def dest: in_set_takeD)
  with False show ?thesis by (simp add: hash_def)
qed

lemma hash_c_string: "CHR 0x00 \<notin> set name \<Longrightarrow> hash (name @ [CHR 0x00]) = Inr (foldl hash_step 5381 name)"
proof -
  assume "CHR 0x00 \<notin> set name"
  then have "\<forall>c \<in> set name. c \<noteq> CHR 0x00" by auto
  then show ?thesis by (simp add: hash_def c_str_def takeWhile_append2)
qed

subsection \<open>The address of the machine\<close>

text \<open>
  The address of a machine fits its array: the text of any four bytes has at most 15 characters, so
  the copy into \<open>IP_LEN\<close> bytes keeps all of them and a terminating zero, and two machines have the
  same text only if they have the same address.
\<close>

theorem local_address_fits:
  "c_str (get_local_ipaddr (a, b, c, d)) = inet_ntop a b c d \<and> CHR 0x00 \<in> set (get_local_ipaddr (a, b, c, d)) \<and>
   (get_local_ipaddr (a, b, c, d) = get_local_ipaddr x \<longleftrightarrow> (a, b, c, d) = x)"
proof -
  have str: "c_str (get_local_ipaddr (a, b, c, d)) = inet_ntop a b c d" for a b c d
    using length_inet_ntop [of a b c d] nul_inet_ntop [of a b c d]
    by (simp add: get_local_ipaddr_def c_str_strncpy IP_LEN_def)
  moreover have "CHR 0x00 \<in> set (get_local_ipaddr (a, b, c, d))"
    using length_inet_ntop [of a b c d] by (simp add: get_local_ipaddr_def strncpy_def IP_LEN_def)
  moreover obtain a' b' c' d' where x: "x = (a', b', c', d')" by (cases x)
  have "get_local_ipaddr (a, b, c, d) = get_local_ipaddr x \<longleftrightarrow> (a, b, c, d) = x"
    unfolding x using str inj_inet_ntop [of a b c d a' b' c' d'] by (metis Pair_inject)
  ultimately show ?thesis by blast
qed

subsection \<open>The directory\<close>

lemma c_str_take: "take n (c_str a) = c_str (take n a)"
  by (induction a arbitrary: n) (auto simp: c_str_def take_Cons split: nat.splits)

lemma nul_notin_c_str: "CHR 0x00 \<notin> set (c_str a)"
  by (auto simp: c_str_def dest: set_takeWhileD)

lemma same_page_copy: "same_page (copy_page p) q = same_page p q"
  by (simp add: same_page_def copy_page_def strncmp_eq_def c_str_strncpy nul_notin_c_str min_def)

lemma same_page_refl: "same_page p p"
  by (simp add: same_page_def strncmp_eq_def)

text \<open>The interface a directory promises: what is inserted is found.\<close>

lemma search_insert:
  assumes "dir \<noteq> []"
  shows "search_dir page (insert_dir entry dir) =
    (case search_dir page dir of
       Some i \<Rightarrow> Some i
     | None \<Rightarrow> if same_page (de_page entry) page then Some (length dir) else None)"
  using assms
  by (simp add: search_dir_def insert_dir_def Let_def same_page_copy first_index_append)

text \<open>
  Inserting into a directory that has an entry works as promised: a page that was found is found
  at the same place, and the inserted page is found at the end; no entry is lost.
\<close>

theorem insert_dir_nonempty:
  assumes "dir \<noteq> []"
  shows "search_dir page (insert_dir entry dir) =
      (case search_dir page dir of
         Some i \<Rightarrow> Some i
       | None \<Rightarrow> if same_page (de_page entry) page then Some (length dir) else None) \<and>
    take (length dir) (insert_dir entry dir) = dir"
  using search_insert [OF assms] assms by (simp add: insert_dir_def Let_def)

definition sample_entry :: dir_entry_t where
  "sample_entry = \<lparr>de_page = sample_pageid, de_pbits = replicate MAX_SERV NA, de_mode = RW\<rparr>"

theorem insert_dir_nonempty_witness:
  "search_dir sample_pageid (insert_dir sample_entry
      [sample_entry\<lparr>de_page := \<lparr>pg_name = strncpy NAME_LEN ''x'', pg_size = 1\<rparr>\<rparr>]) = Some 1"
proof -
  let ?d = "[sample_entry\<lparr>de_page := \<lparr>pg_name = strncpy NAME_LEN ''x'', pg_size = 1\<rparr>\<rparr>]"
  have "search_dir sample_pageid ?d = None"
    by (simp add: search_dir_def same_page_def strncmp_eq_def sample_pageid_def c_str_strncpy NAME_LEN_def)
  moreover have "same_page (de_page sample_entry) sample_pageid"
    by (simp add: sample_entry_def same_page_refl)
  ultimately show ?thesis using insert_dir_nonempty [of ?d sample_pageid sample_entry] by simp
qed

text \<open>A directory prints its pages in the order of their insertion.\<close>

lemma print_names_append:
  "print_names (as @ [a]) = (case print_names as of Inl f \<Rightarrow> Inl f
     | Inr out \<Rightarrow> map_sum id (\<lambda>s. out @ ''host '' @ s @ [CHR 0x0A]) (print_string a))"
  by (induction as) (auto split: sum.splits simp: sum.map_comp comp_def)

lemma print_dir_insert:
  assumes "dir \<noteq> []" and "print_dir dir = Inr out" and "length (c_str (pg_name (de_page entry))) < NAME_LEN"
  shows "print_dir (insert_dir entry dir) = Inr (out @ ''host '' @ c_str (pg_name (de_page entry)) @ [CHR 0x0A])"
proof -
  let ?n = "c_str (pg_name (de_page entry))"
  have "print_string (strncpy NAME_LEN ?n) = Inr ?n"
    using assms(3) nul_notin_c_str [of "pg_name (de_page entry)"]
    by (simp add: print_string_def c_str_strncpy) (simp add: strncpy_def)
  with assms(1,2) show ?thesis
    by (auto simp: print_dir_def insert_dir_def Let_def copy_page_def print_names_append split: sum.splits)
qed

text \<open>
  Inserting into an empty directory or page list is lost, so neither list ever gets its first
  element: the entry cannot be found afterwards.
\<close>

theorem insert_empty_is_lost:
  "search_dir page (insert_dir entry []) = None \<and>
   insert_dsm page whr \<lparr>dl_cells = [], dl_open = False\<rparr> = Inr \<lparr>dl_cells = [], dl_open = False\<rparr> \<and>
   search_dsm page \<lparr>dl_cells = [], dl_open = False\<rparr> = Inr None"
  by (simp add: search_dir_def insert_dir_def insert_dsm_def search_dsm_def)

subsection \<open>Looking up an address\<close>

lemma get_name_returns:
  assumes "get_name_from_addr d a p = Some y"
  shows "p = [] \<or> dm_addr (hd p) = None"
proof (rule get_name_from_addr.raw_induct [OF _ assms, where P = "\<lambda>d a p y. p = [] \<or> dm_addr (hd p) = None"])
  fix f d a p y
  assume IH: "\<And>d a p y. f d a p = Some y \<Longrightarrow> p = [] \<or> dm_addr (hd p) = None"
    and body: "(case p of [] \<Rightarrow> Some (Inr d) | e # _ \<Rightarrow> (case dm_addr e of
        None \<Rightarrow> Some (Inl Uninitialised_read)
      | Some b \<Rightarrow> f \<lparr>dm_page = \<lparr>pg_name = (if b \<le> a \<and> a < b + PAGE_SIZE
            then strncpy NAME_LEN (c_str (pg_name (dm_page e))) else pg_name (dm_page d)),
          pg_size = pg_size (dm_page e)\<rparr>, dm_addr = Some b,
          dm_where = strncpy IP_LEN (c_str (dm_where e))\<rparr> a p)) = Some y"
  show "p = [] \<or> dm_addr (hd p) = None"
    using body by (auto dest: IH split: list.splits option.splits)
qed

text \<open>
  \<^verbatim>\<open>get_name_from_addr\<close> finds nothing: on an empty list it returns and leaves its result
  variable as it was, and on a list whose first cell has an address it never returns.
\<close>

theorem get_name_from_addr_useless:
  assumes "p \<noteq> [] \<Longrightarrow> dm_addr (hd p) \<noteq> None"
  shows "get_name_from_addr dentry addr p = (if p = [] then Some (Inr dentry) else None)"
proof (cases p)
  case Nil
  then show ?thesis by (simp add: get_name_from_addr.simps)
next
  case (Cons e q)
  with assms have "get_name_from_addr dentry addr p \<noteq> Some y" for y
    using get_name_returns [of dentry addr p y] by auto
  then have "get_name_from_addr dentry addr p = None" by (metis not_Some_eq)
  with Cons show ?thesis by simp
qed

theorem get_name_from_addr_useless_witness:
  "get_name_from_addr \<lparr>dm_page = sample_pageid, dm_addr = None, dm_where = []\<rparr> 4096
     [\<lparr>dm_page = sample_pageid, dm_addr = Some 4096, dm_where = []\<rparr>] = None"
  using get_name_from_addr_useless
    [of "[\<lparr>dm_page = sample_pageid, dm_addr = Some 4096, dm_where = []\<rparr>]"] by simp

end
