(* ===== verification/Dsm_Server.thy ===== *)
theory Dsm_Server
  imports Dsm_Util
begin

text \<open>
  The servers of the shared memory, \<^verbatim>\<open>psu_dsm_server.c\<close>, one per machine. A procedure is a
  function on the state of all machines, since it calls procedures of other servers; it
  returns a value or the way its process ended, and the state it leaves. A server runs
  one procedure at a time: a call to a server that waits for its own call is not answered. The
  operating system's part is the list of System V segments of a machine and the mappings of
  the server process; whether a segment can be had is an argument (\<open>shm\<close>), and so is the
  host behind an address (\<open>resolve\<close>). The variable \<open>mode\<close> of \<^verbatim>\<open>psu_dsm_page_request_1_svc\<close> and the
  field \<open>from\<close> of the requests that \<^verbatim>\<open>psu_dsm_page_creat_1_svc\<close> sends are never assigned; the values
  they happen to have are the argument \<open>junk\<close>, and so are the bytes behind a static variable that is read beyond its end.
\<close>

section \<open>State\<close>

datatype prot = PROT_NONE | PROT_READ | PROT_WRITE | PROT_READ_WRITE

record shm_seg =
  sg_key :: int
  sg_data :: "byte list"

record dsm_host =
  dh_up :: bool
  dh_ip :: string
  dh_segs :: "shm_seg list"
  dh_maps :: "(nat \<times> prot) list"
  dh_nserver :: nat
  dh_server :: "string list"
  dh_dir :: "dir_entry_t list"
  dh_dsm :: dsm_list
  dh_result :: page_t

text \<open>What variables hold that the source reads before it writes them, or reads beyond.\<close>

record unwritten =
  uw_mode :: int
  uw_from :: string
  uw_static :: "byte list"

type_synonym dsm_sys = "host \<Rightarrow> dsm_host"
type_synonym 'a dsm_prog = "dsm_sys \<Rightarrow> 'a outcome \<times> dsm_sys"

definition bind_p :: "'a dsm_prog \<Rightarrow> ('a \<Rightarrow> 'b dsm_prog) \<Rightarrow> 'b dsm_prog" where
  "bind_p m f = (\<lambda>s. case m s of (Inl e, s') \<Rightarrow> (Inl e, s') | (Inr x, s') \<Rightarrow> f x s')"

definition ret_p :: "'a \<Rightarrow> 'a dsm_prog" where
  "ret_p x = (\<lambda>s. (Inr x, s))"

definition fail_p :: "c_fault \<Rightarrow> 'a dsm_prog" where
  "fail_p e = (\<lambda>s. (Inl e, s))"

definition lift_p :: "'a outcome \<Rightarrow> 'a dsm_prog" where
  "lift_p r = (\<lambda>s. (r, s))"

definition read_p :: "host \<Rightarrow> (dsm_host \<Rightarrow> 'a) \<Rightarrow> 'a dsm_prog" where
  "read_p h f = (\<lambda>s. (Inr (f (s h)), s))"

definition write_p :: "host \<Rightarrow> (dsm_host \<Rightarrow> dsm_host) \<Rightarrow> unit dsm_prog" where
  "write_p h f = (\<lambda>s. (Inr (), s(h := f (s h))))"

text \<open>
  \<open>clnt_create\<close> with the test behind it, and a call over the connection: a server that is busy
  lets the call time out, and when the called process ends the call fails; both give the
  caller a null pointer.
\<close>

definition connect_p :: "(string \<Rightarrow> host option) \<Rightarrow> string \<Rightarrow> host dsm_prog" where
  "connect_p resolve addr = (\<lambda>s.
     case resolve (c_str addr) of
       None \<Rightarrow> (Inl Exit_failure, s)
     | Some d \<Rightarrow> (if dh_up (s d) then (Inr d, s) else (Inl Exit_failure, s)))"

definition call_p :: "host set \<Rightarrow> host \<Rightarrow> (host \<Rightarrow> 'a dsm_prog) \<Rightarrow> 'a option dsm_prog" where
  "call_p busy d svc = (\<lambda>s.
     if d \<in> busy \<or> \<not> dh_up (s d) then (Inr None, s)
     else case svc d s of
         (Inl e, s') \<Rightarrow> (Inr None, s'(d := (s' d)\<lparr>dh_up := False\<rparr>))
       | (Inr v, s') \<Rightarrow> (Inr (Some v), s'))"

text \<open>The pointer a call returned, dereferenced.\<close>

definition deref :: "'a option \<Rightarrow> 'a dsm_prog" where
  "deref r = (case r of None \<Rightarrow> fail_p Null_dereference | Some v \<Rightarrow> ret_p v)"

section \<open>Shared segments\<close>

definition find_seg :: "int \<Rightarrow> shm_seg list \<Rightarrow> nat option" where
  "find_seg key segs = (if key = 0 then None else first_index (\<lambda>g. sg_key g = key) segs)"

text \<open>\<open>shmget\<close> with \<open>IPC_CREAT\<close>; the key 0 is \<open>IPC_PRIVATE\<close>. A failure ends the process.\<close>

definition shmget_creat :: "(host \<Rightarrow> int \<Rightarrow> bool) \<Rightarrow> host \<Rightarrow> int \<Rightarrow> nat dsm_prog" where
  "shmget_creat shm h key =
     (if \<not> shm h key then fail_p Exit_failure
      else bind_p (read_p h dh_segs) (\<lambda>segs.
        case find_seg key segs of
          Some i \<Rightarrow> ret_p i
        | None \<Rightarrow> bind_p (write_p h (\<lambda>d. d\<lparr>dh_segs := segs @
             [\<lparr>sg_key = key, sg_data = replicate PAGE_SIZE 0\<rparr>]\<rparr>)) (\<lambda>_. ret_p (length segs))))"

definition shmat :: "host \<Rightarrow> nat \<Rightarrow> nat dsm_prog" where
  "shmat h shmid = bind_p (read_p h dh_maps) (\<lambda>maps.
     bind_p (write_p h (\<lambda>d. d\<lparr>dh_maps := maps @ [(shmid, PROT_READ_WRITE)]\<rparr>)) (\<lambda>_. ret_p (length maps)))"

definition mprotect :: "host \<Rightarrow> nat \<Rightarrow> prot \<Rightarrow> unit dsm_prog" where
  "mprotect h addr p = write_p h (\<lambda>d. d\<lparr>dh_maps := (dh_maps d)[addr := (fst (dh_maps d ! addr), p)]\<rparr>)"

definition mem_write :: "host \<Rightarrow> nat \<Rightarrow> byte list \<Rightarrow> unit dsm_prog" where
  "mem_write h addr bs = write_p h (\<lambda>d. let i = fst (dh_maps d ! addr) in
     d\<lparr>dh_segs := (dh_segs d)[i := (dh_segs d ! i)\<lparr>sg_data := bs\<rparr>]\<rparr>)"

definition mem_read :: "host \<Rightarrow> nat \<Rightarrow> byte list dsm_prog" where
  "mem_read h addr = read_p h (\<lambda>d. sg_data (dh_segs d ! fst (dh_maps d ! addr)))"

text \<open>The first 4096 bytes of a \<open>page_t\<close> in memory: its size, then all but four of its data bytes.\<close>

definition page_bytes :: "page_t \<Rightarrow> byte list" where
  "page_bytes p = take PAGE_SIZE (rev (be_bytes 4 (unat (pt_size p))) @ pt_addr p)"

section \<open>Procedures\<close>

definition page_find_svc :: "pageid_t \<Rightarrow> host \<Rightarrow> int dsm_prog" where
  "page_find_svc argp h =
     bind_p (read_p h dh_dir) (\<lambda>dir. ret_p (case search_dir argp dir of None \<Rightarrow> 0 | Some _ \<Rightarrow> 1))"

text \<open>The result of a find call is dereferenced without a test.\<close>

definition call_find :: "(string \<Rightarrow> host option) \<Rightarrow> host set \<Rightarrow> string \<Rightarrow> pageid_t \<Rightarrow> int dsm_prog" where
  "call_find resolve busy srv pageid =
     bind_p (connect_p resolve srv) (\<lambda>clnt.
       bind_p (call_p busy clnt (page_find_svc pageid)) deref)"

text \<open>
  The loop over the servers other than the local one: the first that has the page.
\<close>

fun find_owner :: "(string \<Rightarrow> host option) \<Rightarrow> host set \<Rightarrow> string \<Rightarrow> pageid_t \<Rightarrow> string list \<Rightarrow> string option dsm_prog" where
  "find_owner resolve busy local_host pageid [] = ret_p None"
| "find_owner resolve busy local_host pageid (srv # srvs) =
     (if \<not> strncmp_eq IP_LEN srv local_host
      then bind_p (call_find resolve busy srv pageid) (\<lambda>r.
        if r = 1 then ret_p (Some srv) else find_owner resolve busy local_host pageid srvs)
      else find_owner resolve busy local_host pageid srvs)"

definition page_locate_svc :: "(string \<Rightarrow> host option) \<Rightarrow> pageid_t \<Rightarrow> host \<Rightarrow> host_t dsm_prog" where
  "page_locate_svc resolve argp h =
     bind_p (read_p h (\<lambda>d. d)) (\<lambda>d.
       if search_dir argp (dh_dir d) = None
       then ret_p \<lparr>ht_ip = strncpy IP_LEN (c_str (dh_ip d))\<rparr>
       else bind_p (find_owner resolve {h} (dh_ip d) argp (take (dh_nserver d) (dh_server d))) (\<lambda>r.
         case r of
           Some srv \<Rightarrow> ret_p \<lparr>ht_ip = strncpy IP_LEN (c_str srv)\<rparr>
         | None \<Rightarrow> ret_p \<lparr>ht_ip = strncpy IP_LEN []\<rparr>))"

text \<open>The entry of a page list is read before the address in it has been written.\<close>

definition dsm_address :: "pageid_t \<Rightarrow> host \<Rightarrow> nat dsm_prog" where
  "dsm_address pageid h =
     bind_p (read_p h dh_dsm) (\<lambda>l. bind_p (lift_p (search_dsm pageid l)) (\<lambda>r.
       case r of
         None \<Rightarrow> fail_p Exit_failure
       | Some i \<Rightarrow> (case dm_addr (dl_cells l ! i) of
           None \<Rightarrow> fail_p Uninitialised_read
         | Some a \<Rightarrow> ret_p a)))"

definition page_update_svc :: "request_t \<Rightarrow> host \<Rightarrow> int dsm_prog" where
  "page_update_svc argp h =
     bind_p (dsm_address (rq_pageid argp) h) (\<lambda>addr.
       bind_p (if rq_mode argp = RO then mprotect h addr PROT_READ else ret_p ()) (\<lambda>_.
         bind_p (if rq_mode argp = RW then mprotect h addr PROT_NONE else ret_p ()) (\<lambda>_. ret_p 0)))"

definition page_fetch_svc :: "request_t \<Rightarrow> host \<Rightarrow> page_t dsm_prog" where
  "page_fetch_svc argp h =
     bind_p (dsm_address (rq_pageid argp) h) (\<lambda>addr.
       bind_p (mem_read h addr) (\<lambda>bs.
         ret_p \<lparr>pt_size = pg_size (rq_pageid argp), pt_addr = bs\<rparr>))"

definition page_ack_svc :: "pageid_t \<Rightarrow> host \<Rightarrow> unit dsm_prog" where
  "page_ack_svc argp h = ret_p ()"

text \<open>
  The two halves of \<^verbatim>\<open>psu_dsm_page_request_1_svc\<close>. For a read, the first server whose bit is 1 sends
  the page. For a write, every such server is told, and the first one sends the page.
\<close>

fun read_copy :: "(string \<Rightarrow> host option) \<Rightarrow> host \<Rightarrow> request_t \<Rightarrow> int \<Rightarrow> (int \<times> string) list \<Rightarrow> unit dsm_prog" where
  "read_copy resolve h argp mode [] = ret_p ()"
| "read_copy resolve h argp mode ((b, srv) # r) =
     (if b = 1
      then bind_p (connect_p resolve srv) (\<lambda>clnt.
        bind_p (call_p {h} clnt (page_fetch_svc argp)) (\<lambda>result_1.
          bind_p (if mode = RW then bind_p (call_p {h} clnt (page_update_svc argp)) (\<lambda>_. ret_p ())
                  else ret_p ()) (\<lambda>_.
            bind_p (deref result_1) (\<lambda>p. write_p h (\<lambda>d. d\<lparr>dh_result := p\<rparr>)))))
      else read_copy resolve h argp mode r)"

fun take_copies :: "(string \<Rightarrow> host option) \<Rightarrow> host \<Rightarrow> request_t \<Rightarrow> nat \<Rightarrow> (int \<times> string) list \<Rightarrow> unit dsm_prog" where
  "take_copies resolve h argp first [] = ret_p ()"
| "take_copies resolve h argp first ((b, srv) # r) =
     (if b = 1
      then bind_p (connect_p resolve srv) (\<lambda>clnt.
        bind_p (if first = 0
                then bind_p (call_p {h} clnt (page_fetch_svc argp)) (\<lambda>result_1.
                  bind_p (deref result_1) (\<lambda>p. write_p h (\<lambda>d. d\<lparr>dh_result := p\<rparr>)))
                else ret_p ()) (\<lambda>_.
          bind_p (call_p {h} clnt (page_update_svc argp)) (\<lambda>_.
            take_copies resolve h argp (Suc first) r)))
      else take_copies resolve h argp first r)"

text \<open>
  The bit of a server. For a machine that is not in the table the index is -1, and the write goes to the four
  bytes before the array: the size in the page identifier, which precedes \<open>pbits\<close> in \<open>dir_entry_t\<close>.
\<close>

definition put_pbit :: "int \<Rightarrow> int \<Rightarrow> dir_entry_t \<Rightarrow> dir_entry_t" where
  "put_pbit idx m e =
     (if idx < 0 then e\<lparr>de_page := (de_page e)\<lparr>pg_size := word_of_int m\<rparr>\<rparr>
      else e\<lparr>de_pbits := (de_pbits e)[nat idx := m]\<rparr>)"

definition set_pbit :: "host \<Rightarrow> nat \<Rightarrow> int \<Rightarrow> int \<Rightarrow> unit dsm_prog" where
  "set_pbit h i iserv m =
     write_p h (\<lambda>d. d\<lparr>dh_dir := (dh_dir d)[i := put_pbit iserv m (dh_dir d ! i)]\<rparr>)"

definition page_request_svc :: "(string \<Rightarrow> host option) \<Rightarrow> int \<Rightarrow> request_t \<Rightarrow> host \<Rightarrow> page_t dsm_prog" where
  "page_request_svc resolve junk argp h =
     bind_p (read_p h (\<lambda>d. d)) (\<lambda>d.
       case search_dir (rq_pageid argp) (dh_dir d) of
         None \<Rightarrow> fail_p Exit_failure
       | Some i \<Rightarrow>
           (let e = dh_dir d ! i; copies = zip (de_pbits e) (dh_server d) in
            bind_p (if junk = RO
                    then bind_p (read_copy resolve h argp (de_mode e) copies) (\<lambda>_.
                      set_pbit h i (get_server_id (dh_server d) (rq_from argp)) RO)
                    else ret_p ()) (\<lambda>_.
              bind_p (if junk = RW
                      then bind_p (take_copies resolve h argp 0 copies) (\<lambda>_.
                        set_pbit h i (get_server_id (dh_server d) (rq_from argp)) RW)
                      else ret_p ()) (\<lambda>_.
                read_p h dh_result))))"

text \<open>
  The name of a page is hashed up to its terminating zero. If its array has none, \<open>hash\<close> reads on through the size that
  follows it in \<open>pageid_t\<close>.
\<close>

definition pageid_bytes :: "pageid_t \<Rightarrow> string" where
  "pageid_bytes p = pg_name p @ map byte_char (rev (be_bytes 4 (unat (pg_size p))))"

text \<open>
  \<^verbatim>\<open>psu_dsm_page_creat_1_svc\<close>. When the page is in the local directory, the server asks itself for
  the page; the answer does not come while it waits. When another server has it, the page it sends is
  ignored: the 4096 bytes that are copied start at the four-byte result of the find call, a one, and go on through
  whatever static data follows it.
\<close>

definition map_page :: "(host \<Rightarrow> int \<Rightarrow> bool) \<Rightarrow> pageid_t \<Rightarrow> host \<Rightarrow> nat dsm_prog" where
  "map_page shm pageid h =
     bind_p (lift_p (hash (pageid_bytes pageid))) (\<lambda>k.
       bind_p (shmget_creat shm h (to_key k)) (\<lambda>shmid. shmat h shmid))"

definition note_page :: "pageid_t \<Rightarrow> string \<Rightarrow> host \<Rightarrow> unit dsm_prog" where
  "note_page pageid whr h =
     bind_p (read_p h dh_dsm) (\<lambda>l. bind_p (lift_p (insert_dsm pageid whr l)) (\<lambda>l'.
       write_p h (\<lambda>d. d\<lparr>dh_dsm := l'\<rparr>)))"

definition creat_known :: "(string \<Rightarrow> host option) \<Rightarrow> (host \<Rightarrow> int \<Rightarrow> bool) \<Rightarrow> unwritten \<Rightarrow> pageid_t \<Rightarrow> host \<Rightarrow> int dsm_prog" where
  "creat_known resolve shm junk pageid h =
     bind_p (read_p h dh_ip) (\<lambda>local_host.
       bind_p (connect_p resolve local_host) (\<lambda>clnt.
         bind_p (call_p {h} clnt (page_request_svc resolve (uw_mode junk)
             \<lparr>rq_pageid = pageid, rq_mode = RW, rq_from = uw_from junk\<rparr>)) (\<lambda>result_1.
           bind_p (map_page shm pageid h) (\<lambda>addr.
             bind_p (mprotect h addr PROT_WRITE) (\<lambda>_.
               bind_p (deref result_1) (\<lambda>p.
                 bind_p (mem_write h addr (page_bytes p)) (\<lambda>_.
                   bind_p (note_page pageid local_host h) (\<lambda>_. ret_p 1))))))))"

definition creat_remote :: "(string \<Rightarrow> host option) \<Rightarrow> (host \<Rightarrow> int \<Rightarrow> bool) \<Rightarrow> unwritten \<Rightarrow> pageid_t \<Rightarrow> string \<Rightarrow> host \<Rightarrow> int dsm_prog" where
  "creat_remote resolve shm junk pageid srv h =
     bind_p (connect_p resolve srv) (\<lambda>clnt.
       bind_p (call_p {h} clnt (page_request_svc resolve (uw_mode junk)
           \<lparr>rq_pageid = pageid, rq_mode = NA, rq_from = uw_from junk\<rparr>)) (\<lambda>_.
         bind_p (map_page shm pageid h) (\<lambda>addr.
           bind_p (mprotect h addr PROT_WRITE) (\<lambda>_.
             bind_p (mem_write h addr (take PAGE_SIZE (rev (be_bytes 4 1) @ uw_static junk))) (\<lambda>_.
               bind_p (note_page pageid srv h) (\<lambda>_. ret_p 1))))))"

definition creat_new :: "(host \<Rightarrow> int \<Rightarrow> bool) \<Rightarrow> pageid_t \<Rightarrow> host \<Rightarrow> int dsm_prog" where
  "creat_new shm pageid h =
     bind_p (read_p h (\<lambda>d. d)) (\<lambda>d.
       let idx = get_server_id (dh_server d) (dh_ip d);
           new_entry = (put_pbit idx RW \<lparr>de_page = pageid, de_pbits = replicate MAX_SERV NA, de_mode = NA\<rparr>)\<lparr>de_mode := RW\<rparr> in
       bind_p (write_p h (\<lambda>d. d\<lparr>dh_dir := insert_dir new_entry (dh_dir d)\<rparr>)) (\<lambda>_.
         bind_p (map_page shm pageid h) (\<lambda>addr.
           bind_p (note_page pageid (dh_ip d) h) (\<lambda>_.
             bind_p (mprotect h addr PROT_WRITE) (\<lambda>_. ret_p 1)))))"

definition page_creat_svc :: "(string \<Rightarrow> host option) \<Rightarrow> (host \<Rightarrow> int \<Rightarrow> bool) \<Rightarrow> unwritten \<Rightarrow> pageid_t \<Rightarrow> host \<Rightarrow> int dsm_prog" where
  "page_creat_svc resolve shm junk argp h =
     bind_p (read_p h (\<lambda>d. d)) (\<lambda>d.
       if search_dir argp (dh_dir d) \<noteq> None then creat_known resolve shm junk argp h
       else bind_p (find_owner resolve {h} (dh_ip d) argp (take (dh_nserver d) (dh_server d))) (\<lambda>r.
         case r of
           Some srv \<Rightarrow> creat_remote resolve shm junk argp srv h
         | None \<Rightarrow> creat_new shm argp h))"

section \<open>The servers as a system\<close>

text \<open>A server process serves a call; when the procedure ends the process, the server is gone.\<close>

definition ignore_p :: "'a dsm_prog \<Rightarrow> unit dsm_prog" where
  "ignore_p m = bind_p m (\<lambda>_. ret_p ())"

fun serve_call :: "(string \<Rightarrow> host option) \<Rightarrow> (host \<Rightarrow> int \<Rightarrow> bool) \<Rightarrow> unwritten \<Rightarrow> dsm_call \<Rightarrow> host \<Rightarrow> unit dsm_prog" where
  "serve_call resolve shm junk (Page_find p) h = ignore_p (page_find_svc p h)"
| "serve_call resolve shm junk (Page_locate p) h = ignore_p (page_locate_svc resolve p h)"
| "serve_call resolve shm junk (Page_creat p) h = ignore_p (page_creat_svc resolve shm junk p h)"
| "serve_call resolve shm junk (Page_update r) h = ignore_p (page_update_svc r h)"
| "serve_call resolve shm junk (Page_request r) h = ignore_p (page_request_svc resolve (uw_mode junk) r h)"
| "serve_call resolve shm junk (Page_fetch r) h = ignore_p (page_fetch_svc r h)"
| "serve_call resolve shm junk (Page_ack p) h = ignore_p (page_ack_svc p h)"

inductive dsm_step :: "(string \<Rightarrow> host option) \<Rightarrow> (host \<Rightarrow> int \<Rightarrow> bool) \<Rightarrow> dsm_sys \<Rightarrow> dsm_sys \<Rightarrow> bool"
  for resolve shm where
  served: "dh_up (s h) \<Longrightarrow> serve_call resolve shm junk c h s = (Inr (), t) \<Longrightarrow> dsm_step resolve shm s t"
| ended: "dh_up (s h) \<Longrightarrow> serve_call resolve shm junk c h s = (Inl e, t) \<Longrightarrow>
     dsm_step resolve shm s (t(h := (t h)\<lparr>dh_up := False\<rparr>))"

text \<open>The state \<^verbatim>\<open>init\<close> leaves: two known servers, no page.\<close>

definition dsm_init :: "string \<Rightarrow> dsm_host" where
  "dsm_init ip = \<lparr>dh_up = True, dh_ip = strncpy IP_LEN ip, dh_segs = [], dh_maps = [],
     dh_nserver = 2,
     dh_server = [strncpy IP_LEN ''130.203.16.20'', strncpy IP_LEN ''130.203.16.21''] @
       replicate (MAX_SERV - 2) (strncpy IP_LEN []),
     dh_dir = [], dh_dsm = \<lparr>dl_cells = [], dl_open = False\<rparr>,
     dh_result = \<lparr>pt_size = 0, pt_addr = replicate PAGE_SIZE 0\<rparr>\<rparr>"

section \<open>No server ever knows a page\<close>

definition clean :: "dsm_host \<Rightarrow> bool" where
  "clean d \<longleftrightarrow> dh_dir d = [] \<and> dh_dsm d = \<lparr>dl_cells = [], dl_open = False\<rparr>"

definition no_pages :: "dsm_sys \<Rightarrow> bool" where
  "no_pages s \<longleftrightarrow> (\<forall>h. clean (s h))"

definition keeps :: "(dsm_sys \<Rightarrow> bool) \<Rightarrow> 'a dsm_prog \<Rightarrow> bool" where
  "keeps I m \<longleftrightarrow> (\<forall>s. I s \<longrightarrow> I (snd (m s)))"

named_theorems keeps_rules \<open>programs that keep the servers without pages\<close>

lemma keeps_bind [keeps_rules]: "keeps I m \<Longrightarrow> (\<And>x. keeps I (f x)) \<Longrightarrow> keeps I (bind_p m f)"
  by (auto simp: keeps_def bind_p_def split: prod.splits sum.splits)

lemma keeps_pure [keeps_rules]:
  "keeps I (ret_p x)" "keeps I (fail_p e)" "keeps I (lift_p r)" "keeps I (read_p h f)"
  "keeps I (connect_p resolve a)"
  by (auto simp: keeps_def ret_p_def fail_p_def lift_p_def read_p_def connect_p_def split: option.splits)

lemma keeps_if [keeps_rules]: "keeps I m \<Longrightarrow> keeps I n \<Longrightarrow> keeps I (if b then m else n)"
  by simp

lemma keeps_option [keeps_rules]:
  "keeps I m \<Longrightarrow> (\<And>x. keeps I (f x)) \<Longrightarrow> keeps I (case r of None \<Rightarrow> m | Some x \<Rightarrow> f x)"
  by (cases r) simp_all

lemma keeps_deref [keeps_rules]: "keeps I (deref r)"
  unfolding deref_def by (intro keeps_rules)

lemma keeps_write [keeps_rules]: "(\<And>d. clean d \<Longrightarrow> clean (f d)) \<Longrightarrow> keeps no_pages (write_p h f)"
  by (simp add: keeps_def write_p_def no_pages_def)

lemma keeps_call [keeps_rules]: "(\<And>d. keeps no_pages (svc d)) \<Longrightarrow> keeps no_pages (call_p busy d svc)"
proof -
  assume svc: "\<And>d. keeps no_pages (svc d)"
  have "no_pages (snd (call_p busy d svc s))" if "no_pages s" for s
  proof -
    have "no_pages (snd (svc d s))" using svc that by (simp add: keeps_def)
    then show ?thesis
      using that by (auto simp: call_p_def no_pages_def clean_def split: prod.splits sum.splits)
  qed
  then show ?thesis by (simp add: keeps_def)
qed

lemma keeps_memory [keeps_rules]:
  "keeps no_pages (shmget_creat shm h k)" "keeps no_pages (shmat h i)" "keeps no_pages (mprotect h a p)"
  "keeps no_pages (mem_write h a bs)" "keeps no_pages (mem_read h a)" "keeps no_pages (map_page shm pg h)"
  "keeps no_pages (set_pbit h i j m)"
  unfolding shmget_creat_def shmat_def mprotect_def mem_write_def mem_read_def map_page_def set_pbit_def
  by (intro keeps_rules; simp add: clean_def Let_def)+

lemma keeps_note [keeps_rules]: "keeps no_pages (note_page p w h)"
  by (auto simp: keeps_def note_page_def bind_p_def read_p_def lift_p_def write_p_def no_pages_def
      clean_def insert_dsm_def Let_def split: prod.splits sum.splits)

lemma keeps_simple_svc [keeps_rules]:
  "keeps no_pages (page_find_svc p h)" "keeps no_pages (dsm_address p h)" "keeps no_pages (page_ack_svc p h)"
  unfolding page_find_svc_def dsm_address_def page_ack_svc_def by (intro keeps_rules)+

lemma keeps_page_svc [keeps_rules]:
  "keeps no_pages (page_update_svc r h)" "keeps no_pages (page_fetch_svc r h)"
  unfolding page_update_svc_def page_fetch_svc_def by (intro keeps_rules)+

lemma keeps_find_owner [keeps_rules]: "keeps no_pages (find_owner resolve busy l p srvs)"
  by (induction srvs) (simp_all add: call_find_def keeps_rules)

lemma keeps_copies [keeps_rules]:
  "keeps no_pages (read_copy resolve h r m cs)" "keeps no_pages (take_copies resolve h r k cs)"
proof -
  show "keeps no_pages (read_copy resolve h r m cs)"
    by (induction resolve h r m cs rule: read_copy.induct) (auto intro!: keeps_rules simp: clean_def)
  show "keeps no_pages (take_copies resolve h r k cs)"
    by (induction resolve h r k cs rule: take_copies.induct) (auto intro!: keeps_rules simp: clean_def)
qed

lemma keeps_request [keeps_rules]: "keeps no_pages (page_request_svc resolve junk r h)"
  unfolding page_request_svc_def Let_def by (intro keeps_rules)

lemma keeps_creat_new [keeps_rules]: "keeps no_pages (creat_new shm p h)"
  unfolding creat_new_def Let_def by (intro keeps_rules) (simp add: clean_def insert_dir_def)

lemma keeps_creat [keeps_rules]: "keeps no_pages (page_creat_svc resolve shm junk p h)"
  unfolding page_creat_svc_def creat_known_def creat_remote_def by (intro keeps_rules)

lemma keeps_locate [keeps_rules]: "keeps no_pages (page_locate_svc resolve p h)"
  unfolding page_locate_svc_def by (intro keeps_rules)

lemma keeps_serve: "keeps no_pages (serve_call resolve shm junk c h)"
  by (cases c) (auto simp: ignore_p_def intro!: keeps_rules)

interpretation dsm: invariant_system "dsm_step resolve shm" no_pages for resolve shm
proof
  fix s t
  assume s: "no_pages s" and "dsm_step resolve shm s t"
  from this(2) show "no_pages t"
  proof cases
    case (served h junk c)
    then show ?thesis using s keeps_serve [of resolve shm junk c h] by (metis keeps_def snd_conv)
  next
    case (ended h junk c e u)
    then have "no_pages u" using s keeps_serve [of resolve shm junk c h] by (metis keeps_def snd_conv)
    then show ?thesis using ended by (simp add: no_pages_def clean_def)
  qed
qed

definition dsm_start :: "dsm_sys \<Rightarrow> bool" where
  "dsm_start s \<longleftrightarrow> (\<forall>h. \<exists>ip. s h = dsm_init ip)"

lemma start_no_pages: "dsm_start s \<Longrightarrow> no_pages s"
proof -
  assume a: "dsm_start s"
  have "clean (s h)" for h
  proof -
    obtain ip where "s h = dsm_init ip" using a unfolding dsm_start_def by blast
    then show ?thesis by (simp add: clean_def dsm_init_def)
  qed
  then show ?thesis by (simp add: no_pages_def)
qed

end
