(* ===== verification/Dsm_Properties.thy ===== *)
theory Dsm_Properties
  imports Dsm_Server
begin

text \<open>
  What the servers of the shared memory do in the states they can reach. Since inserting into
  an empty list is lost, no server ever has a directory entry; the properties show what
  follows for each procedure.
\<close>

section \<open>Reachable states\<close>

definition dsm_reachable :: "(string \<Rightarrow> host option) \<Rightarrow> (host \<Rightarrow> int \<Rightarrow> bool) \<Rightarrow> dsm_sys \<Rightarrow> bool" where
  "dsm_reachable resolve shm t \<longleftrightarrow> (\<exists>s. dsm_start s \<and> (dsm_step resolve shm)\<^sup>*\<^sup>* s t)"

lemma reachable_no_pages: "dsm_reachable resolve shm t \<Longrightarrow> no_pages t"
  unfolding dsm_reachable_def using dsm.inv_run start_no_pages by blast

lemma reachable_clean:
  assumes "dsm_reachable resolve shm t"
  shows "dh_dir (t h) = []" "dh_dsm (t h) = \<lparr>dl_cells = [], dl_open = False\<rparr>"
  using reachable_no_pages [OF assms] by (simp_all add: no_pages_def clean_def)

lemma search_dir_Nil [simp]: "search_dir p [] = None"
  by (simp add: search_dir_def)

lemmas prog_defs = bind_p_def read_p_def ret_p_def lift_p_def fail_p_def write_p_def

definition sample_junk :: unwritten where
  "sample_junk = \<lparr>uw_mode = RO, uw_from = strncpy IP_LEN [], uw_static = replicate PAGE_SIZE 0\<rparr>"

lemma sample_junk_from: "length (uw_from sample_junk) = IP_LEN"
  by (simp add: sample_junk_def)

definition dsm_sample :: dsm_sys where
  "dsm_sample h = dsm_init (if h = 0 then ''130.203.16.20'' else ''130.203.16.21'')"

definition dsm_sample_resolve :: "string \<Rightarrow> host option" where
  "dsm_sample_resolve a =
     (if a = ''130.203.16.20'' then Some 0 else if a = ''130.203.16.21'' then Some 1 else None)"

lemma dsm_sample_reachable: "dsm_reachable resolve shm dsm_sample"
  unfolding dsm_reachable_def by (intro exI [of _ dsm_sample]) (auto simp: dsm_start_def dsm_sample_def)

section \<open>Creating a page\<close>

definition others_answer :: "(string \<Rightarrow> host option) \<Rightarrow> dsm_sys \<Rightarrow> host \<Rightarrow> bool" where
  "others_answer resolve s h \<longleftrightarrow>
     (\<forall>srv \<in> set (take (dh_nserver (s h)) (dh_server (s h))). \<not> strncmp_eq IP_LEN srv (dh_ip (s h)) \<longrightarrow>
        (\<exists>d. resolve (c_str srv) = Some d \<and> d \<noteq> h \<and> dh_up (s d)))"

lemma find_owner_none:
  assumes "no_pages s"
    and "\<And>srv. srv \<in> set srvs \<Longrightarrow> \<not> strncmp_eq IP_LEN srv l \<Longrightarrow>
      \<exists>d. resolve (c_str srv) = Some d \<and> d \<noteq> h \<and> dh_up (s d)"
  shows "find_owner resolve {h} l page srvs s = (Inr None, s)"
  using assms(2)
proof (induction srvs)
  case Nil
  then show ?case by (simp add: ret_p_def)
next
  case (Cons srv srvs)
  have IH: "find_owner resolve {h} l page srvs s = (Inr None, s)" using Cons by simp
  show ?case
  proof (cases "strncmp_eq IP_LEN srv l")
    case False
    then obtain d where "resolve (c_str srv) = Some d" "d \<noteq> h" "dh_up (s d)" using Cons.prems by auto
    moreover have "dh_dir (s d) = []" using assms(1) by (simp add: no_pages_def clean_def)
    ultimately show ?thesis
      using False IH
      by (simp add: call_find_def connect_p_def call_p_def page_find_svc_def deref_def prog_defs)
  qed (simp add: IH)
qed

definition page_key :: "pageid_t \<Rightarrow> int" where
  "page_key page = to_key (foldl hash_step 5381 (c_str (pg_name page)))"

definition with_segment :: "int \<Rightarrow> shm_seg list \<Rightarrow> nat \<times> shm_seg list" where
  "with_segment key segs =
     (case find_seg key segs of
        Some i \<Rightarrow> (i, segs)
      | None \<Rightarrow> (length segs, segs @ [\<lparr>sg_key = key, sg_data = replicate PAGE_SIZE 0\<rparr>]))"

lemma with_segment_key:
  "(i, segs') = with_segment key segs \<Longrightarrow> i < length segs' \<and> sg_key (segs' ! i) = key"
  by (auto simp: with_segment_def find_seg_def dest!: first_index_SomeD split: option.splits if_splits)

lemma c_str_append: "CHR 0x00 \<in> set a \<Longrightarrow> c_str (a @ b) = c_str a"
  by (auto simp: c_str_def)

lemma map_page_state:
  assumes "CHR 0x00 \<in> set (pg_name page)" and "shm h (page_key page)"
    and "(i, segs) = with_segment (page_key page) (dh_segs (s h))"
  shows "map_page shm page h s = (Inr (length (dh_maps (s h))),
    s(h := (s h)\<lparr>dh_segs := segs, dh_maps := dh_maps (s h) @ [(i, PROT_READ_WRITE)]\<rparr>))"
  using assms
  by (auto simp: map_page_def hash_def pageid_bytes_def c_str_append page_key_def shmget_creat_def shmat_def prog_defs with_segment_def
      split: option.splits)

lemma creat_new_state:
  assumes "clean (s h)"
    and "CHR 0x00 \<in> set (pg_name page)" and "shm h (page_key page)"
    and seg: "(i, segs) = with_segment (page_key page) (dh_segs (s h))"
  shows "creat_new shm page h s =
    (Inr 1, s(h := (s h)\<lparr>dh_segs := segs, dh_maps := dh_maps (s h) @ [(i, PROT_WRITE)]\<rparr>))"
proof -
  have dir: "s(h := (s h)\<lparr>dh_dir := []\<rparr>) = s"
    using assms(1) by (cases "s h") (simp add: clean_def fun_upd_idem)
  let ?d = "(s h)\<lparr>dh_segs := segs, dh_maps := dh_maps (s h) @ [(i, PROT_READ_WRITE)]\<rparr>"
  have noted: "note_page page w h (s(h := ?d)) = (Inr (), s(h := ?d))" for w
    using assms(1) by (cases "s h") (simp add: note_page_def prog_defs insert_dsm_def clean_def)
  have "dh_dir (s h) = []" using assms(1) by (simp add: clean_def)
  then show ?thesis
    using map_page_state [of page shm h i segs s] assms(2,3) seg
    by (simp add: creat_new_def prog_defs Let_def insert_dir_def noted [unfolded prog_defs] dir mprotect_def)
qed

lemma page_creat_state:
  assumes np: "no_pages t" and ans: "others_answer resolve t h"
    and "CHR 0x00 \<in> set (pg_name page)" and "shm h (page_key page)"
    and seg: "(i, segs) = with_segment (page_key page) (dh_segs (t h))"
  shows "page_creat_svc resolve shm junk page h t =
      (Inr 1, t(h := (t h)\<lparr>dh_segs := segs, dh_maps := dh_maps (t h) @ [(i, PROT_WRITE)]\<rparr>))"
proof -
  have "find_owner resolve {h} (dh_ip (t h)) page (take (dh_nserver (t h)) (dh_server (t h))) t = (Inr None, t)"
    by (rule find_owner_none [OF np]) (use ans in \<open>auto simp: others_answer_def\<close>)
  moreover have "clean (t h)" using np by (simp add: no_pages_def)
  ultimately show ?thesis
    using creat_new_state [of t h page shm i segs] assms(3,4) seg
    by (simp add: page_creat_svc_def prog_defs clean_def)
qed

lemma with_segment_find: "(i, segs') = with_segment key segs \<Longrightarrow> key \<noteq> 0 \<Longrightarrow> find_seg key segs' = Some i"
  by (auto simp: with_segment_def find_seg_def first_index_append split: option.splits)

lemma dsm_sample_fields:
  "dh_nserver (dsm_sample h) = 2" "dh_up (dsm_sample h)" "dh_segs (dsm_sample h) = []"
  "take 2 (dh_server (dsm_sample h)) = [strncpy IP_LEN ''130.203.16.20'', strncpy IP_LEN ''130.203.16.21'']"
  "dh_ip (dsm_sample h) = strncpy IP_LEN (if h = 0 then ''130.203.16.20'' else ''130.203.16.21'')"
  by (simp_all add: dsm_sample_def dsm_init_def)

lemma dsm_sample_ips:
  "c_str (strncpy IP_LEN ''130.203.16.20'') = ''130.203.16.20''"
  "c_str (strncpy IP_LEN ''130.203.16.21'') = ''130.203.16.21''"
  by (simp_all add: c_str_strncpy IP_LEN_def)

lemma dsm_sample_answers: "others_answer dsm_sample_resolve dsm_sample 0"
  by (auto simp: others_answer_def dsm_sample_fields strncmp_eq_def dsm_sample_ips dsm_sample_resolve_def)

lemma sample_pageid_nul: "CHR 0x00 \<in> set (pg_name sample_pageid)"
  by (simp add: sample_pageid_def strncpy_def NAME_LEN_def)

lemma dsm_sample_creates:
  "\<exists>t. dsm_step dsm_sample_resolve (\<lambda>h k. True) dsm_sample t \<and> dh_segs (t 0) \<noteq> [] \<and>
     dsm_reachable dsm_sample_resolve (\<lambda>h k. True) t"
proof -
  obtain i segs where seg: "(i, segs) = with_segment (page_key sample_pageid) (dh_segs (dsm_sample 0))"
    by (metis surj_pair)
  have c: "page_creat_svc dsm_sample_resolve (\<lambda>h k. True) sample_junk sample_pageid 0 dsm_sample =
      (Inr 1, dsm_sample(0 := (dsm_sample 0)\<lparr>dh_segs := segs,
         dh_maps := dh_maps (dsm_sample 0) @ [(i, PROT_WRITE)]\<rparr>))" "i < length segs"
    using page_creat_state [OF reachable_no_pages [OF dsm_sample_reachable] dsm_sample_answers
        sample_pageid_nul _ seg] with_segment_key [OF seg] by simp_all
  let ?t = "dsm_sample(0 := (dsm_sample 0)\<lparr>dh_segs := segs,
         dh_maps := dh_maps (dsm_sample 0) @ [(i, PROT_WRITE)]\<rparr>)"
  have "serve_call dsm_sample_resolve (\<lambda>h k. True) sample_junk (Page_creat sample_pageid) 0 dsm_sample = (Inr (), ?t)"
    using c(1) by (simp add: ignore_p_def prog_defs)
  then have step: "dsm_step dsm_sample_resolve (\<lambda>h k. True) dsm_sample ?t"
    by (rule dsm_step.served [of dsm_sample 0, rotated]) (simp add: dsm_sample_fields)
  then have "dsm_reachable dsm_sample_resolve (\<lambda>h k. True) ?t"
    unfolding dsm_reachable_def
    by (intro exI [of _ dsm_sample]) (auto simp: dsm_start_def dsm_sample_def [of _])
  with step c(2) show ?thesis by (intro exI [of _ ?t]) auto
qed

section \<open>Properties\<close>

text \<open>
  C26. Whatever calls the servers have served, in any order, every server answers that it does not
  have the page, for every page: the directory the design relies on stays empty.
\<close>

theorem page_find_always_fails:
  assumes "dsm_reachable resolve shm t"
  shows "page_find_svc page h t = (Inr 0, t)"
  using reachable_clean [OF assms, of h] by (simp add: page_find_svc_def prog_defs)

theorem page_find_always_fails_witness:
  "\<exists>t. dsm_step dsm_sample_resolve (\<lambda>h k. True) dsm_sample t \<and> dh_segs (t 0) \<noteq> [] \<and>
     page_find_svc sample_pageid 0 t = (Inr 0, t)"
proof -
  obtain t where "dsm_step dsm_sample_resolve (\<lambda>h k. True) dsm_sample t" "dh_segs (t 0) \<noteq> []"
      "dsm_reachable dsm_sample_resolve (\<lambda>h k. True) t"
    using dsm_sample_creates by blast
  with page_find_always_fails [OF this(3)] show ?thesis by blast
qed

text \<open>
  C27. A request for a page, an update and a fetch end the process of every server that receives
  them: no such entry is ever found.
\<close>

theorem page_service_ends_process:
  assumes "dsm_reachable resolve shm t"
  shows "page_request_svc resolve junk r h t = (Inl Exit_failure, t) \<and>
    page_update_svc r h t = (Inl Exit_failure, t) \<and> page_fetch_svc r h t = (Inl Exit_failure, t)"
  using reachable_clean [OF assms, of h]
  by (simp add: page_request_svc_def page_update_svc_def page_fetch_svc_def dsm_address_def
      search_dsm_def prog_defs)

theorem page_service_ends_process_witness:
  "page_request_svc dsm_sample_resolve RO sample_request 1 dsm_sample = (Inl Exit_failure, dsm_sample)"
  using page_service_ends_process [OF dsm_sample_reachable, of dsm_sample_resolve RO sample_request 1] by simp

text \<open>
  Every server claims to be the home of every page: the test of the search result is inverted,
  and the search always fails.
\<close>

theorem page_locate_answers_itself:
  assumes "dsm_reachable resolve shm t"
  shows "page_locate_svc resolve page h t = (Inr \<lparr>ht_ip = strncpy IP_LEN (c_str (dh_ip (t h)))\<rparr>, t)"
  using reachable_clean [OF assms, of h] by (simp add: page_locate_svc_def prog_defs)

theorem page_locate_answers_itself_witness:
  "page_locate_svc dsm_sample_resolve sample_pageid 1 dsm_sample =
     (Inr \<lparr>ht_ip = strncpy IP_LEN ''130.203.16.21''\<rparr>, dsm_sample)"
  using page_locate_answers_itself [OF dsm_sample_reachable, of dsm_sample_resolve sample_pageid 1]
  by (simp add: dsm_sample_fields dsm_sample_ips)

text \<open>
  Creating a page succeeds, but only locally: when the other servers answer, the name has its terminating zero and the segment can be had, the server
  returns 1 and has mapped a segment with the key of the name. No other machine changes, so the
  same name on two machines names two unrelated segments.
\<close>

theorem page_creat_is_local:
  assumes reach: "dsm_reachable resolve shm t" and ans: "others_answer resolve t h"
    and "CHR 0x00 \<in> set (pg_name page)" and "shm h (page_key page)"
  shows "\<exists>i segs. page_creat_svc resolve shm junk page h t =
      (Inr 1, t(h := (t h)\<lparr>dh_segs := segs, dh_maps := dh_maps (t h) @ [(i, PROT_WRITE)]\<rparr>)) \<and>
    i < length segs \<and> sg_key (segs ! i) = page_key page"
proof -
  obtain i segs where seg: "(i, segs) = with_segment (page_key page) (dh_segs (t h))"
    by (metis surj_pair)
  show ?thesis
    using page_creat_state [OF reachable_no_pages [OF reach] ans assms(3) _ seg] assms(4) with_segment_key [OF seg] by blast
qed

theorem page_creat_is_local_witness:
  "\<exists>i segs. page_creat_svc dsm_sample_resolve (\<lambda>h k. True) sample_junk sample_pageid 0 dsm_sample =
      (Inr 1, dsm_sample(0 := (dsm_sample 0)\<lparr>dh_segs := segs,
         dh_maps := dh_maps (dsm_sample 0) @ [(i, PROT_WRITE)]\<rparr>)) \<and>
    i < length segs \<and> sg_key (segs ! i) = page_key sample_pageid"
  by (rule page_creat_is_local [OF dsm_sample_reachable dsm_sample_answers
        sample_pageid_nul]) simp

end
