(* ===== verification/Dsm_Wire.thy ===== *)
theory Dsm_Wire
  imports Dsm_Properties Utility
begin

text \<open>
  Remote calls of the shared memory with their messages: the argument is encoded by the stub, decoded by
  \<^verbatim>\<open>psu_dsm_1\<close>, the procedure runs, its result is encoded by \<open>svc_sendreply\<close> and decoded by the stub. The
  procedures of \<open>Dsm_Server\<close> call each other directly (\<open>call_p\<close>); here this is shown to be what the messages
  amount to.
\<close>

section \<open>The server's end\<close>

text \<open>The procedure a call names, and its result encoded with \<open>_xdr_result\<close>.\<close>

fun dsm_local ::
    "(string \<Rightarrow> host option) \<Rightarrow> (host \<Rightarrow> int \<Rightarrow> bool) \<Rightarrow> unwritten \<Rightarrow> dsm_call \<Rightarrow> host \<Rightarrow> byte list option dsm_prog" where
  "dsm_local resolve shm junk (Page_find p) h = bind_p (page_find_svc p h) (\<lambda>r. ret_p (x_put xdr_int r))"
| "dsm_local resolve shm junk (Page_locate p) h = bind_p (page_locate_svc resolve p h) (\<lambda>r. ret_p (x_put xdr_host_t r))"
| "dsm_local resolve shm junk (Page_creat p) h = bind_p (page_creat_svc resolve shm junk p h) (\<lambda>r. ret_p (x_put xdr_int r))"
| "dsm_local resolve shm junk (Page_update q) h = bind_p (page_update_svc q h) (\<lambda>r. ret_p (x_put xdr_int r))"
| "dsm_local resolve shm junk (Page_request q) h =
     bind_p (page_request_svc resolve (uw_mode junk) q h) (\<lambda>r. ret_p (x_put xdr_page_t r))"
| "dsm_local resolve shm junk (Page_fetch q) h = bind_p (page_fetch_svc q h) (\<lambda>r. ret_p (x_put xdr_page_t r))"
| "dsm_local resolve shm junk (Page_ack p) h = bind_p (page_ack_svc p h) (\<lambda>r. ret_p (x_put xdr_void r))"

datatype dsm_answer = Answer "byte list" | Failure reply

text \<open>
  A result that cannot be encoded makes \<open>svc_sendreply\<close> fail. No procedure returns a null pointer, and the
  arguments hold no memory of their own, so that \<open>svc_freeargs\<close> succeeds.
\<close>

definition psu_dsm_1_run ::
    "(string \<Rightarrow> host option) \<Rightarrow> (host \<Rightarrow> int \<Rightarrow> bool) \<Rightarrow> unwritten \<Rightarrow> nat \<Rightarrow> byte list \<Rightarrow> host \<Rightarrow> dsm_answer dsm_prog" where
  "psu_dsm_1_run resolve shm junk rq_proc bs h =
     (case psu_dsm_1 rq_proc bs of
        Dsm_null_reply \<Rightarrow> ret_p (Answer [])
      | Dsm_no_procedure \<Rightarrow> ret_p (Failure No_procedure)
      | Dsm_decode_error \<Rightarrow> ret_p (Failure Decode_error)
      | Dsm_serve c \<Rightarrow> bind_p (dsm_local resolve shm junk c h) (\<lambda>r.
          ret_p (case r of Some w \<Rightarrow> Answer w | None \<Rightarrow> Failure System_error)))"

section \<open>The client's end\<close>

text \<open>
  A connection to the server \<open>d\<close>: the number and the bytes it is given are dispatched there, and the bytes of the reply come
  back. A server that is busy or has gone, one whose process ends during the call and one that answers with an
  error give no bytes. The caller itself goes on in every case.
\<close>

definition clnt_call ::
    "(string \<Rightarrow> host option) \<Rightarrow> (host \<Rightarrow> int \<Rightarrow> bool) \<Rightarrow> unwritten \<Rightarrow> host set \<Rightarrow> host \<Rightarrow> nat \<Rightarrow> byte list \<Rightarrow>
      dsm_sys \<Rightarrow> byte list option \<times> dsm_sys" where
  "clnt_call resolve shm junk busy d rq_proc bs s =
     (case call_p busy d (psu_dsm_1_run resolve shm junk rq_proc bs) s of
        (Inr (Some (Answer w)), t) \<Rightarrow> (Some w, t)
      | (_, t) \<Rightarrow> (None, t))"

text \<open>A stub as a step of a program: it returns a pointer, null or not.\<close>

definition stub_p :: "(dsm_sys \<Rightarrow> 'a \<times> dsm_sys) \<Rightarrow> 'a dsm_prog" where
  "stub_p m = (\<lambda>s. case m s of (r, t) \<Rightarrow> (Inr r, t))"

section \<open>A remote procedure\<close>

text \<open>
  What stub and server agree on. The dispatcher takes the number and the encoded argument back to the call
  (\<open>dispatch\<close>), and the call runs the procedure and encodes its result with the filter the stub decodes with.
\<close>

locale remote_procedure = codec xdr_result
  for xdr_result :: "'b xdrproc" +
  fixes xdr_argument :: "'a xdrproc"
    and proc :: nat
    and mk :: "'a \<Rightarrow> dsm_call"
    and svc :: "(string \<Rightarrow> host option) \<Rightarrow> (host \<Rightarrow> int \<Rightarrow> bool) \<Rightarrow> unwritten \<Rightarrow> 'a \<Rightarrow> host \<Rightarrow> 'b dsm_prog"
  assumes dispatch: "x_put xdr_argument a = Some w \<Longrightarrow> psu_dsm_1 proc w = Dsm_serve (mk a)"
    and local: "dsm_local resolve shm junk (mk a) h = bind_p (svc resolve shm junk a h) (\<lambda>r. ret_p (x_put xdr_result r))"
begin

lemma run_served:
  assumes "x_put xdr_argument a = Some w"
  shows "psu_dsm_1_run resolve shm junk proc w h =
    bind_p (svc resolve shm junk a h) (\<lambda>r. ret_p (case x_put xdr_result r of Some w \<Rightarrow> Answer w | None \<Rightarrow> Failure System_error))"
  by (simp add: psu_dsm_1_run_def dispatch [OF assms] local bind_p_def ret_p_def fun_eq_iff split: prod.split sum.split)

lemma stub_is_call:
  assumes arg: "x_put xdr_argument a = Some w"
    and res: "\<And>v t. svc resolve shm junk a d s = (Inr v, t) \<Longrightarrow> \<exists>u. x_put xdr_result v = Some u"
  shows "stub_p (dsm_stub proc xdr_argument xdr_result a (clnt_call resolve shm junk busy d)) s =
    call_p busy d (svc resolve shm junk a) s"
proof (cases "d \<in> busy \<or> \<not> dh_up (s d)")
  case True
  with arg show ?thesis by (simp add: stub_p_def dsm_stub_def clnt_call_def call_p_def)
next
  case False
  obtain r t where r: "svc resolve shm junk a d s = (r, t)" by (cases "svc resolve shm junk a d s")
  show ?thesis
  proof (cases r)
    case (Inl e)
    with False arg r show ?thesis
      by (simp add: stub_p_def dsm_stub_def clnt_call_def call_p_def run_served bind_p_def)
  next
    case (Inr v)
    with res r obtain u where u: "x_put xdr_result v = Some u" by blast
    then have "x_get xdr_result u = Some (v, [])" using get_put [of v u "[]"] by simp
    with False arg r Inr u show ?thesis
      by (simp add: stub_p_def dsm_stub_def clnt_call_def call_p_def run_served bind_p_def ret_p_def)
  qed
qed

end

text \<open>The dispatcher undoes the encoding of the stubs.\<close>

lemma get_encoded:
  "x_put xdr_pageid_t p = Some w \<Longrightarrow> x_get xdr_pageid_t w = Some (p, [])"
  "x_put xdr_request_t q = Some w \<Longrightarrow> x_get xdr_request_t w = Some (q, [])"
  using pageid_t_xdr.get_put [of p w "[]"] request_t_xdr.get_put [of q w "[]"] by simp_all

lemma codec_int: "codec xdr_int" using sized_int by (simp add: sized_codec_def)
lemma codec_void: "codec xdr_void" using sized_void by (simp add: sized_codec_def)

interpretation find_rpc: remote_procedure xdr_int xdr_pageid_t 1 Page_find
  "\<lambda>resolve shm junk. page_find_svc"
  by (intro remote_procedure.intro remote_procedure_axioms.intro codec_int)
    (simp_all add: psu_dsm_1_def dsm_decoded_def get_encoded)

interpretation locate_rpc: remote_procedure xdr_host_t xdr_pageid_t 2 Page_locate
  "\<lambda>resolve shm junk. page_locate_svc resolve"
  by (intro remote_procedure.intro remote_procedure_axioms.intro host_t_xdr.codec_axioms)
    (simp_all add: psu_dsm_1_def dsm_decoded_def get_encoded)

interpretation creat_rpc: remote_procedure xdr_int xdr_pageid_t 3 Page_creat
  page_creat_svc
  by (intro remote_procedure.intro remote_procedure_axioms.intro codec_int)
    (simp_all add: psu_dsm_1_def dsm_decoded_def get_encoded)

interpretation update_rpc: remote_procedure xdr_int xdr_request_t 4 Page_update
  "\<lambda>resolve shm junk. page_update_svc"
  by (intro remote_procedure.intro remote_procedure_axioms.intro codec_int)
    (simp_all add: psu_dsm_1_def dsm_decoded_def get_encoded)

interpretation request_rpc: remote_procedure xdr_page_t xdr_request_t 5 Page_request
  "\<lambda>resolve shm junk. page_request_svc resolve (uw_mode junk)"
  by (intro remote_procedure.intro remote_procedure_axioms.intro page_t_xdr.codec_axioms)
    (simp_all add: psu_dsm_1_def dsm_decoded_def get_encoded)

interpretation fetch_rpc: remote_procedure xdr_page_t xdr_request_t 6 Page_fetch
  "\<lambda>resolve shm junk. page_fetch_svc"
  by (intro remote_procedure.intro remote_procedure_axioms.intro page_t_xdr.codec_axioms)
    (simp_all add: psu_dsm_1_def dsm_decoded_def get_encoded)

interpretation ack_rpc: remote_procedure xdr_void xdr_pageid_t 7 Page_ack
  "\<lambda>resolve shm junk. page_ack_svc"
  by (intro remote_procedure.intro remote_procedure_axioms.intro codec_void)
    (simp_all add: psu_dsm_1_def dsm_decoded_def get_encoded)

section \<open>Results that can be encoded\<close>

definition returns :: "('a \<Rightarrow> bool) \<Rightarrow> 'a dsm_prog \<Rightarrow> bool" where
  "returns P m \<longleftrightarrow> (\<forall>s v t. m s = (Inr v, t) \<longrightarrow> P v)"

lemma returns_bind: "(\<And>x. returns P (f x)) \<Longrightarrow> returns P (bind_p m f)"
  by (auto simp: returns_def bind_p_def split: prod.splits sum.splits)

lemma returns_pure: "P x \<Longrightarrow> returns P (ret_p x)" "returns P (fail_p e)"
  by (auto simp: returns_def ret_p_def fail_p_def)

lemma returns_cases:
  "returns P m \<Longrightarrow> returns P n \<Longrightarrow> returns P (if b then m else n)"
  "returns P m \<Longrightarrow> (\<And>x. returns P (f x)) \<Longrightarrow> returns P (case r of None \<Rightarrow> m | Some x \<Rightarrow> f x)"
  by (auto split: option.splits)

lemma put_int_total: "is_c_int i \<Longrightarrow> \<exists>w. x_put xdr_int i = Some w"
  by (simp add: xdr_int_def xdr_conv_def xdr_u_int_def)

lemma small_ints: "is_c_int 0" "is_c_int 1"
  by (simp_all add: is_c_int_def INT_MAX_def)

lemma returns_int:
  "returns is_c_int (page_find_svc p h)" "returns is_c_int (page_update_svc q h)"
  "returns is_c_int (page_creat_svc resolve shm junk p h)"
proof -
  show "returns is_c_int (page_find_svc p h)"
    unfolding page_find_svc_def by (intro returns_bind returns_pure) (simp add: small_ints split: option.split)
  show "returns is_c_int (page_update_svc q h)"
    unfolding page_update_svc_def by (intro returns_bind returns_pure small_ints)
  show "returns is_c_int (page_creat_svc resolve shm junk p h)"
    unfolding page_creat_svc_def creat_known_def creat_remote_def creat_new_def Let_def
    by (intro returns_bind returns_cases returns_pure small_ints)
qed

lemma returns_put_int: "returns is_c_int m \<Longrightarrow> m s = (Inr v, t) \<Longrightarrow> \<exists>u. x_put xdr_int v = Some u"
  unfolding returns_def using put_int_total by blast

lemma locate_ok: "returns host_ok (page_locate_svc resolve p h)"
  unfolding page_locate_svc_def by (intro returns_bind returns_cases returns_pure) (simp_all add: host_ok_def)

text \<open>Creating a page, for the client library.\<close>

lemma creat_stub:
  assumes "pageid_ok p"
  shows "stub_p (psu_dsm_page_creat_1 p (clnt_call resolve shm junk busy d)) s = call_p busy d (page_creat_svc resolve shm junk p) s"
proof -
  obtain w where "x_put xdr_pageid_t p = Some w" using put_pageid_total [OF assms] by blast
  then show ?thesis
    unfolding psu_dsm_page_creat_1_def
    by (rule creat_rpc.stub_is_call) (rule returns_put_int [OF returns_int(3)])
qed

lemma request_stub:
  assumes "request_ok q" and "\<And>v t. page_request_svc resolve (uw_mode junk) q d s = (Inr v, t) \<Longrightarrow> page_ok v"
  shows "stub_p (psu_dsm_page_request_1 q (clnt_call resolve shm junk busy d)) s = call_p busy d (page_request_svc resolve (uw_mode junk) q) s"
proof -
  obtain w where "x_put xdr_request_t q = Some w" using put_request_total [OF assms(1)] by blast
  then show ?thesis
    unfolding psu_dsm_page_request_1_def
    by (rule request_rpc.stub_is_call) (use assms(2) put_page_total in blast)
qed

lemma locate_stub:
  assumes "pageid_ok p"
  shows "stub_p (psu_dsm_page_locate_1 p (clnt_call resolve shm junk busy d)) s =
      bind_p (call_p busy d (page_locate_svc resolve p)) (\<lambda>r.
        ret_p (map_option (\<lambda>host. (host, drop 4 (ht_ip host))) r)) s"
proof -
  obtain w where w: "x_put xdr_pageid_t p = Some w" using put_pageid_total [OF assms] by blast
  have "stub_p (dsm_stub 2 xdr_pageid_t xdr_host_t p (clnt_call resolve shm junk busy d)) s = call_p busy d (page_locate_svc resolve p) s"
    by (rule locate_rpc.stub_is_call [OF w]) (use locate_ok [unfolded returns_def] put_host_total in blast)
  then show ?thesis
    by (auto simp: stub_p_def psu_dsm_page_locate_1_def bind_p_def ret_p_def split: prod.splits sum.splits)
qed

section \<open>Properties\<close>

text \<open>
  C30. Remote calls of the shared memory are procedure calls. Each of the seven stubs, given an argument whose arrays have
  their declared lengths and a connection that hands its number and bytes to the dispatcher of the
  server, has exactly the effect and the result of the procedure of its name run by \<open>call_p\<close>: encoding,
  dispatching by the number, serving, replying and decoding change nothing, in every state of the servers, when
  the called server is busy, has gone or ends during the call too; page contents survive if they have the length of a
  page. The locate stub returns the host and writes its last twelve characters behind its variable.
\<close>

theorem remote_calls_are_calls:
  assumes p: "pageid_ok p" and q: "request_ok q"
    and pages: "\<forall>v t. page_request_svc resolve (uw_mode junk) q d s = (Inr v, t) \<longrightarrow> page_ok v"
      "\<forall>v t. page_fetch_svc q d s = (Inr v, t) \<longrightarrow> page_ok v"
  shows "stub_p (psu_dsm_page_find_1 p (clnt_call resolve shm junk busy d)) s = call_p busy d (page_find_svc p) s \<and>
    stub_p (psu_dsm_page_creat_1 p (clnt_call resolve shm junk busy d)) s = call_p busy d (page_creat_svc resolve shm junk p) s \<and>
    stub_p (psu_dsm_page_update_1 q (clnt_call resolve shm junk busy d)) s = call_p busy d (page_update_svc q) s \<and>
    stub_p (psu_dsm_page_request_1 q (clnt_call resolve shm junk busy d)) s = call_p busy d (page_request_svc resolve (uw_mode junk) q) s \<and>
    stub_p (psu_dsm_page_fetch_1 q (clnt_call resolve shm junk busy d)) s = call_p busy d (page_fetch_svc q) s \<and>
    stub_p (psu_dsm_page_ack_1 p (clnt_call resolve shm junk busy d)) s = call_p busy d (page_ack_svc p) s \<and>
    stub_p (psu_dsm_page_locate_1 p (clnt_call resolve shm junk busy d)) s =
      bind_p (call_p busy d (page_locate_svc resolve p)) (\<lambda>r.
        ret_p (map_option (\<lambda>host. (host, drop 4 (ht_ip host))) r)) s"
proof (intro conjI)
  obtain pw where pw: "x_put xdr_pageid_t p = Some pw" using put_pageid_total [OF p] by blast
  obtain qw where qw: "x_put xdr_request_t q = Some qw" using put_request_total [OF q] by blast
  show "stub_p (psu_dsm_page_find_1 p (clnt_call resolve shm junk busy d)) s = call_p busy d (page_find_svc p) s"
    unfolding psu_dsm_page_find_1_def by (rule find_rpc.stub_is_call [OF pw]) (rule returns_put_int [OF returns_int(1)])
  show "stub_p (psu_dsm_page_creat_1 p (clnt_call resolve shm junk busy d)) s = call_p busy d (page_creat_svc resolve shm junk p) s"
    by (rule creat_stub [OF p])
  show "stub_p (psu_dsm_page_update_1 q (clnt_call resolve shm junk busy d)) s = call_p busy d (page_update_svc q) s"
    unfolding psu_dsm_page_update_1_def by (rule update_rpc.stub_is_call [OF qw]) (rule returns_put_int [OF returns_int(2)])
  show "stub_p (psu_dsm_page_request_1 q (clnt_call resolve shm junk busy d)) s = call_p busy d (page_request_svc resolve (uw_mode junk) q) s"
    by (rule request_stub [OF q]) (use pages(1) in blast)
  show "stub_p (psu_dsm_page_fetch_1 q (clnt_call resolve shm junk busy d)) s = call_p busy d (page_fetch_svc q) s"
    unfolding psu_dsm_page_fetch_1_def by (rule fetch_rpc.stub_is_call [OF qw]) (use pages(2) put_page_total in blast)
  show "stub_p (psu_dsm_page_ack_1 p (clnt_call resolve shm junk busy d)) s = call_p busy d (page_ack_svc p) s"
    unfolding psu_dsm_page_ack_1_def by (rule ack_rpc.stub_is_call [OF pw]) (simp add: xdr_void_def)
  show "stub_p (psu_dsm_page_locate_1 p (clnt_call resolve shm junk busy d)) s =
      bind_p (call_p busy d (page_locate_svc resolve p)) (\<lambda>r.
        ret_p (map_option (\<lambda>host. (host, drop 4 (ht_ip host))) r)) s"
    by (rule locate_stub [OF p])
qed

theorem remote_calls_are_calls_witness:
  "stub_p (psu_dsm_page_find_1 sample_pageid (clnt_call dsm_sample_resolve (\<lambda>h k. True) sample_junk {} 1)) dsm_sample =
     (Inr (Some 0), dsm_sample) \<and>
   fst (stub_p (psu_dsm_page_fetch_1 sample_request (clnt_call dsm_sample_resolve (\<lambda>h k. True) sample_junk {} 1)) dsm_sample) =
     Inr None \<and>
   fst (stub_p (psu_dsm_page_locate_1 sample_pageid (clnt_call dsm_sample_resolve (\<lambda>h k. True) sample_junk {} 1)) dsm_sample) =
     Inr (Some (\<lparr>ht_ip = strncpy IP_LEN ''130.203.16.21''\<rparr>, drop 4 (strncpy IP_LEN ''130.203.16.21'')))"
proof -
  have s: "page_request_svc dsm_sample_resolve (uw_mode sample_junk) sample_request 1 dsm_sample = (Inl Exit_failure, dsm_sample)"
      "page_fetch_svc sample_request 1 dsm_sample = (Inl Exit_failure, dsm_sample)"
      "page_find_svc sample_pageid 1 dsm_sample = (Inr 0, dsm_sample)"
      "page_locate_svc dsm_sample_resolve sample_pageid 1 dsm_sample =
        (Inr \<lparr>ht_ip = strncpy IP_LEN ''130.203.16.21''\<rparr>, dsm_sample)"
    using reachable_clean [OF dsm_sample_reachable, of 1]
    by (simp_all add: page_request_svc_def page_fetch_svc_def page_find_svc_def page_locate_svc_def dsm_address_def
        search_dsm_def prog_defs dsm_sample_fields dsm_sample_ips)
  with remote_calls_are_calls [OF dsm_sample_ok, of dsm_sample_resolve sample_junk 1 dsm_sample "\<lambda>h k. True" "{}"]
  show ?thesis by (simp add: call_p_def dsm_sample_fields bind_p_def ret_p_def)
qed

end
