(* ===== verification/Dsm_Client.thy ===== *)
theory Dsm_Client
  imports Dsm_Wire
begin

text \<open>
  The client library of the shared memory, \<^verbatim>\<open>psu_dsm.c\<close>: allocation of a named page, the handler
  for faults on it, and the empty \<^verbatim>\<open>psu_dsm_free\<close>. The client runs on a machine with a server and
  attaches the same System V segments. Variables the source reads before it writes them are
  arguments: \<open>fake_ip\<close> and the entry on the stack of the fault handler.
\<close>

section \<open>Definitions\<close>

record dsm_client =
  dc_host :: host
  dc_maps :: "(nat \<times> prot) list"
  dc_cdsm :: dsm_list
  dc_handler :: bool

definition psu_dsm_init :: "dsm_client \<Rightarrow> dsm_client" where
  "psu_dsm_init c = c\<lparr>dc_cdsm := \<lparr>dl_cells = [], dl_open = False\<rparr>, dc_handler := True\<rparr>"

text \<open>\<open>shmget\<close> without \<open>IPC_CREAT\<close>: the segment has to exist, unless the key is \<open>IPC_PRIVATE\<close>.\<close>

definition shmget_find :: "(host \<Rightarrow> int \<Rightarrow> bool) \<Rightarrow> host \<Rightarrow> int \<Rightarrow> nat dsm_prog" where
  "shmget_find shm h key =
     (if key = 0 then shmget_creat shm h key
      else bind_p (read_p h dh_segs) (\<lambda>segs.
        case find_seg key segs of Some i \<Rightarrow> ret_p i | None \<Rightarrow> fail_p Exit_failure))"

definition psu_dsm_malloc ::
    "(string \<Rightarrow> host option) \<Rightarrow> (host \<Rightarrow> int \<Rightarrow> bool) \<Rightarrow> unwritten \<Rightarrow> string \<Rightarrow> string \<Rightarrow> int \<Rightarrow> dsm_client \<Rightarrow>
      (nat \<times> dsm_client) dsm_prog" where
  "psu_dsm_malloc resolve shm junk fake_ip name sz c =
     (let h = dc_host c; page = \<lparr>pg_name = strncpy NAME_LEN name, pg_size = word_of_int sz\<rparr> in
      bind_p (read_p h dh_ip) (\<lambda>ip.
        bind_p (connect_p resolve ip) (\<lambda>clnt.
          bind_p (stub_p (psu_dsm_page_creat_1 page (clnt_call resolve shm junk {} clnt))) (\<lambda>result_1.
            case result_1 of
              None \<Rightarrow> fail_p Exit_failure
            | Some r \<Rightarrow>
                (if r \<noteq> 1 then fail_p Exit_failure
                 else bind_p (lift_p (hash (name @ [CHR 0x00]))) (\<lambda>k.
                   bind_p (shmget_find shm h (to_key k)) (\<lambda>shmid.
                     bind_p (lift_p (insert_dsm page fake_ip (dc_cdsm c))) (\<lambda>cdsm.
                       ret_p (length (dc_maps c),
                         c\<lparr>dc_maps := dc_maps c @ [(shmid, PROT_READ_WRITE)], dc_cdsm := cdsm\<rparr>)))))))))"

definition psu_dsm_free :: "string \<Rightarrow> dsm_client \<Rightarrow> unit dsm_prog" where
  "psu_dsm_free name c = ret_p ()"

text \<open>
  The fault handler. Its arguments: \<open>debug\<close>, whether the library has been compiled with \<^verbatim>\<open>DEBUG\<close>, which
  leaves connections open; \<open>busy\<close>, the servers that do not answer in time; \<open>attach\<close>, the mapping of the process that
  starts at an address; \<open>write_fault\<close>, bit 1 of the error register; and \<open>junk\<close>, as for the servers. \<open>segv_install\<close> is the end
  of the handler: the page is copied to the address of the entry and its protection set.
\<close>

definition segv_install :: "(nat \<Rightarrow> nat option) \<Rightarrow> bool \<Rightarrow> dsm_entry_t \<Rightarrow> page_t option \<Rightarrow> dsm_client \<Rightarrow> dsm_client dsm_prog" where
  "segv_install attach write_fault entry npage c =
     bind_p (deref npage) (\<lambda>page.
       case dm_addr entry of
         None \<Rightarrow> fail_p Uninitialised_read
       | Some addr \<Rightarrow>
           (case attach addr of
              None \<Rightarrow> fail_p Out_of_bounds
            | Some i \<Rightarrow>
                (let shmid = fst (dc_maps c ! i) in
                 bind_p (write_p (dc_host c) (\<lambda>d. d\<lparr>dh_segs := (dh_segs d)[shmid := (dh_segs d ! shmid)\<lparr>sg_data := pt_addr page\<rparr>]\<rparr>)) (\<lambda>_.
                   ret_p (c\<lparr>dc_maps := (dc_maps c)[i := (shmid, if write_fault then PROT_READ_WRITE else PROT_READ)]\<rparr>)))))"

text \<open>
  The middle of the handler, after the locate call. The page is requested over \<open>clnt\<close>, the connection to
  the local server. Unless \<open>debug\<close>, that connection has been destroyed before, and C gives the call no meaning: the outcome
  \<open>Use_after_free\<close>. The test behind the second \<open>clnt_create\<close> looks at \<open>clnt\<close> as well, so that a null pointer \<open>clnt2\<close> is met
  only by \<open>clnt_perror\<close>.
\<close>

definition segv_request ::
    "bool \<Rightarrow> host set \<Rightarrow> (string \<Rightarrow> host option) \<Rightarrow> (host \<Rightarrow> int \<Rightarrow> bool) \<Rightarrow> (nat \<Rightarrow> nat option) \<Rightarrow> unwritten \<Rightarrow> bool \<Rightarrow> host \<Rightarrow>
      dsm_entry_t \<Rightarrow> host_t \<Rightarrow> dsm_client \<Rightarrow> dsm_client dsm_prog" where
  "segv_request debug busy resolve shm attach junk write_fault clnt entry nameserv c = (\<lambda>s.
     let clnt2 = (case resolve (c_str (ht_ip nameserv)) of None \<Rightarrow> None | Some d \<Rightarrow> if dh_up (s d) then Some d else None);
       req = \<lparr>rq_pageid = dm_page entry, rq_mode = (if write_fault then RW else RO), rq_from = uw_from junk\<rparr> in
     (if \<not> debug then fail_p Use_after_free
      else bind_p (stub_p (psu_dsm_page_request_1 req (clnt_call resolve shm junk busy clnt))) (\<lambda>npage.
        if npage = None \<and> clnt2 = None then fail_p Null_dereference
        else segv_install attach write_fault entry npage c)) s)"

text \<open>
  The result of the locate call is dereferenced without a test; the bytes the stub has written behind its variable
  are not read by the handler. \<open>None\<close> is a lookup that does not end.
\<close>

definition segv_handler ::
    "bool \<Rightarrow> host set \<Rightarrow> (string \<Rightarrow> host option) \<Rightarrow> (host \<Rightarrow> int \<Rightarrow> bool) \<Rightarrow> (nat \<Rightarrow> nat option) \<Rightarrow> unwritten \<Rightarrow> dsm_entry_t \<Rightarrow>
      nat \<Rightarrow> bool \<Rightarrow> dsm_client \<Rightarrow> dsm_client dsm_prog option" where
  "segv_handler debug busy resolve shm attach junk stack_entry si_addr write_fault c =
     map_option (\<lambda>r.
       bind_p (lift_p r) (\<lambda>entry.
         bind_p (read_p (dc_host c) dh_ip) (\<lambda>ip.
           bind_p (connect_p resolve ip) (\<lambda>clnt.
             bind_p (stub_p (psu_dsm_page_locate_1 (dm_page entry) (clnt_call resolve shm junk busy clnt))) (\<lambda>nameserv.
               bind_p (deref nameserv) (\<lambda>(host, spilled).
                 segv_request debug busy resolve shm attach junk write_fault clnt entry host c))))))
       (get_name_from_addr stack_entry si_addr (dl_cells (dc_cdsm c)))"

section \<open>Properties\<close>

text \<open>In a reachable state a request for a page gets no answer, and the server that was asked has ended.\<close>

lemma request_unanswered:
  assumes reach: "dsm_reachable resolve shm s" and "request_ok req" and "dh_up (s d)" and "d \<notin> busy"
  shows "stub_p (psu_dsm_page_request_1 req (clnt_call resolve shm junk busy d)) s = (Inr None, s(d := (s d)\<lparr>dh_up := False\<rparr>))"
proof -
  have svc: "page_request_svc resolve (uw_mode junk) req d s = (Inl Exit_failure, s)"
    using reachable_clean [OF reach, of d] by (simp add: page_request_svc_def prog_defs)
  then have "stub_p (psu_dsm_page_request_1 req (clnt_call resolve shm junk busy d)) s =
      call_p busy d (page_request_svc resolve (uw_mode junk) req) s"
    by (intro request_stub [OF assms(2)]) simp
  with svc assms(3,4) show ?thesis by (simp add: call_p_def)
qed

lemma locate_answered:
  assumes reach: "dsm_reachable resolve shm s" and "pageid_ok p" and "dh_up (s d)" and "d \<notin> busy"
  shows "\<exists>host spilled. stub_p (psu_dsm_page_locate_1 p (clnt_call resolve shm junk busy d)) s = (Inr (Some (host, spilled)), s)"
proof -
  have "page_locate_svc resolve p d s = (Inr \<lparr>ht_ip = strncpy IP_LEN (c_str (dh_ip (s d)))\<rparr>, s)"
    using reachable_clean [OF reach, of d] by (simp add: page_locate_svc_def prog_defs)
  then show ?thesis
    unfolding locate_stub [OF assms(2)] using assms(3,4) by (simp add: call_p_def bind_p_def ret_p_def)
qed

lemma segv_request_fails:
  assumes "dsm_reachable resolve shm s" and "pageid_ok (dm_page entry)" and "length (uw_from junk) = IP_LEN"
    and "dh_up (s d)" and "d \<notin> busy"
  shows "segv_request True busy resolve shm attach junk write_fault d entry nameserv c s =
    (Inl Null_dereference, s(d := (s d)\<lparr>dh_up := False\<rparr>))"
proof -
  have "request_ok \<lparr>rq_pageid = dm_page entry, rq_mode = (if write_fault then RW else RO), rq_from = uw_from junk\<rparr>"
    using assms(2,3) by (simp add: request_ok_def is_c_int_def INT_MAX_def RW_def RO_def)
  from request_unanswered [OF assms(1) this assms(4,5)] show ?thesis
    by (simp add: segv_request_def segv_install_def Let_def bind_p_def deref_def fail_p_def)
qed

text \<open>
  C29. What the fault handler does to a fault on a shared page, in every state the servers can reach, for every
  address and kind of fault, whatever entry its stack happens to hold. Without a local server it exits. If that server does not
  answer in time, the handler dereferences the null pointer it gets for the host. Otherwise the locate call does return a
  host, and what follows depends on the build: compiled with \<^verbatim>\<open>DEBUG\<close>, the request goes to the local server instead of the located
  host, ends that server, and the handler dereferences the null pointer it gets for the page; compiled without,
  it makes a call over the connection it has destroyed. In no case has it copied a page.
\<close>

theorem segv_handler_outcome:
  assumes "dc_cdsm c = \<lparr>dl_cells = [], dl_open = False\<rparr>" and "dsm_reachable resolve shm s"
    and "pageid_ok (dm_page stack_entry)" and "length (uw_from junk) = IP_LEN"
  shows "\<exists>m. segv_handler debug busy resolve shm attach junk stack_entry si_addr write_fault c = Some m \<and>
    m s = (case resolve (c_str (dh_ip (s (dc_host c)))) of
        None \<Rightarrow> (Inl Exit_failure, s)
      | Some d \<Rightarrow>
          (if \<not> dh_up (s d) then (Inl Exit_failure, s)
           else if d \<in> busy then (Inl Null_dereference, s)
           else if debug then (Inl Null_dereference, s(d := (s d)\<lparr>dh_up := False\<rparr>))
           else (Inl Use_after_free, s)))"
proof -
  have "get_name_from_addr stack_entry si_addr [] = Some (Inr stack_entry)"
    by (simp add: get_name_from_addr.simps)
  then obtain m where m: "segv_handler debug busy resolve shm attach junk stack_entry si_addr write_fault c = Some m"
    and def: "m = bind_p (read_p (dc_host c) dh_ip) (\<lambda>ip. bind_p (connect_p resolve ip) (\<lambda>clnt.
      bind_p (stub_p (psu_dsm_page_locate_1 (dm_page stack_entry) (clnt_call resolve shm junk busy clnt))) (\<lambda>nameserv.
        bind_p (deref nameserv) (\<lambda>(host, spilled).
          segv_request debug busy resolve shm attach junk write_fault clnt stack_entry host c))))"
    using assms(1) by (auto simp: segv_handler_def bind_p_def lift_p_def)
  show ?thesis
  proof (cases "resolve (c_str (dh_ip (s (dc_host c))))")
    case None
    then show ?thesis using m by (simp add: def bind_p_def read_p_def connect_p_def)
  next
    case (Some d)
    consider "\<not> dh_up (s d)" | "dh_up (s d)" "d \<in> busy" | "dh_up (s d)" "d \<notin> busy" by blast
    then show ?thesis
    proof cases
      case 1
      then show ?thesis using m Some by (simp add: def bind_p_def read_p_def connect_p_def)
    next
      case 2
      then have "stub_p (psu_dsm_page_locate_1 (dm_page stack_entry) (clnt_call resolve shm junk busy d)) s = (Inr None, s)"
        unfolding locate_stub [OF assms(3)] by (simp add: call_p_def bind_p_def ret_p_def)
      with 2 show ?thesis using m Some by (simp add: def bind_p_def read_p_def connect_p_def deref_def fail_p_def)
    next
      case 3
      obtain host spilled where "stub_p (psu_dsm_page_locate_1 (dm_page stack_entry) (clnt_call resolve shm junk busy d)) s =
          (Inr (Some (host, spilled)), s)" using locate_answered [OF assms(2,3) 3] by blast
      with 3 show ?thesis
        using m Some segv_request_fails [OF assms(2-4) 3, of attach write_fault host c]
        by (cases debug) (simp_all add: def bind_p_def read_p_def connect_p_def deref_def ret_p_def segv_request_def [of False]
            Let_def fail_p_def)
    qed
  qed
qed

definition sample_client :: dsm_client where
  "sample_client = psu_dsm_init \<lparr>dc_host = 0, dc_maps = [], dc_cdsm = \<lparr>dl_cells = [], dl_open = False\<rparr>,
     dc_handler = False\<rparr>"

theorem segv_handler_outcome_witness:
  "\<exists>m. segv_handler True {} dsm_sample_resolve (\<lambda>h k. True) (\<lambda>a. Some 0) sample_junk
      \<lparr>dm_page = sample_pageid, dm_addr = None, dm_where = []\<rparr> 4096 True sample_client = Some m \<and>
    m dsm_sample = (Inl Null_dereference, dsm_sample(0 := (dsm_sample 0)\<lparr>dh_up := False\<rparr>))"
proof -
  have c: "dc_cdsm sample_client = \<lparr>dl_cells = [], dl_open = False\<rparr>" "dc_host sample_client = 0"
    by (simp_all add: sample_client_def psu_dsm_init_def)
  have "pageid_ok (dm_page \<lparr>dm_page = sample_pageid, dm_addr = None, dm_where = []\<rparr>)"
    by (simp add: dsm_sample_ok)
  from segv_handler_outcome [OF c(1) dsm_sample_reachable this sample_junk_from, of True "{}" dsm_sample_resolve
      "\<lambda>h k. True" "\<lambda>a. Some 0" 4096 True]
  show ?thesis by (simp add: c(2) dsm_sample_fields dsm_sample_ips dsm_sample_resolve_def)
qed

text \<open>
  The end of the handler for itself does what it should: given a page and an address where a segment is mapped,
  the segment gets the contents of the page and the mapping the access that had failed.
\<close>

lemma segv_install_copies:
  assumes "dm_addr entry = Some a" "attach a = Some i" "i < length (dc_maps c)" "fst (dc_maps c ! i) < length (dh_segs (t (dc_host c)))"
  shows "\<exists>c' t'. segv_install attach write_fault entry (Some p) c t = (Inr c', t') \<and>
    sg_data (dh_segs (t' (dc_host c)) ! fst (dc_maps c' ! i)) = pt_addr p \<and>
    snd (dc_maps c' ! i) = (if write_fault then PROT_READ_WRITE else PROT_READ)"
  using assms by (simp add: segv_install_def prog_defs Let_def deref_def)

definition malloc_ready :: "(string \<Rightarrow> host option) \<Rightarrow> dsm_sys \<Rightarrow> dsm_client \<Rightarrow> bool" where
  "malloc_ready resolve t c \<longleftrightarrow>
     dc_cdsm c = \<lparr>dl_cells = [], dl_open = False\<rparr> \<and> dh_up (t (dc_host c)) \<and>
     resolve (c_str (dh_ip (t (dc_host c)))) = Some (dc_host c) \<and> others_answer resolve t (dc_host c)"

lemma page_key_strncpy:
  assumes "CHR 0x00 \<notin> set name" and "length name < NAME_LEN"
  shows "page_key \<lparr>pg_name = strncpy NAME_LEN name, pg_size = z\<rparr> = to_key (foldl hash_step 5381 name)"
    and "CHR 0x00 \<in> set (strncpy NAME_LEN name)"
  using assms by (simp_all add: page_key_def c_str_strncpy) (simp add: strncpy_def)

lemma malloc_state:
  assumes np: "no_pages t" and ready: "malloc_ready resolve t c"
    and name: "CHR 0x00 \<notin> set name" "length name < NAME_LEN"
    and key: "key = to_key (foldl hash_step 5381 name)" "key \<noteq> 0" "shm (dc_host c) key"
    and seg: "(i, segs) = with_segment key (dh_segs (t (dc_host c)))"
  shows "psu_dsm_malloc resolve shm junk fake_ip name sz c t =
      (Inr (length (dc_maps c), c\<lparr>dc_maps := dc_maps c @ [(i, PROT_READ_WRITE)]\<rparr>),
       t(dc_host c := (t (dc_host c))\<lparr>dh_segs := segs, dh_maps := dh_maps (t (dc_host c)) @ [(i, PROT_WRITE)]\<rparr>))"
proof -
  let ?h = "dc_host c" and ?page = "\<lparr>pg_name = strncpy NAME_LEN name, pg_size = word_of_int sz\<rparr>"
  have pk: "page_key ?page = key" "CHR 0x00 \<in> set (pg_name ?page)"
    using page_key_strncpy [OF name] key(1) by simp_all
  let ?t = "t(?h := (t ?h)\<lparr>dh_segs := segs, dh_maps := dh_maps (t ?h) @ [(i, PROT_WRITE)]\<rparr>)"
  have creat: "page_creat_svc resolve shm junk ?page ?h t = (Inr 1, ?t)"
    using page_creat_state [OF np, of resolve ?h ?page shm i segs junk] ready pk key(3) seg
    by (simp add: malloc_ready_def)
  have stub: "stub_p (psu_dsm_page_creat_1 ?page (clnt_call resolve shm junk {} ?h)) t = call_p {} ?h (page_creat_svc resolve shm junk ?page) t"
    by (rule creat_stub) (simp add: pageid_ok_def)
  have cdsm: "dc_cdsm c = \<lparr>dl_cells = [], dl_open = False\<rparr>" "c\<lparr>dc_cdsm := \<lparr>dl_cells = [], dl_open = False\<rparr>\<rparr> = c"
    using ready by (cases c, simp add: malloc_ready_def)+
  show ?thesis
    using ready creat stub hash_c_string [OF name(1)] key(1,2) with_segment_find [OF seg key(2)] cdsm
    by (cases c) (simp add: psu_dsm_malloc_def Let_def prog_defs connect_p_def call_p_def malloc_ready_def
        shmget_find_def insert_dsm_def)
qed


lemma sample_ready: "malloc_ready dsm_sample_resolve dsm_sample sample_client"
  using dsm_sample_answers
  by (simp add: malloc_ready_def sample_client_def psu_dsm_init_def dsm_sample_fields dsm_sample_ips
      dsm_sample_resolve_def)


end
