(* ===== verification/Dsm_Test.thy ===== *)
theory Dsm_Test
  imports Dsm_Client
begin

text \<open>
  The test program of the shared memory, \<^verbatim>\<open>psu_dsm_test.c\<close>, run against the servers and the client library:
  what a machine stores in a page is never seen on another machine.
\<close>

section \<open>The program\<close>

text \<open>
  An \<open>int\<close> at the start of a mapped page, in the byte order of the machine. The client has the page mapped
  for reading and writing, as \<^verbatim>\<open>psu_dsm_malloc\<close> leaves it, so that the accesses do not fault.
\<close>

definition store_int :: "dsm_client \<Rightarrow> nat \<Rightarrow> int \<Rightarrow> unit dsm_prog" where
  "store_int c ptr v = write_p (dc_host c) (\<lambda>d. let i = fst (dc_maps c ! ptr) in
     d\<lparr>dh_segs := (dh_segs d)[i := (dh_segs d ! i)\<lparr>sg_data :=
       rev (be_bytes 4 (unat (word_of_int v :: u32))) @ drop 4 (sg_data (dh_segs d ! i))\<rparr>]\<rparr>)"

definition load_int :: "dsm_client \<Rightarrow> nat \<Rightarrow> int dsm_prog" where
  "load_int c ptr = read_p (dc_host c) (\<lambda>d.
     sint (of_nat (be_val (rev (take 4 (sg_data (dh_segs d ! fst (dc_maps c ! ptr)))))) :: u32))"

text \<open>
  \<^verbatim>\<open>main\<close> prints the value it has stored, sleeps and prints it again; \<open>rand\<close> is the value, \<open>sleep\<close> what the rest
  of the world does meanwhile. The result is the list of printed values.
\<close>

definition dsm_test_main ::
    "(string \<Rightarrow> host option) \<Rightarrow> (host \<Rightarrow> int \<Rightarrow> bool) \<Rightarrow> unwritten \<Rightarrow> string \<Rightarrow> int \<Rightarrow> (dsm_sys \<Rightarrow> dsm_sys) \<Rightarrow>
      dsm_client \<Rightarrow> int list dsm_prog" where
  "dsm_test_main resolve shm junk fake_ip rand sleep c =
     bind_p (psu_dsm_malloc resolve shm junk fake_ip ''hello'' 100 (psu_dsm_init c)) (\<lambda>(ptr, c').
       bind_p (store_int c' ptr rand) (\<lambda>_.
         bind_p (load_int c' ptr) (\<lambda>v1.
           bind_p (\<lambda>s. (Inr (), sleep s)) (\<lambda>_.
             bind_p (load_int c' ptr) (\<lambda>v2. ret_p [v1, v2])))))"

text \<open>
  What can happen besides: servers serve calls, and programs on the machines in \<open>D\<close> write into the segments
  of their machine.
\<close>

inductive world_step ::
    "(string \<Rightarrow> host option) \<Rightarrow> (host \<Rightarrow> int \<Rightarrow> bool) \<Rightarrow> host set \<Rightarrow> dsm_sys \<Rightarrow> dsm_sys \<Rightarrow> bool"
  for resolve shm D where
  serves: "dsm_step resolve shm s t \<Longrightarrow> world_step resolve shm D s t"
| stores: "d \<in> D \<Longrightarrow> i < length (dh_segs (s d)) \<Longrightarrow>
     world_step resolve shm D s
       (s(d := (s d)\<lparr>dh_segs := (dh_segs (s d))[i := (dh_segs (s d) ! i)\<lparr>sg_data := bs\<rparr>]\<rparr>))"

section \<open>Segments keep their contents\<close>

definition holds_segment :: "host \<Rightarrow> nat \<Rightarrow> shm_seg \<Rightarrow> dsm_sys \<Rightarrow> bool" where
  "holds_segment h i g s \<longleftrightarrow> no_pages s \<and> i < length (dh_segs (s h)) \<and> dh_segs (s h) ! i = g"

lemma holds_write:
  assumes "\<And>d. clean d \<Longrightarrow> clean (f d)" and "\<And>d. dh_segs (f d) = dh_segs d"
  shows "keeps (holds_segment h i g) (write_p d f)"
  using assms by (auto simp: keeps_def write_p_def holds_segment_def no_pages_def)

text \<open>Asking the other servers for the owner of a page finds nobody and changes nothing.\<close>

lemma find_owner_blind:
  assumes "no_pages s"
  shows "find_owner resolve busy l p srvs s = (Inr None, s) \<or> (\<exists>e. find_owner resolve busy l p srvs s = (Inl e, s))"
proof (induction srvs)
  case (Cons srv srvs)
  have "page_find_svc p d s = (Inr 0, s)" for d
    using assms by (simp add: page_find_svc_def prog_defs no_pages_def clean_def)
  then have "call_find resolve busy srv p s = (Inr 0, s) \<or> (\<exists>e. call_find resolve busy srv p s = (Inl e, s))"
    by (auto simp: call_find_def connect_p_def call_p_def deref_def prog_defs split: option.splits)
  with Cons show ?case by (auto simp: bind_p_def)
qed (simp add: ret_p_def)

lemma holds_map_page: "keeps (holds_segment h i g) (map_page shm p d)"
proof -
  have "keeps (holds_segment h i g) (shmget_creat shm d k)" for k
    by (auto simp: keeps_def shmget_creat_def bind_p_def read_p_def write_p_def ret_p_def fail_p_def holds_segment_def
        no_pages_def clean_def nth_append split: option.splits)
  then show ?thesis
    unfolding map_page_def shmat_def by (intro keeps_bind keeps_pure holds_write) (simp_all add: clean_def)
qed

lemma holds_creat_new: "keeps (holds_segment h i g) (creat_new shm p d)"
proof -
  have "keeps (holds_segment h i g) (note_page p w d)" for w
    by (auto simp: keeps_def note_page_def bind_p_def read_p_def lift_p_def write_p_def holds_segment_def no_pages_def
        clean_def insert_dsm_def Let_def split: prod.splits sum.splits)
  moreover have "keeps (holds_segment h i g) (mprotect d a q)" for a q
    unfolding mprotect_def by (intro holds_write) (simp_all add: clean_def)
  ultimately show ?thesis
    unfolding creat_new_def Let_def
    by (intro keeps_bind keeps_if keeps_pure holds_write holds_map_page) (simp_all add: clean_def insert_dir_def)
qed

lemma holds_serve:
  assumes "holds_segment h i g s"
  shows "holds_segment h i g (snd (serve_call resolve shm junk c d s))"
proof -
  have s: "dh_dir (s e) = []" "dh_dsm (s e) = \<lparr>dl_cells = [], dl_open = False\<rparr>" for e
    using assms by (simp_all add: holds_segment_def no_pages_def clean_def)
  show ?thesis
  proof (cases c)
    case (Page_creat p)
    let ?find = "find_owner resolve {d} (dh_ip (s d)) p (take (dh_nserver (s d)) (dh_server (s d)))"
    have "no_pages s" using assms by (simp add: holds_segment_def)
    from find_owner_blind [OF this] have "?find s = (Inr None, s) \<or> (\<exists>e. ?find s = (Inl e, s))" .
    then have "snd (page_creat_svc resolve shm junk p d s) \<in> {s, snd (creat_new shm p d s)}"
      by (auto simp: page_creat_svc_def prog_defs s)
    moreover have "holds_segment h i g (snd (creat_new shm p d s))"
      using holds_creat_new assms unfolding keeps_def by blast
    ultimately show ?thesis
      using assms Page_creat by (auto simp: ignore_p_def bind_p_def ret_p_def split: prod.splits sum.splits)
  qed (use assms s in \<open>simp_all add: ignore_p_def page_find_svc_def page_locate_svc_def page_update_svc_def
      page_request_svc_def page_fetch_svc_def page_ack_svc_def dsm_address_def search_dsm_def prog_defs\<close>)
qed

lemma holds_world:
  assumes "holds_segment h i g s" and "h \<notin> D" and "world_step resolve shm D s t"
  shows "holds_segment h i g t"
  using assms(3)
proof cases
  case serves
  from serves show ?thesis
  proof cases
    case (served d junk c)
    then show ?thesis using holds_serve [OF assms(1), of resolve shm junk c d] by simp
  next
    case (ended d junk c e u)
    then have "holds_segment h i g u" using holds_serve [OF assms(1), of resolve shm junk c d] by simp
    then show ?thesis using ended by (auto simp: holds_segment_def no_pages_def clean_def)
  qed
next
  case (stores d j bs)
  then show ?thesis using assms(1,2) by (auto simp: holds_segment_def no_pages_def clean_def)
qed

interpretation segments: invariant_system "world_step resolve shm (- {h})" "holds_segment h i g" for resolve shm h i g
  by unfold_locales (auto intro: holds_world)

interpretation world: invariant_system "world_step resolve shm D" no_pages for resolve shm D
proof
  fix s t
  assume s: "no_pages s" and "world_step resolve shm D s t"
  from this(2) show "no_pages t"
  proof cases
    case serves
    with s show ?thesis by (blast intro: dsm.inv_step)
  qed (use s in \<open>simp add: no_pages_def clean_def\<close>)
qed

lemma hello_key: "to_key (foldl hash_step 5381 ''hello'') = 261238937"
  by (simp add: hash_step_33 to_key_def c_int_def)

lemma int_bytes:
  assumes "is_c_int v"
  shows "sint (of_nat (be_val (rev (take 4 (rev (be_bytes 4 (unat (word_of_int v :: u32))) @ bs)))) :: u32) = v"
proof -
  let ?w = "word_of_int v :: u32"
  have "unat ?w < 256 ^ 4" using unsigned_less [of ?w, where ?'a = nat] by simp
  then have "be_val (be_bytes 4 (unat ?w)) = unat ?w" by (simp add: be_val_be_bytes)
  then show ?thesis using sint_word_of_int [OF assms] by simp
qed

text \<open>
  C28. The test program of the shared memory sees no memory but its own machine's. On a machine whose server
  runs and whose kernel gives it the segment, it prints the value it has stored twice: whatever servers have
  been called for before, and whatever the servers do and the programs on all other machines store while
  it sleeps, also in pages of the same name, the second value is never theirs.
\<close>

theorem dsm_test_sees_own_value:
  assumes start: "dsm_start s" "(world_step resolve shm UNIV)\<^sup>*\<^sup>* s t"
    and ready: "malloc_ready resolve t (psu_dsm_init c)" and seg: "shm (dc_host c) 261238937"
    and v: "is_c_int rand" and sleep: "\<forall>u. (world_step resolve shm (- {dc_host c}))\<^sup>*\<^sup>* u (sleep u)"
  shows "\<exists>t'. dsm_test_main resolve shm junk fake_ip rand sleep c t = (Inr [rand, rand], t')"
proof -
  let ?h = "dc_host c" and ?c = "psu_dsm_init c"
  have h: "dc_host ?c = ?h" by (simp add: psu_dsm_init_def)
  have np: "no_pages t" using world.inv_run [OF start(2)] start_no_pages [OF start(1)] by blast
  obtain i segs where ws: "(i, segs) = with_segment 261238937 (dh_segs (t ?h))" by (metis surj_pair)
  let ?c' = "?c\<lparr>dc_maps := dc_maps ?c @ [(i, PROT_READ_WRITE)]\<rparr>" and ?p = "length (dc_maps ?c)"
  let ?t = "t(?h := (t ?h)\<lparr>dh_segs := segs, dh_maps := dh_maps (t ?h) @ [(i, PROT_WRITE)]\<rparr>)"
  have m: "psu_dsm_malloc resolve shm junk fake_ip ''hello'' 100 ?c t = (Inr (?p, ?c'), ?t)"
    using malloc_state [OF np ready _ _ hello_key [symmetric], of shm i segs] seg ws by (simp add: h NAME_LEN_def)
  have c': "dc_host ?c' = ?h" "dc_maps ?c' ! ?p = (i, PROT_READ_WRITE)" by (simp_all add: h)
  define g where "g = (segs ! i)\<lparr>sg_data := rev (be_bytes 4 (unat (word_of_int rand :: u32))) @ drop 4 (sg_data (segs ! i))\<rparr>"
  define u where "u = ?t(?h := (?t ?h)\<lparr>dh_segs := segs[i := g]\<rparr>)"
  have st: "store_int ?c' ?p rand ?t = (Inr (), u)"
    unfolding store_int_def c'(1) by (simp add: c'(2) write_p_def u_def g_def)
  have "i < length segs" using with_segment_key [OF ws] by simp
  then have hu: "holds_segment ?h i g u" using np by (auto simp: holds_segment_def u_def no_pages_def clean_def)
  then have hs: "holds_segment ?h i g (sleep u)" using segments.inv_run sleep by blast
  have ld: "load_int ?c' ?p w = (Inr rand, w)" if "holds_segment ?h i g w" for w
    using that int_bytes [OF v] unfolding load_int_def c'(1)
    by (simp add: c'(2) read_p_def holds_segment_def g_def)
  have "dsm_test_main resolve shm junk fake_ip rand sleep c t = (Inr [rand, rand], sleep u)"
    using m st ld [OF hu] ld [OF hs] by (simp add: dsm_test_main_def bind_p_def ret_p_def)
  then show ?thesis by blast
qed

text \<open>While machine 0 sleeps, a program on machine 1 stores into its own copy of the page, if it has one.\<close>

definition sample_sleep :: "dsm_sys \<Rightarrow> dsm_sys" where
  "sample_sleep s = (if dh_segs (s 1) = [] then s
     else s(1 := (s 1)\<lparr>dh_segs := (dh_segs (s 1))[0 := (dh_segs (s 1) ! 0)\<lparr>sg_data := replicate PAGE_SIZE 7\<rparr>]\<rparr>))"

theorem dsm_test_sees_own_value_witness:
  "\<exists>t. dsm_test_main dsm_sample_resolve (\<lambda>h k. True) sample_junk [] 42 sample_sleep sample_client dsm_sample =
     (Inr [42, 42], t)"
proof -
  have "dsm_start dsm_sample" by (auto simp: dsm_start_def dsm_sample_def)
  moreover have "(world_step dsm_sample_resolve (\<lambda>h k. True) (- {dc_host sample_client}))\<^sup>*\<^sup>* u (sample_sleep u)" for u
    by (auto simp: sample_sleep_def sample_client_def psu_dsm_init_def intro!: r_into_rtranclp world_step.stores)
  moreover have "malloc_ready dsm_sample_resolve dsm_sample (psu_dsm_init sample_client)"
    using sample_ready by (simp add: sample_client_def psu_dsm_init_def)
  ultimately show ?thesis
    by (intro dsm_test_sees_own_value [of dsm_sample]) (simp_all add: is_c_int_def INT_MAX_def)
qed

end
