(* ===== verification/Dsm_Heap.thy ===== *)
theory Dsm_Heap
  imports Dsm_Util
begin

text \<open>
  The lists of \<^verbatim>\<open>util.c\<close> as the program builds them: cells in memory that point to each other. The functions
  of \<open>Dsm_Util\<close> work on the list of entries a chain of cells stands for; here they are shown to be what
  the pointer programs do. A function gets a copy of its caller's pointer to the first cell: what it
  assigns to the copy, the caller does not see.
\<close>

section \<open>Cells\<close>

datatype ptr = NULL | Ptr nat

text \<open>The field \<open>next\<close> of a cell that has never been written is \<open>None\<close>.\<close>

record 'e cell =
  cell_entry :: 'e
  cell_next :: "ptr option"

type_synonym 'e heap = "nat \<rightharpoonup> 'e cell"
type_synonym dir_t = "dir_entry_t cell"
type_synonym dsm_t = "dsm_entry_t cell"

section \<open>Loops\<close>

text \<open>\<open>while (p != NULL) { if (P(p->entry)) return p; p = p->next; } return NULL;\<close>\<close>

partial_function (option) search_loop :: "('e \<Rightarrow> bool) \<Rightarrow> 'e heap \<Rightarrow> ptr \<Rightarrow> ptr outcome option" where
  "search_loop P m p =
     (case p of
        NULL \<Rightarrow> Some (Inr NULL)
      | Ptr a \<Rightarrow>
          (case m a of
             None \<Rightarrow> Some (Inl Use_after_free)
           | Some c \<Rightarrow>
               (if P (cell_entry c) then Some (Inr p)
                else case cell_next c of
                    None \<Rightarrow> Some (Inl Uninitialised_read)
                  | Some q \<Rightarrow> search_loop P m q)))"

text \<open>\<open>while (p != NULL) { pp = p; p = p->next; }\<close>, and \<open>pp\<close> afterwards.\<close>

partial_function (option) last_loop :: "'e heap \<Rightarrow> ptr \<Rightarrow> ptr \<Rightarrow> ptr outcome option" where
  "last_loop m p pp =
     (case p of
        NULL \<Rightarrow> Some (Inr pp)
      | Ptr a \<Rightarrow>
          (case m a of
             None \<Rightarrow> Some (Inl Use_after_free)
           | Some c \<Rightarrow>
               (case cell_next c of
                  None \<Rightarrow> Some (Inl Uninitialised_read)
                | Some q \<Rightarrow> last_loop m q p)))"

text \<open>
  \<open>malloc\<close> is the address of the new cell, or its failure. With an empty list only the local copy of the
  list pointer is assigned.
\<close>

definition insert_cell :: "'e \<Rightarrow> ptr option \<Rightarrow> nat option \<Rightarrow> 'e heap \<Rightarrow> ptr \<Rightarrow> 'e heap outcome option" where
  "insert_cell e nx malloc m p =
     (case last_loop m p p of
        None \<Rightarrow> None
      | Some (Inl f) \<Rightarrow> Some (Inl f)
      | Some (Inr pp) \<Rightarrow> Some
          (case malloc of
             None \<Rightarrow> Inl Exit_failure
           | Some new \<Rightarrow>
               (let m' = m(new \<mapsto> \<lparr>cell_entry = e, cell_next = nx\<rparr>) in
                case pp of
                  NULL \<Rightarrow> Inr m'
                | Ptr a \<Rightarrow>
                    (case m' a of
                       None \<Rightarrow> Inl Use_after_free
                     | Some c \<Rightarrow> Inr (m'(a \<mapsto> c\<lparr>cell_next := Some (Ptr new)\<rparr>))))))"

section \<open>The four functions\<close>

definition search_dir_c :: "pageid_t \<Rightarrow> dir_entry_t heap \<Rightarrow> ptr \<Rightarrow> ptr outcome option" where
  "search_dir_c page m dir = search_loop (\<lambda>e. same_page (de_page e) page) m dir"

definition search_dsm_c :: "pageid_t \<Rightarrow> dsm_entry_t heap \<Rightarrow> ptr \<Rightarrow> ptr outcome option" where
  "search_dsm_c page m dsm = search_loop (\<lambda>e. same_page (dm_page e) page) m dsm"

definition insert_dir_c :: "dir_entry_t \<Rightarrow> nat option \<Rightarrow> dir_entry_t heap \<Rightarrow> ptr \<Rightarrow> dir_entry_t heap outcome option" where
  "insert_dir_c entry malloc m dir =
     insert_cell \<lparr>de_page = copy_page (de_page entry), de_pbits = de_pbits entry, de_mode = de_mode entry\<rparr>
       (Some NULL) malloc m dir"

text \<open>Neither \<open>new->next\<close> nor \<open>new->entry.addr\<close> is written.\<close>

definition insert_dsm_c :: "pageid_t \<times> string \<Rightarrow> nat option \<Rightarrow> dsm_entry_t heap \<Rightarrow> ptr \<Rightarrow> dsm_entry_t heap outcome option" where
  "insert_dsm_c arg malloc m dsm =
     insert_cell \<lparr>dm_page = copy_page (fst arg), dm_addr = None, dm_where = strncpy IP_LEN (c_str (snd arg))\<rparr>
       None malloc m dsm"

section \<open>Chains of cells\<close>

text \<open>
  The cells at \<open>as\<close> form a chain from the pointer \<open>p\<close> on; the last \<open>next\<close> field is a null pointer, or, when the chain
  is open, has not been written.
\<close>

fun linked :: "'e heap \<Rightarrow> ptr option \<Rightarrow> nat list \<Rightarrow> bool \<Rightarrow> bool" where
  "linked m p [] opn \<longleftrightarrow> p = (if opn then None else Some NULL)"
| "linked m p (a # as) opn \<longleftrightarrow> p = Some (Ptr a) \<and> (\<exists>c. m a = Some c \<and> linked m (cell_next c) as opn)"

definition entries :: "'e heap \<Rightarrow> nat list \<Rightarrow> 'e list" where
  "entries m as = map (\<lambda>a. cell_entry (the (m a))) as"

lemma linked_append:
  "linked m p (as @ b # bs) opn \<Longrightarrow> linked m (Some (Ptr b)) (b # bs) opn"
  by (induction as arbitrary: p) auto

lemma linked_unique: "linked m p as opn \<Longrightarrow> linked m p bs opn' \<Longrightarrow> as = bs"
proof (induction as arbitrary: p bs)
  case Nil
  then show ?case by (cases bs) (auto split: if_splits)
next
  case (Cons a as)
  then show ?case by (cases bs) (auto split: if_splits)
qed

lemma linked_distinct: "linked m p as opn \<Longrightarrow> distinct as"
proof (induction as arbitrary: p)
  case (Cons a as)
  then obtain c where c: "m a = Some c" "linked m (cell_next c) as opn" by auto
  have "a \<notin> set as"
  proof
    assume "a \<in> set as"
    then obtain us vs where "as = us @ a # vs" by (auto simp: in_set_conv_decomp)
    with c(2) have "linked m (Some (Ptr a)) (a # vs) opn" using linked_append by blast
    then have "linked m (cell_next c) vs opn" using c(1) by simp
    with c(2) linked_unique have "as = vs" by blast
    with \<open>as = us @ a # vs\<close> show False by simp
  qed
  with Cons c(2) show ?case by auto
qed simp

lemma linked_dom: "linked m p as opn \<Longrightarrow> a \<in> set as \<Longrightarrow> m a \<noteq> None"
  by (induction as arbitrary: p) auto

lemma linked_cong: "(\<And>a. a \<in> set as \<Longrightarrow> m' a = m a) \<Longrightarrow> linked m' p as opn = linked m p as opn"
  by (induction as arbitrary: p) auto

lemma entries_cong: "(\<And>a. a \<in> set as \<Longrightarrow> m' a = m a) \<Longrightarrow> entries m' as = entries m as"
  by (auto simp: entries_def)

text \<open>A cell hung behind the last one.\<close>

lemma linked_snoc:
  assumes "linked m p (as @ [b]) False" and "m new = None" and nx: "nx = (if opn then None else Some NULL)"
  shows "linked (m(new \<mapsto> \<lparr>cell_entry = e, cell_next = nx\<rparr>, b \<mapsto> (the (m b))\<lparr>cell_next := Some (Ptr new)\<rparr>)) p
    (as @ [b, new]) opn"
proof -
  have "b \<noteq> new" "new \<notin> set as" using linked_dom [OF assms(1), of new] assms(2) by auto
  moreover have "b \<notin> set as" using linked_distinct [OF assms(1)] by simp
  ultimately show ?thesis
    using assms(1) nx by (induction as arbitrary: p) auto
qed

section \<open>What the loops do on a chain\<close>

lemma search_loop_linked:
  assumes "linked m (Some p) as opn"
  shows "search_loop P m p =
    (case first_index P (entries m as) of
       Some i \<Rightarrow> Some (Inr (Ptr (as ! i)))
     | None \<Rightarrow> Some (if opn then Inl Uninitialised_read else Inr NULL))"
  using assms
proof (induction as arbitrary: p)
  case Nil
  then show ?case by (subst search_loop.simps) (auto simp: entries_def split: if_splits)
next
  case (Cons a as)
  then obtain c where c: "m a = Some c" "linked m (cell_next c) as opn" "p = Ptr a" by auto
  show ?case
  proof (cases "cell_next c")
    case None
    then have "as = []" "opn" using c(2) by (cases as; auto split: if_splits)+
    then show ?thesis using c None by (subst search_loop.simps) (simp add: entries_def)
  next
    case (Some q)
    with Cons.IH [of q] c show ?thesis
      by (subst search_loop.simps) (auto simp: entries_def split: option.splits)
  qed
qed

lemma last_loop_linked:
  assumes "linked m (Some p) as opn"
  shows "last_loop m p pp = Some (if opn then Inl Uninitialised_read else Inr (if as = [] then pp else Ptr (last as)))"
  using assms
proof (induction as arbitrary: p pp)
  case Nil
  then show ?case by (subst last_loop.simps) (auto split: if_splits)
next
  case (Cons a as)
  then obtain c where c: "m a = Some c" "linked m (cell_next c) as opn" "p = Ptr a" by auto
  show ?case
  proof (cases "cell_next c")
    case None
    then have "opn" using c(2) by (cases as; auto split: if_splits)+
    then show ?thesis using c None by (subst last_loop.simps) simp
  next
    case (Some q)
    with Cons.IH [of q "Ptr a"] c show ?thesis by (subst last_loop.simps) auto
  qed
qed

section \<open>A list of pages behind a pointer\<close>

text \<open>
  Directory and page list are handled alike, but for the page in an entry (\<open>page_of\<close>), the entry that is
  stored (\<open>stored\<close>) and whether an insertion writes the last \<open>next\<close> field (\<open>opn\<close>).
\<close>

locale page_list =
  fixes search :: "pageid_t \<Rightarrow> 'e heap \<Rightarrow> ptr \<Rightarrow> ptr outcome option"
    and insert_c :: "'a \<Rightarrow> nat option \<Rightarrow> 'e heap \<Rightarrow> ptr \<Rightarrow> 'e heap outcome option"
    and page_of :: "'e \<Rightarrow> pageid_t"
    and stored :: "'a \<Rightarrow> 'e"
    and opn :: bool
  assumes search: "search page m p = search_loop (\<lambda>e. same_page (page_of e) page) m p"
    and insert_c: "insert_c x malloc m p = insert_cell (stored x) (if opn then None else Some NULL) malloc m p"
begin

lemma search_linked:
  "linked m (Some p) as o' \<Longrightarrow> search page m p =
    (case first_index (\<lambda>e. same_page (page_of e) page) (entries m as) of
       Some i \<Rightarrow> Some (Inr (Ptr (as ! i)))
     | None \<Rightarrow> Some (if o' then Inl Uninitialised_read else Inr NULL))"
  by (simp add: search search_loop_linked)

lemma insert_open: "linked m (Some p) as True \<Longrightarrow> insert_c x malloc m p = Some (Inl Uninitialised_read)"
  by (simp add: insert_c insert_cell_def last_loop_linked)

lemma insert_no_memory: "linked m (Some p) as False \<Longrightarrow> insert_c x None m p = Some (Inl Exit_failure)"
  by (simp add: insert_c insert_cell_def last_loop_linked)

text \<open>The first cell is lost: the caller's pointer stays null.\<close>

lemma insert_empty:
  "insert_c x (Some new) m NULL =
     Some (Inr (m(new \<mapsto> \<lparr>cell_entry = stored x, cell_next = (if opn then None else Some NULL)\<rparr>)))"
  by (simp add: insert_c insert_cell_def last_loop.simps Let_def)

lemma insert_nonempty:
  assumes l: "linked m (Some p) as False" and "as \<noteq> []" and new: "m new = None"
  shows "\<exists>m'. insert_c x (Some new) m p = Some (Inr m') \<and> linked m' (Some p) (as @ [new]) opn \<and>
    entries m' (as @ [new]) = entries m as @ [stored x] \<and> (\<forall>a. a \<notin> set (as @ [new]) \<longrightarrow> m' a = m a)"
proof -
  obtain bs b where as: "as = bs @ [b]" using assms(2) by (metis append_butlast_last_id)
  let ?new = "\<lparr>cell_entry = stored x, cell_next = (if opn then None else Some NULL)\<rparr>"
  let ?m = "m(new \<mapsto> ?new, b \<mapsto> (the (m b))\<lparr>cell_next := Some (Ptr new)\<rparr>)"
  have b: "m b \<noteq> None" "b \<noteq> new" "new \<notin> set bs" using linked_dom [OF l, of b] linked_dom [OF l, of new] new as by auto
  have d: "b \<notin> set bs" using linked_distinct [OF l] as by simp
  have "insert_c x (Some new) m p = Some (Inr ?m)"
    using b(1,2) as by (auto simp: insert_c insert_cell_def last_loop_linked [OF l] Let_def)
  moreover have "linked ?m (Some p) (as @ [new]) opn" using linked_snoc [of m "Some p" bs b new] l new as by simp
  moreover have "entries ?m (as @ [new]) = entries m as @ [stored x]" using b d as by (auto simp: entries_def)
  ultimately show ?thesis using as by (intro exI [of _ ?m]) auto
qed

end

interpretation dir: page_list search_dir_c insert_dir_c de_page
  "\<lambda>entry. \<lparr>de_page = copy_page (de_page entry), de_pbits = de_pbits entry, de_mode = de_mode entry\<rparr>" False
  by unfold_locales (simp_all add: search_dir_c_def insert_dir_c_def)

interpretation dsm_pages: page_list search_dsm_c insert_dsm_c dm_page
  "\<lambda>arg. \<lparr>dm_page = copy_page (fst arg), dm_addr = None, dm_where = strncpy IP_LEN (c_str (snd arg))\<rparr>" True
  by unfold_locales (simp_all add: search_dsm_c_def insert_dsm_c_def)

section \<open>Refinement of the list functions\<close>

text \<open>A directory in memory, and a page list, which may be open at its end.\<close>

definition dir_at :: "dir_entry_t heap \<Rightarrow> ptr \<Rightarrow> dir_entry_t list \<Rightarrow> nat list \<Rightarrow> bool" where
  "dir_at m p dir as \<longleftrightarrow> linked m (Some p) as False \<and> entries m as = dir"

definition dsm_at :: "dsm_entry_t heap \<Rightarrow> ptr \<Rightarrow> dsm_list \<Rightarrow> nat list \<Rightarrow> bool" where
  "dsm_at m p l as \<longleftrightarrow> linked m (Some p) as (dl_open l) \<and> entries m as = dl_cells l"

text \<open>
  C33. The directory functions on memory implement those on lists. On a chain of cells that stands for a
  directory both loops end; the search returns a pointer to the cell of the first entry with the name,
  or a null pointer; the insertion leaves a chain that stands for the list with the new entry, or,
  from an empty directory, for the empty list, and changes no cell outside the chain and the new cell.
\<close>

theorem directory_refines:
  assumes dir: "dir_at m p dir as" and new: "m new = None"
  shows "search_dir_c page m p = Some (Inr (case search_dir page dir of None \<Rightarrow> NULL | Some i \<Rightarrow> Ptr (as ! i))) \<and>
    insert_dir_c entry None m p = Some (Inl Exit_failure) \<and>
    (\<exists>m' as'. insert_dir_c entry (Some new) m p = Some (Inr m') \<and> dir_at m' p (insert_dir entry dir) as' \<and>
       (\<forall>a. a \<notin> insert new (set as) \<longrightarrow> m' a = m a))"
proof -
  have l: "linked m (Some p) as False" and e: "entries m as = dir" using dir by (simp_all add: dir_at_def)
  have "\<exists>m' as'. insert_dir_c entry (Some new) m p = Some (Inr m') \<and> dir_at m' p (insert_dir entry dir) as' \<and>
       (\<forall>a. a \<notin> insert new (set as) \<longrightarrow> m' a = m a)"
  proof (cases "as = []")
    case True
    then have "p = NULL" "dir = []" using l e by (simp_all add: entries_def)
    with dir.insert_empty show ?thesis by (auto simp: dir_at_def insert_dir_def entries_def)
  next
    case False
    then have "dir \<noteq> []" using e by (auto simp: entries_def)
    with dir.insert_nonempty [OF l False new, of entry] e show ?thesis
      by (auto simp: dir_at_def insert_dir_def Let_def)
  qed
  with dir.search_linked [OF l, of page] dir.insert_no_memory [OF l, of entry] e show ?thesis
    by (auto simp: search_dir_def split: option.splits)
qed

text \<open>
  C34. The page list on memory behaves as the one on lists, faults included: a list into which a page has been
  inserted ends in a field that nobody has written, and a search that reaches it, or a second
  insertion, reads this field.
\<close>

theorem page_list_refines:
  assumes l: "dsm_at m p l as" and new: "m new = None"
  shows "search_dsm_c page m p = Some (case search_dsm page l of
      Inl f \<Rightarrow> Inl f | Inr None \<Rightarrow> Inr NULL | Inr (Some i) \<Rightarrow> Inr (Ptr (as ! i))) \<and>
    (case insert_dsm page whr l of
       Inl f \<Rightarrow> insert_dsm_c (page, whr) (Some new) m p = Some (Inl f)
     | Inr l' \<Rightarrow> (\<exists>m' as'. insert_dsm_c (page, whr) (Some new) m p = Some (Inr m') \<and> dsm_at m' p l' as' \<and>
         (\<forall>a. a \<notin> insert new (set as) \<longrightarrow> m' a = m a)))"
proof -
  have k: "linked m (Some p) as (dl_open l)" and e: "entries m as = dl_cells l" using l by (simp_all add: dsm_at_def)
  have search: "search_dsm_c page m p = Some (case search_dsm page l of
      Inl f \<Rightarrow> Inl f | Inr None \<Rightarrow> Inr NULL | Inr (Some i) \<Rightarrow> Inr (Ptr (as ! i)))"
    using dsm_pages.search_linked [OF k, of page] e by (auto simp: search_dsm_def split: option.splits)
  consider "as = []" | "as \<noteq> []" "dl_open l" | "as \<noteq> []" "\<not> dl_open l" by blast
  then show ?thesis
  proof cases
    case 1
    then have "p = NULL" "\<not> dl_open l" "dl_cells l = []" using k e by (auto simp: entries_def split: if_splits)
    with dsm_pages.insert_empty [of "(page, whr)" new m] search show ?thesis
      by (auto simp: insert_dsm_def dsm_at_def entries_def Let_def)
  next
    case 2
    then have "dl_cells l \<noteq> []" using e by (auto simp: entries_def)
    with 2 dsm_pages.insert_open [of m p as "(page, whr)" "Some new"] k search show ?thesis
      by (simp add: insert_dsm_def Let_def)
  next
    case 3
    then have "dl_cells l \<noteq> []" using e by (auto simp: entries_def)
    moreover have "linked m (Some p) as False" using k 3(2) by simp
    ultimately show ?thesis
      using dsm_pages.insert_nonempty [of m p as new "(page, whr)"] 3 new e search
      by (auto simp: insert_dsm_def dsm_at_def Let_def)
  qed
qed

text \<open>Memory with a directory of two entries in the cells 4 and 9.\<close>

definition sample_dir_entry :: "string \<Rightarrow> dir_entry_t" where
  "sample_dir_entry name = \<lparr>de_page = \<lparr>pg_name = strncpy NAME_LEN name, pg_size = 100\<rparr>, de_pbits = replicate MAX_SERV NA,
     de_mode = RW\<rparr>"

definition sample_heap :: "dir_entry_t heap" where
  "sample_heap = [4 \<mapsto> \<lparr>cell_entry = sample_dir_entry ''hello'', cell_next = Some (Ptr 9)\<rparr>,
     9 \<mapsto> \<lparr>cell_entry = sample_dir_entry ''world'', cell_next = Some NULL\<rparr>]"

theorem directory_refines_witness:
  "search_dir_c \<lparr>pg_name = strncpy NAME_LEN ''world'', pg_size = 0\<rparr> sample_heap (Ptr 4) = Some (Inr (Ptr 9)) \<and>
   (\<exists>m' as'. insert_dir_c (sample_dir_entry ''third'') (Some 5) sample_heap (Ptr 4) = Some (Inr m') \<and>
     dir_at m' (Ptr 4) (insert_dir (sample_dir_entry ''third'') (map sample_dir_entry [''hello'', ''world''])) as')"
proof -
  have d: "dir_at sample_heap (Ptr 4) (map sample_dir_entry [''hello'', ''world'']) [4, 9]"
    by (simp add: dir_at_def sample_heap_def entries_def)
  have f: "sample_heap 5 = None" by (simp add: sample_heap_def)
  have "search_dir \<lparr>pg_name = strncpy NAME_LEN ''world'', pg_size = 0\<rparr> (map sample_dir_entry [''hello'', ''world'']) = Some 1"
    by (simp add: search_dir_def sample_dir_entry_def same_page_def strncmp_eq_def NAME_LEN_def c_str_strncpy)
  with directory_refines [OF d f, of "\<lparr>pg_name = strncpy NAME_LEN ''world'', pg_size = 0\<rparr>" "sample_dir_entry ''third''"]
  show ?thesis by auto
qed

theorem page_list_refines_witness:
  "\<exists>m'. insert_dsm_c (sample_pageid, ''130.203.16.20'') (Some 5) (\<lambda>a. if a = 4 then Some \<lparr>cell_entry =
       \<lparr>dm_page = sample_pageid, dm_addr = Some 0, dm_where = []\<rparr>, cell_next = Some NULL\<rparr> else None) (Ptr 4) = Some (Inr m') \<and>
     insert_dsm_c (sample_pageid, ''130.203.16.20'') (Some 6) m' (Ptr 4) = Some (Inl Uninitialised_read)"
proof -
  let ?e = "\<lparr>dm_page = sample_pageid, dm_addr = Some 0, dm_where = []\<rparr>"
  let ?m = "\<lambda>a. if a = (4 :: nat) then Some \<lparr>cell_entry = ?e, cell_next = Some NULL\<rparr> else None"
  have d: "dsm_at ?m (Ptr 4) \<lparr>dl_cells = [?e], dl_open = False\<rparr> [4]" by (simp add: dsm_at_def entries_def)
  obtain m' as' l' where m': "insert_dsm_c (sample_pageid, ''130.203.16.20'') (Some 5) ?m (Ptr 4) = Some (Inr m')"
      "dsm_at m' (Ptr 4) l' as'" "dl_open l'" "dl_cells l' \<noteq> []" "\<forall>a. a \<notin> {5, 4} \<longrightarrow> m' a = ?m a"
    using page_list_refines [OF d, of 5 sample_pageid "''130.203.16.20''"] by (auto simp: insert_dsm_def Let_def)
  then have "m' 6 = None" by simp
  with page_list_refines [OF m'(2), of 6 sample_pageid "''130.203.16.20''"] m' show ?thesis
    by (auto simp: insert_dsm_def Let_def)
qed

text \<open>The insertions a server does in its life, each with the cell that \<open>malloc\<close> returns.\<close>

fun insert_dirs :: "(dir_entry_t \<times> nat) list \<Rightarrow> dir_entry_t heap \<Rightarrow> ptr \<Rightarrow> dir_entry_t heap outcome option" where
  "insert_dirs [] m dir = Some (Inr m)"
| "insert_dirs ((entry, new) # r) m dir =
     (case insert_dir_c entry (Some new) m dir of
        Some (Inr m') \<Rightarrow> insert_dirs r m' dir
      | x \<Rightarrow> x)"

text \<open>
  C35. Every directory entry is leaked. From the null pointer that \<^verbatim>\<open>init\<close> stores, whatever entries are inserted,
  the search finds none of them; every insertion has allocated one more cell, none of the new cells
  points to another, and no older cell has changed: the new cells cannot be reached any more.
\<close>

theorem directory_leaks:
  assumes "distinct (map snd xs)" and "\<forall>(e, new) \<in> set xs. m new = None"
  shows "\<exists>m'. insert_dirs xs m NULL = Some (Inr m') \<and> search_dir_c page m' NULL = Some (Inr NULL) \<and>
    dom m' = dom m \<union> snd ` set xs \<and> (\<forall>a. m a \<noteq> None \<longrightarrow> m' a = m a) \<and>
    (\<forall>(e, new) \<in> set xs. \<exists>c. m' new = Some c \<and> cell_next c = Some NULL)"
  using assms
proof (induction xs arbitrary: m)
  case Nil
  then show ?case by (simp add: search_dir_c_def search_loop.simps)
next
  case (Cons x xs)
  obtain e new where x: "x = (e, new)" by (cases x)
  let ?c = "\<lparr>cell_entry = \<lparr>de_page = copy_page (de_page e), de_pbits = de_pbits e, de_mode = de_mode e\<rparr>, cell_next = Some NULL\<rparr>"
  have step: "insert_dir_c e (Some new) m NULL = Some (Inr (m(new \<mapsto> ?c)))" using dir.insert_empty [of e new m] by simp
  have "\<forall>(e, a) \<in> set xs. a \<noteq> new \<and> m a = None" using Cons.prems x by (auto simp: image_iff)
  then have "\<forall>(e, a) \<in> set xs. (m(new \<mapsto> ?c)) a = None" by auto
  moreover have "distinct (map snd xs)" using Cons.prems(1) by simp
  ultimately obtain m' where m': "insert_dirs xs (m(new \<mapsto> ?c)) NULL = Some (Inr m')"
      "search_dir_c page m' NULL = Some (Inr NULL)" "dom m' = dom (m(new \<mapsto> ?c)) \<union> snd ` set xs"
      "\<forall>a. (m(new \<mapsto> ?c)) a \<noteq> None \<longrightarrow> m' a = (m(new \<mapsto> ?c)) a"
      "\<forall>(e, a) \<in> set xs. \<exists>c. m' a = Some c \<and> cell_next c = Some NULL"
    using Cons.IH [of "m(new \<mapsto> ?c)"] by blast
  have "m' new = Some ?c" using m'(4) by simp
  moreover have "\<forall>a. m a \<noteq> None \<longrightarrow> m' a = m a" using m'(4) Cons.prems(2) x by auto
  moreover have "dom m' = dom m \<union> snd ` set (x # xs)" using m'(3) x by auto
  ultimately show ?case using m'(1,2,5) step x by (intro exI [of _ m']) auto
qed

theorem directory_leaks_witness:
  "\<exists>m'. insert_dirs [(sample_dir_entry ''hello'', 4), (sample_dir_entry ''world'', 9)] Map.empty NULL = Some (Inr m') \<and>
     dom m' = {4, 9} \<and> search_dir_c \<lparr>pg_name = strncpy NAME_LEN ''hello'', pg_size = 0\<rparr> m' NULL = Some (Inr NULL)"
  using directory_leaks [of "[(sample_dir_entry ''hello'', 4), (sample_dir_entry ''world'', 9)]" Map.empty
      "\<lparr>pg_name = strncpy NAME_LEN ''hello'', pg_size = 0\<rparr>"] by auto

end
