(* ===== verification/Dsm_Concurrent.thy ===== *)
theory Dsm_Concurrent
  imports Dsm_Properties
begin

text \<open>
  The servers of the shared memory running at the same time. A server process serves one call after the
  other, and while it asks another server for the owner of a page it serves nobody. \<open>Dsm_Server\<close> runs
  \<^verbatim>\<open>psu_dsm_page_creat_1_svc\<close> in one piece; here its loop over the servers is cut at the calls, so that
  searches of several servers overlap. A call that is not answered within the 25 seconds of the stubs
  gives a null pointer, which the loop dereferences.
\<close>

section \<open>State and events\<close>

text \<open>
  Where a server stands in \<^verbatim>\<open>psu_dsm_page_creat_1_svc\<close>: before the servers that are left, or waiting for the
  answer of a host. Between two calls it has no task.
\<close>

datatype task =
    Searching pageid_t "string list"
  | Asking pageid_t host string "string list"

record dsm_conc =
  cc_hosts :: dsm_sys
  cc_task :: "host \<Rightarrow> task option"

datatype dsm_event = Begin host pageid_t | Go host | Answered host | Unanswered host | Serve host dsm_call

section \<open>Steps\<close>

definition set_task :: "host \<Rightarrow> task option \<Rightarrow> dsm_conc \<Rightarrow> dsm_conc" where
  "set_task h k s = s\<lparr>cc_task := (cc_task s)(h := k)\<rparr>"

definition end_process :: "host \<Rightarrow> dsm_conc \<Rightarrow> dsm_conc" where
  "end_process h s = set_task h None (s\<lparr>cc_hosts := (cc_hosts s)(h := (cc_hosts s h)\<lparr>dh_up := False\<rparr>)\<rparr>)"

definition finish :: "host \<Rightarrow> 'a dsm_prog \<Rightarrow> dsm_conc \<Rightarrow> dsm_conc" where
  "finish h m s =
     (case m (cc_hosts s) of
        (Inl e, t) \<Rightarrow> end_process h (s\<lparr>cc_hosts := t\<rparr>)
      | (Inr v, t) \<Rightarrow> set_task h None (s\<lparr>cc_hosts := t\<rparr>))"

text \<open>A server that can take a call.\<close>

definition free :: "dsm_conc \<Rightarrow> host \<Rightarrow> bool" where
  "free s h \<longleftrightarrow> dh_up (cc_hosts s h) \<and> cc_task s h = None"

text \<open>
  The branches behind a page that has been found, \<open>creat_known\<close> and \<open>creat_remote\<close>, run in one piece; so do all
  procedures but the creation. Connecting succeeds while the process exists, busy or not.
\<close>

fun conc_step ::
    "(string \<Rightarrow> host option) \<Rightarrow> (host \<Rightarrow> int \<Rightarrow> bool) \<Rightarrow> unwritten \<Rightarrow> dsm_event \<Rightarrow> dsm_conc \<Rightarrow> dsm_conc option" where
  "conc_step resolve shm junk (Begin h page) s =
     (if \<not> free s h then None
      else let d = cc_hosts s h in
        if search_dir page (dh_dir d) \<noteq> None then Some (finish h (creat_known resolve shm junk page h) s)
        else Some (set_task h (Some (Searching page (take (dh_nserver d) (dh_server d)))) s))"
| "conc_step resolve shm junk (Go h) s =
     (case cc_task s h of
        Some (Searching page []) \<Rightarrow> Some (finish h (creat_new shm page h) s)
      | Some (Searching page (srv # srvs)) \<Rightarrow>
          (if strncmp_eq IP_LEN srv (dh_ip (cc_hosts s h)) then Some (set_task h (Some (Searching page srvs)) s)
           else case resolve (c_str srv) of
               None \<Rightarrow> Some (end_process h s)
             | Some d \<Rightarrow>
                 (if dh_up (cc_hosts s d) then Some (set_task h (Some (Asking page d srv srvs)) s)
                  else Some (end_process h s)))
      | _ \<Rightarrow> None)"
| "conc_step resolve shm junk (Answered h) s =
     (case cc_task s h of
        Some (Asking page d srv srvs) \<Rightarrow>
          (if \<not> free s d then None
           else case page_find_svc page d (cc_hosts s) of
               (Inl e, t) \<Rightarrow> None
             | (Inr r, t) \<Rightarrow>
                 (if r = 1 then Some (finish h (creat_remote resolve shm junk page srv h) s)
                  else Some (set_task h (Some (Searching page srvs)) s)))
      | _ \<Rightarrow> None)"
| "conc_step resolve shm junk (Unanswered h) s =
     (case cc_task s h of
        Some (Asking page d srv srvs) \<Rightarrow> (if free s d then None else Some (end_process h s))
      | _ \<Rightarrow> None)"
| "conc_step resolve shm junk (Serve h c) s =
     (if \<not> free s h \<or> (\<exists>page. c = Page_creat page) then None
      else Some (finish h (serve_call resolve shm junk c h) s))"

fun conc_run ::
    "(string \<Rightarrow> host option) \<Rightarrow> (host \<Rightarrow> int \<Rightarrow> bool) \<Rightarrow> unwritten \<Rightarrow> dsm_event list \<Rightarrow> dsm_conc \<Rightarrow> dsm_conc option" where
  "conc_run resolve shm junk [] s = Some s"
| "conc_run resolve shm junk (e # es) s =
     (case conc_step resolve shm junk e s of
        None \<Rightarrow> None
      | Some t \<Rightarrow> conc_run resolve shm junk es t)"

fun event_host :: "dsm_event \<Rightarrow> host" where
  "event_host (Begin h page) = h"
| "event_host (Go h) = h"
| "event_host (Answered h) = h"
| "event_host (Unanswered h) = h"
| "event_host (Serve h c) = h"

section \<open>Directories stay empty\<close>

lemma conc_simps [simp]:
  "cc_hosts (set_task h k s) = cc_hosts s" "cc_task (set_task h k s) = (cc_task s)(h := k)"
  "cc_hosts (end_process h s) = (cc_hosts s)(h := (cc_hosts s h)\<lparr>dh_up := False\<rparr>)"
  "cc_task (end_process h s) = (cc_task s)(h := None)"
  by (simp_all add: set_task_def end_process_def)

lemma finish_task [simp]: "cc_task (finish h m s) = (cc_task s)(h := None)"
  by (auto simp: finish_def split: prod.splits sum.splits)

lemma no_pages_down: "no_pages s \<Longrightarrow> no_pages (s(h := (s h)\<lparr>dh_up := False\<rparr>))"
  by (simp add: no_pages_def clean_def)

lemma finish_keeps: "keeps no_pages m \<Longrightarrow> no_pages (cc_hosts s) \<Longrightarrow> no_pages (cc_hosts (finish h m s))"
  unfolding keeps_def finish_def
  by (drule spec [of _ "cc_hosts s"]) (auto simp: no_pages_down split: prod.splits sum.splits)

lemma keeps_creat_branches: "keeps no_pages (creat_known resolve shm junk page h)"
  "keeps no_pages (creat_remote resolve shm junk page srv h)"
  unfolding creat_known_def creat_remote_def by (intro keeps_rules)+

lemma conc_no_pages:
  assumes "no_pages (cc_hosts s)" and "conc_step resolve shm junk e s = Some t"
  shows "no_pages (cc_hosts t)"
  using assms
  by (cases e) (auto simp: Let_def no_pages_down
      intro: finish_keeps [OF keeps_creat_branches(1)] finish_keeps [OF keeps_creat_branches(2)]
        finish_keeps [OF keeps_creat_new] finish_keeps [OF keeps_serve]
      split: if_splits option.splits task.splits list.splits prod.splits sum.splits)

interpretation conc: invariant_system "\<lambda>s t. \<exists>e. conc_step resolve shm junk e s = Some t" "\<lambda>s. no_pages (cc_hosts s)"
  for resolve shm junk
  by unfold_locales (auto intro: conc_no_pages)

lemma conc_run_append:
  "conc_run resolve shm junk (es @ fs) s =
     (case conc_run resolve shm junk es s of None \<Rightarrow> None | Some t \<Rightarrow> conc_run resolve shm junk fs t)"
  by (induction es arbitrary: s) (auto split: option.splits)

lemma conc_run_no_pages:
  "conc_run resolve shm junk es s = Some t \<Longrightarrow> no_pages (cc_hosts s) \<Longrightarrow> no_pages (cc_hosts t)"
  by (induction es arbitrary: s) (auto dest: conc_no_pages split: option.splits)

section \<open>A step changes one machine\<close>

definition only_at :: "host \<Rightarrow> 'a dsm_prog \<Rightarrow> bool" where
  "only_at h m \<longleftrightarrow> (\<forall>s d. d \<noteq> h \<longrightarrow> snd (m s) d = s d)"

lemma only_at_bind: "only_at h m \<Longrightarrow> (\<And>x. only_at h (f x)) \<Longrightarrow> only_at h (bind_p m f)"
  unfolding only_at_def bind_p_def by (auto split: prod.splits sum.splits) (metis snd_conv)+

lemma only_at_basic:
  "only_at h (ret_p x)" "only_at h (fail_p e)" "only_at h (lift_p r)" "only_at h (read_p d f)" "only_at h (write_p h g)"
  by (simp_all add: only_at_def ret_p_def fail_p_def lift_p_def read_p_def write_p_def)

lemma only_at_cases:
  "only_at h m \<Longrightarrow> only_at h n \<Longrightarrow> only_at h (if b then m else n)"
  "only_at h m \<Longrightarrow> (\<And>x. only_at h (f x)) \<Longrightarrow> only_at h (case r of None \<Rightarrow> m | Some x \<Rightarrow> f x)"
  by (auto split: option.splits)

lemma only_at_creat_new: "only_at h (creat_new shm page h)"
  unfolding creat_new_def map_page_def shmget_creat_def shmat_def note_page_def mprotect_def Let_def
  by (intro only_at_bind only_at_basic only_at_cases)

lemma finish_only_at: "only_at h m \<Longrightarrow> d \<noteq> h \<Longrightarrow> cc_hosts (finish h m s) d = cc_hosts s d"
  unfolding only_at_def finish_def by (auto split: prod.splits sum.splits) (metis snd_conv)+

lemma serve_unchanged:
  assumes "no_pages s" and "\<And>page. c \<noteq> Page_creat page"
  shows "snd (serve_call resolve shm junk c h s) = s"
proof -
  have "dh_dir (s e) = []" "dh_dsm (s e) = \<lparr>dl_cells = [], dl_open = False\<rparr>" for e
    using assms(1) by (simp_all add: no_pages_def clean_def)
  then show ?thesis
  proof (cases c)
    case (Page_creat page)
    with assms(2) show ?thesis by blast
  qed (simp_all add: ignore_p_def page_find_svc_def page_locate_svc_def page_update_svc_def
      page_request_svc_def page_fetch_svc_def page_ack_svc_def dsm_address_def search_dsm_def prog_defs)
qed

lemma find_nothing: "no_pages s \<Longrightarrow> page_find_svc page d s = (Inr 0, s)"
  by (simp add: page_find_svc_def prog_defs no_pages_def clean_def)

lemma conc_frame:
  assumes np: "no_pages (cc_hosts s)" and step: "conc_step resolve shm junk e s = Some t" and h: "h \<noteq> event_host e"
  shows "cc_hosts t h = cc_hosts s h \<and> cc_task t h = cc_task s h"
proof -
  have dir: "search_dir page (dh_dir (cc_hosts s d)) = None" for page d
    using np by (simp add: no_pages_def clean_def)
  show ?thesis
  proof (cases e)
    case (Serve d c)
    then have t: "t = finish d (serve_call resolve shm junk c d) s" "\<And>page. c \<noteq> Page_creat page"
      using step by (auto split: if_splits)
    obtain r where "serve_call resolve shm junk c d (cc_hosts s) = (r, cc_hosts s)"
      using serve_unchanged [OF np t(2), of resolve shm junk d] by (metis prod.collapse)
    then show ?thesis using t(1) h Serve by (cases r) (simp_all add: finish_def)
  qed (use step h dir find_nothing [OF np] finish_only_at [OF only_at_creat_new] in
      \<open>auto simp: Let_def split: if_splits option.splits task.splits list.splits\<close>)
qed

section \<open>Servers that wait for each other\<close>

definition asks :: "dsm_conc \<Rightarrow> host \<Rightarrow> host \<Rightarrow> bool" where
  "asks s h d \<longleftrightarrow> dh_up (cc_hosts s h) \<and> (\<exists>page srv srvs. cc_task s h = Some (Asking page d srv srvs))"

text \<open>The server has gone; what its process had mapped and stored is as in \<open>s0\<close>.\<close>

definition gone :: "dsm_conc \<Rightarrow> dsm_conc \<Rightarrow> host \<Rightarrow> bool" where
  "gone s0 s h \<longleftrightarrow> cc_hosts s h = (cc_hosts s0 h)\<lparr>dh_up := False\<rparr> \<and> cc_task s h = None"

definition stuck_at :: "dsm_conc \<Rightarrow> dsm_conc \<Rightarrow> host \<Rightarrow> host \<Rightarrow> bool" where
  "stuck_at s0 s h d \<longleftrightarrow> asks s h d \<and> cc_hosts s h = cc_hosts s0 h \<or> gone s0 s h"

lemma stuck_not_free: "stuck_at s0 s h d \<Longrightarrow> \<not> free s h"
  by (auto simp: stuck_at_def asks_def gone_def free_def)

lemma waiting_step:
  assumes np: "no_pages (cc_hosts s)" and step: "conc_step resolve shm junk e s = Some t"
    and h: "stuck_at s0 s h d" and d: "\<not> free s d"
  shows "stuck_at s0 t h d"
proof (cases "event_host e = h")
  case False
  with conc_frame [OF np step, of h] h show ?thesis by (auto simp: stuck_at_def asks_def gone_def)
next
  case True
  show ?thesis
    using step h d True stuck_not_free [OF h]
    by (cases e) (auto simp: stuck_at_def asks_def gone_def split: if_splits option.splits task.splits)
qed

lemma waiting_run:
  assumes "conc_run resolve shm junk es s = Some t" and "no_pages (cc_hosts s)"
    and "stuck_at s0 s h d" and "stuck_at s0 s d h"
  shows "stuck_at s0 t h d \<and> stuck_at s0 t d h"
  using assms
proof (induction es arbitrary: s)
  case (Cons e es)
  then obtain u where u: "conc_step resolve shm junk e s = Some u" "conc_run resolve shm junk es u = Some t"
    by (auto split: option.splits)
  have "stuck_at s0 u h d" "stuck_at s0 u d h"
    using waiting_step [OF Cons.prems(2) u(1)] stuck_not_free Cons.prems(3,4) by blast+
  with Cons.IH [OF u(2)] conc_no_pages [OF Cons.prems(2) u(1)] show ?case by blast
qed simp

text \<open>
  C31. Two servers that search for a page at the same time bring each other down. As soon as each of them
  waits for the other's answer, no answer ever comes: in every continuation, whatever other machines and
  clients do, both are still waiting or have ended, and neither has mapped the page; waiting for the other
  to answer gets nowhere, and the end of the wait, a null pointer that is dereferenced, is always possible.
\<close>

theorem crossing_searches_end_servers:
  assumes "no_pages (cc_hosts s)" and "asks s h d" and "asks s d h"
    and "conc_run resolve shm junk es s = Some t"
  shows "(asks t h d \<and> cc_hosts t h = cc_hosts s h \<or> gone s t h) \<and> (asks t d h \<and> cc_hosts t d = cc_hosts s d \<or> gone s t d) \<and>
    conc_step resolve shm junk (Answered h) t = None \<and> conc_step resolve shm junk (Answered d) t = None \<and>
    (asks t h d \<longrightarrow> (\<exists>u. conc_step resolve shm junk (Unanswered h) t = Some u \<and> gone s u h))"
proof -
  have "stuck_at s s h d" "stuck_at s s d h" using assms(2,3) by (simp_all add: stuck_at_def)
  from waiting_run [OF assms(4,1) this] have st: "stuck_at s t h d" "stuck_at s t d h" by auto
  have "conc_step resolve shm junk (Answered h) t = None" "conc_step resolve shm junk (Answered d) t = None"
    using st stuck_not_free by (auto simp: stuck_at_def asks_def gone_def)
  moreover have "\<exists>u. conc_step resolve shm junk (Unanswered h) t = Some u \<and> gone s u h" if "asks t h d"
    using that st stuck_not_free [OF st(2)] by (auto simp: stuck_at_def asks_def gone_def)
  ultimately show ?thesis using st by (simp add: stuck_at_def)
qed

text \<open>Both machines of the configuration create a page; each asks the other.\<close>

definition sample_conc :: dsm_conc where
  "sample_conc = \<lparr>cc_hosts = dsm_sample, cc_task = (\<lambda>h. None)\<rparr>"

definition crossing :: "dsm_event list" where
  "crossing = [Begin 0 sample_pageid, Begin 1 sample_pageid, Go 0, Go 0, Go 1]"

lemma crossing_runs:
  "\<exists>s. conc_run dsm_sample_resolve shm junk crossing sample_conc = Some s \<and> cc_hosts s = dsm_sample \<and> asks s 0 1 \<and> asks s 1 0"
proof -
  have "search_dir p (dh_dir (dsm_sample h)) = None" for p h by (simp add: dsm_sample_def dsm_init_def)
  moreover have "strncmp_eq IP_LEN (strncpy IP_LEN ''130.203.16.20'') (strncpy IP_LEN ''130.203.16.20'')"
      "\<not> strncmp_eq IP_LEN (strncpy IP_LEN ''130.203.16.21'') (strncpy IP_LEN ''130.203.16.20'')"
      "\<not> strncmp_eq IP_LEN (strncpy IP_LEN ''130.203.16.20'') (strncpy IP_LEN ''130.203.16.21'')"
    by (simp_all add: strncmp_eq_def dsm_sample_ips) (simp_all add: IP_LEN_def)
  ultimately show ?thesis
    by (simp add: crossing_def sample_conc_def free_def dsm_sample_fields Let_def set_task_def
        dsm_sample_ips dsm_sample_resolve_def asks_def)
qed

lemma no_pages_sample: "no_pages dsm_sample"
  by (rule reachable_no_pages [OF dsm_sample_reachable])

theorem crossing_searches_end_servers_witness:
  "\<exists>t. conc_run dsm_sample_resolve (\<lambda>h k. True) sample_junk (crossing @ [Unanswered 0, Unanswered 1]) sample_conc = Some t \<and>
     \<not> dh_up (cc_hosts t 0) \<and> \<not> dh_up (cc_hosts t 1) \<and> dh_segs (cc_hosts t 0) = []"
proof -
  obtain s where s: "conc_run dsm_sample_resolve (\<lambda>h k. True) sample_junk crossing sample_conc = Some s"
      "cc_hosts s = dsm_sample" "asks s 0 1" "asks s 1 0" using crossing_runs by blast
  have np: "no_pages (cc_hosts s)" using s(2) no_pages_sample by simp
  note ends = crossing_searches_end_servers [where resolve = dsm_sample_resolve and shm = "\<lambda>h k. True" and junk = sample_junk]
  obtain u where u: "conc_step dsm_sample_resolve (\<lambda>h k. True) sample_junk (Unanswered 0) s = Some u" "gone s u 0"
    using ends [OF np s(3,4), of "[]" s] s(3) by auto
  have run: "conc_run dsm_sample_resolve (\<lambda>h k. True) sample_junk [Unanswered 0] s = Some u" using u(1) by simp
  have "asks u 1 0" using u s(4) by (auto simp: asks_def split: if_splits option.splits task.splits)
  then obtain t where t: "conc_step dsm_sample_resolve (\<lambda>h k. True) sample_junk (Unanswered 1) u = Some t" "gone s t 1"
    using ends [OF np s(4,3), of "[Unanswered 0]" u] run by auto
  have "conc_run dsm_sample_resolve (\<lambda>h k. True) sample_junk [Unanswered 0, Unanswered 1] s = Some t"
    using u(1) t(1) by simp
  with ends [OF np s(3,4), of "[Unanswered 0, Unanswered 1]" t] t(2) u(2) s(1,2) t(1) show ?thesis
    by (intro exI [of _ t]) (auto simp: conc_run_append gone_def asks_def dsm_sample_fields
        split: if_splits option.splits task.splits)
qed

section \<open>A search that is not disturbed\<close>

lemma finish_set_task [simp]: "finish h m (set_task h k s) = finish h m s"
  by (auto simp: finish_def set_task_def end_process_def split: prod.splits sum.splits)

lemma set_task_twice [simp]: "set_task h k (set_task h k' s) = set_task h k s"
  by (simp add: set_task_def)

lemma finish_failed: "m (cc_hosts s) = (Inl e, cc_hosts s) \<Longrightarrow> finish h m s = end_process h (set_task h k s)"
  by (simp add: finish_def end_process_def set_task_def)

lemma conc_one:
  assumes "conc_step resolve shm junk e s = Some t" and "event_host e = h"
    and "\<exists>es. (\<forall>e \<in> set es. event_host e = h) \<and> conc_run resolve shm junk es t = Some u"
  shows "\<exists>es. (\<forall>e \<in> set es. event_host e = h) \<and> conc_run resolve shm junk es s = Some u"
proof -
  from assms(3) obtain es where "\<forall>e \<in> set es. event_host e = h" "conc_run resolve shm junk es t = Some u" by blast
  with assms(1,2) show ?thesis by (intro exI [of _ "e # es"]) simp
qed

lemma search_alone:
  assumes np: "no_pages (cc_hosts s)" and up: "dh_up (cc_hosts s h)" and alone: "\<And>d. d \<noteq> h \<Longrightarrow> cc_task s d = None"
  shows "\<exists>es. (\<forall>e \<in> set es. event_host e = h) \<and>
    conc_run resolve shm junk es (set_task h (Some (Searching page srvs)) s) =
      Some (finish h (bind_p (find_owner resolve {h} (dh_ip (cc_hosts s h)) page srvs) (\<lambda>r. case r of
        Some srv \<Rightarrow> creat_remote resolve shm junk page srv h | None \<Rightarrow> creat_new shm page h)) s)"
proof (induction srvs)
  case Nil
  have "conc_run resolve shm junk [Go h] (set_task h (Some (Searching page [])) s) = Some (finish h (creat_new shm page h) s)"
    by simp
  then show ?case by (intro exI [of _ "[Go h]"]) (simp add: finish_def bind_p_def ret_p_def)
next
  case (Cons srv srvs)
  let ?s = "set_task h (Some (Searching page (srv # srvs))) s"
  let ?m = "bind_p (find_owner resolve {h} (dh_ip (cc_hosts s h)) page (srv # srvs)) (\<lambda>r. case r of
        Some srv \<Rightarrow> creat_remote resolve shm junk page srv h | None \<Rightarrow> creat_new shm page h)"
  let ?n = "bind_p (find_owner resolve {h} (dh_ip (cc_hosts s h)) page srvs) (\<lambda>r. case r of
        Some srv \<Rightarrow> creat_remote resolve shm junk page srv h | None \<Rightarrow> creat_new shm page h)"
  have ended: ?case if "conc_run resolve shm junk es ?s = Some (end_process h ?s)" "\<forall>e \<in> set es. event_host e = h"
      "?m (cc_hosts s) = (Inl e, cc_hosts s)" for es e
    using that finish_failed [of ?m s e h] by (intro exI [of _ es]) simp
  have on: ?case if "conc_run resolve shm junk es ?s = Some (set_task h (Some (Searching page srvs)) s)"
      "\<forall>e \<in> set es. event_host e = h" "?m (cc_hosts s) = ?n (cc_hosts s)" for es
  proof -
    have "finish h ?m s = finish h ?n s" using that(3) by (simp add: finish_def)
    moreover obtain fs where "\<forall>e \<in> set fs. event_host e = h"
        "conc_run resolve shm junk fs (set_task h (Some (Searching page srvs)) s) = Some (finish h ?n s)"
      using Cons.IH by blast
    ultimately show ?thesis using that(1,2) by (intro exI [of _ "es @ fs"]) (auto simp: conc_run_append)
  qed
  show ?case
  proof (cases "strncmp_eq IP_LEN srv (dh_ip (cc_hosts s h))")
    case True
    then show ?thesis by (intro on [of "[Go h]"]) (simp_all add: bind_p_def)
  next
    case other: False
    show ?thesis
    proof (cases "resolve (c_str srv)")
      case None
      with other show ?thesis
        by (intro ended [of "[Go h]" Exit_failure]) (simp_all add: bind_p_def call_find_def connect_p_def)
    next
      case (Some d)
      consider "\<not> dh_up (cc_hosts s d)" | "d = h" | "dh_up (cc_hosts s d)" "d \<noteq> h" by blast
      then show ?thesis
      proof cases
        case 1
        with other Some show ?thesis
          by (intro ended [of "[Go h]" Exit_failure]) (simp_all add: bind_p_def call_find_def connect_p_def)
      next
        case 2
        with other Some up show ?thesis
          by (intro ended [of "[Go h, Unanswered h]" Null_dereference])
            (simp_all add: bind_p_def call_find_def connect_p_def call_p_def deref_def fail_p_def free_def
              end_process_def set_task_def)
      next
        case 3
        with other Some alone find_nothing [OF np] show ?thesis
          by (intro on [of "[Go h, Answered h]"])
            (simp_all add: bind_p_def call_find_def connect_p_def call_p_def deref_def ret_p_def free_def)
      qed
    qed
  qed
qed

text \<open>
  The two renderings of the creation agree: when no other search overlaps it, the steps of the server can be taken one after
  the other, and then lead to the state and the end, success or fault, of \<^verbatim>\<open>psu_dsm_page_creat_1_svc\<close> run in one piece.
\<close>

lemma creation_alone_is_atomic:
  assumes "no_pages (cc_hosts s)" and "free s h" and "\<forall>d. d \<noteq> h \<longrightarrow> cc_task s d = None"
  shows "\<exists>es. (\<forall>e \<in> set es. event_host e = h) \<and>
    conc_run resolve shm junk es s = Some (finish h (page_creat_svc resolve shm junk page h) s)"
proof (rule conc_one)
  let ?d = "cc_hosts s h"
  have dir: "search_dir page (dh_dir ?d) = None" using assms(1) by (simp add: no_pages_def clean_def)
  then show "conc_step resolve shm junk (Begin h page) s =
      Some (set_task h (Some (Searching page (take (dh_nserver ?d) (dh_server ?d)))) s)"
    using assms(2) by (simp add: Let_def)
  have "finish h (page_creat_svc resolve shm junk page h) s =
      finish h (bind_p (find_owner resolve {h} (dh_ip ?d) page (take (dh_nserver ?d) (dh_server ?d))) (\<lambda>r. case r of
        Some srv \<Rightarrow> creat_remote resolve shm junk page srv h | None \<Rightarrow> creat_new shm page h)) s"
    using dir by (simp add: finish_def page_creat_svc_def bind_p_def read_p_def)
  then show "\<exists>es. (\<forall>e \<in> set es. event_host e = h) \<and>
      conc_run resolve shm junk es (set_task h (Some (Searching page (take (dh_nserver ?d) (dh_server ?d)))) s) =
        Some (finish h (page_creat_svc resolve shm junk page h) s)"
    using search_alone [OF assms(1), of h resolve shm junk page "take (dh_nserver ?d) (dh_server ?d)"] assms(2,3)
    by (simp add: free_def)
qed simp

end
