(* ===== verification/Rpc_Service.thy ===== *)
theory Rpc_Service
  imports Utility
begin

text \<open>
  How a server becomes reachable: the calls of the RPC library that the functions \<open>main\<close> of the files
  \<^verbatim>\<open>*_msg_svc.c\<close> make. The port mapper of a machine outlives the server processes; its table is what
  they leave behind. Its two operations are those of RFC 1833: a mapping is refused when there
  is one already, and removing ignores the protocol. Which ports the kernel hands out, and
  whether it does, is the argument \<open>svc_create\<close>; a machine on which no port mapper runs is \<open>None\<close>.
\<close>

section \<open>Port mapper\<close>

datatype proto = UDP | TCP

type_synonym portmap = "nat \<times> nat \<times> proto \<Rightarrow> nat option"

definition pmap_unset :: "nat \<Rightarrow> nat \<Rightarrow> portmap option \<Rightarrow> portmap option" where
  "pmap_unset prog vers = map_option (\<lambda>pm k. if fst k = prog \<and> fst (snd k) = vers then None else pm k)"

definition pmap_set :: "nat \<Rightarrow> nat \<Rightarrow> proto \<Rightarrow> nat \<Rightarrow> portmap option \<Rightarrow> portmap option" where
  "pmap_set prog vers proto port rpcbind =
     (case rpcbind of
        None \<Rightarrow> None
      | Some pm \<Rightarrow> (if pm (prog, vers, proto) = None then Some (pm((prog, vers, proto) \<mapsto> port)) else None))"

definition pmap_getport :: "nat \<Rightarrow> nat \<Rightarrow> proto \<Rightarrow> portmap option \<Rightarrow> nat option" where
  "pmap_getport prog vers proto rpcbind = (case rpcbind of None \<Rightarrow> None | Some pm \<Rightarrow> pm (prog, vers, proto))"

section \<open>Registration\<close>

text \<open>The dispatch functions of the three servers, and the list of a process in which they are found.\<close>

datatype dispatch = Lock_run | Psu_dsm_1 | Thread_run

type_synonym callouts = "((nat \<times> nat) \<times> dispatch) list"

definition svc_register ::
    "nat \<Rightarrow> nat \<Rightarrow> dispatch \<Rightarrow> proto \<Rightarrow> nat \<Rightarrow> callouts \<Rightarrow> portmap option \<Rightarrow> (callouts \<times> portmap option) option" where
  "svc_register prog vers d proto port cs rpcbind =
     (case map_of cs (prog, vers) of
        None \<Rightarrow> map_option (\<lambda>pm. (((prog, vers), d) # cs, Some pm)) (pmap_set prog vers proto port rpcbind)
      | Some d' \<Rightarrow>
          (if d' = d then map_option (\<lambda>pm. (cs, Some pm)) (pmap_set prog vers proto port rpcbind) else None))"

text \<open>
  What \<open>main\<close> comes to: the message with which it exits, a fault, or the state in which it enters
  \<open>svc_run\<close>; each with the port mapper it leaves.
\<close>

datatype 'a boot =
    Stopped string "portmap option"
  | Faulted c_fault "portmap option"
  | Serving 'a callouts "portmap option"

fun left_behind :: "'a boot \<Rightarrow> portmap option" where
  "left_behind (Stopped m rpcbind) = rpcbind"
| "left_behind (Faulted f rpcbind) = rpcbind"
| "left_behind (Serving x cs rpcbind) = rpcbind"

definition start_service ::
    "nat \<Rightarrow> nat \<Rightarrow> string \<Rightarrow> dispatch \<Rightarrow> (proto \<Rightarrow> nat option) \<Rightarrow> portmap option \<Rightarrow> unit boot" where
  "start_service prog vers names d svc_create rpcbind0 =
     (let rpcbind = pmap_unset prog vers rpcbind0 in
      case svc_create UDP of
        None \<Rightarrow> Stopped ''cannot create udp service.'' rpcbind
      | Some udp \<Rightarrow>
        (case svc_register prog vers d UDP udp [] rpcbind of
           None \<Rightarrow> Stopped (''unable to register ('' @ names @ '', udp).'') rpcbind
         | Some (cs, rpcbind) \<Rightarrow>
           (case svc_create TCP of
              None \<Rightarrow> Stopped ''cannot create tcp service.'' rpcbind
            | Some tcp \<Rightarrow>
              (case svc_register prog vers d TCP tcp cs rpcbind of
                 None \<Rightarrow> Stopped (''unable to register ('' @ names @ '', tcp).'') rpcbind
               | Some (cs, rpcbind) \<Rightarrow> Serving () cs rpcbind))))"

text \<open>The statements between the registration and \<open>svc_run\<close>.\<close>

definition then_init :: "unit boot \<Rightarrow> 'a outcome \<Rightarrow> 'a boot" where
  "then_init b init =
     (case b of
        Stopped m rpcbind \<Rightarrow> Stopped m rpcbind
      | Faulted f rpcbind \<Rightarrow> Faulted f rpcbind
      | Serving _ cs rpcbind \<Rightarrow> (case init of Inl f \<Rightarrow> Faulted f rpcbind | Inr x \<Rightarrow> Serving x cs rpcbind))"

section \<open>Lemmas\<close>

definition without :: "nat \<Rightarrow> nat \<Rightarrow> portmap \<Rightarrow> portmap" where
  "without prog vers pm = (\<lambda>k. if fst k = prog \<and> fst (snd k) = vers then None else pm k)"

lemma start_service_cases:
  "start_service prog vers names d svc_create (Some pm) =
     (case svc_create UDP of
        None \<Rightarrow> Stopped ''cannot create udp service.'' (Some (without prog vers pm))
      | Some udp \<Rightarrow>
        (case svc_create TCP of
           None \<Rightarrow> Stopped ''cannot create tcp service.'' (Some ((without prog vers pm)((prog, vers, UDP) \<mapsto> udp)))
         | Some tcp \<Rightarrow> Serving () [((prog, vers), d)]
             (Some ((without prog vers pm)((prog, vers, UDP) \<mapsto> udp, (prog, vers, TCP) \<mapsto> tcp)))))"
  by (auto simp: start_service_def svc_register_def pmap_unset_def pmap_set_def without_def Let_def
      split: option.splits)

lemma start_service_no_portmapper:
  "start_service prog vers names d svc_create None = Stopped
     (if svc_create UDP = None then ''cannot create udp service.''
      else ''unable to register ('' @ names @ '', udp).'') None"
  by (auto simp: start_service_def svc_register_def pmap_unset_def pmap_set_def Let_def split: option.splits)

text \<open>
  A server program: a function \<open>main\<close> that registers one program and then initialises its state.
\<close>

locale rpc_server =
  fixes main :: "(proto \<Rightarrow> nat option) \<Rightarrow> portmap option \<Rightarrow> 'a boot"
    and prog :: nat
    and vers :: nat
    and names :: string
    and dispatch :: dispatch
    and init :: "'a outcome"
  assumes main: "main svc_create rpcbind = then_init (start_service prog vers names dispatch svc_create rpcbind) init"
begin

lemma serving_iff:
  "(\<exists>x cs rpcbind'. main svc_create (Some pm) = Serving x cs rpcbind') \<longleftrightarrow>
     svc_create UDP \<noteq> None \<and> svc_create TCP \<noteq> None \<and> (\<exists>x. init = Inr x)"
  by (auto simp: main then_init_def start_service_cases split: option.splits sum.splits)

lemma serves:
  assumes "svc_create UDP = Some udp" and "svc_create TCP = Some tcp" and "init = Inr x"
  shows "main svc_create (Some pm) = Serving x [((prog, vers), dispatch)]
    (Some ((without prog vers pm)((prog, vers, UDP) \<mapsto> udp, (prog, vers, TCP) \<mapsto> tcp)))"
  using assms by (simp add: main then_init_def start_service_cases)

lemma serving_init: "main svc_create rpcbind = Serving x cs rpcbind' \<Longrightarrow> init = Inr x"
  by (cases rpcbind) (auto simp: main then_init_def start_service_cases start_service_no_portmapper
      split: option.splits sum.splits)

lemma serving_ports:
  assumes "main svc_create (Some pm) = Serving x cs (Some pm')"
  shows "init = Inr x \<and> map_of cs (prog, vers) = Some dispatch \<and>
    pm' (prog, vers, UDP) = svc_create UDP \<and> pm' (prog, vers, TCP) = svc_create TCP"
  using assms by (auto simp: main then_init_def start_service_cases split: option.splits sum.splits)

lemma keeps_others:
  assumes "p \<noteq> prog"
  shows "pmap_getport p v r (left_behind (main svc_create rpcbind)) = pmap_getport p v r rpcbind"
proof (cases rpcbind)
  case None
  then show ?thesis by (simp add: main then_init_def start_service_no_portmapper)
next
  case (Some pm)
  with assms show ?thesis
    by (auto simp: main then_init_def start_service_cases without_def pmap_getport_def
        split: option.splits sum.splits)
qed

end

end
