(* ===== verification/Lock_Dispatch.thy ===== *)
theory Lock_Dispatch
  imports Lock_Msg Utility
begin

text \<open>
  From a message on the wire to the thread that serves it: \<^verbatim>\<open>dispatcher\<close> of \<^verbatim>\<open>utility.c\<close> and
  \<^verbatim>\<open>parse_thread_data\<close> of \<^verbatim>\<open>psu_dist_lock_mgr_msg_svc.c\<close>. The argument lives in zeroed memory
  that the filters fill field by field, so a filter that fails half way leaves the fields it
  has decoded. After a decoding error the function goes on, as the source does.
\<close>

section \<open>Decoding into zeroed memory\<close>

text \<open>The argument union after \<open>svc_getargs\<close>; a string pointer may still be null.\<close>

datatype argument =
    Arg_string "string option"
  | Arg_int int
  | Arg_pack RequestPack

fun init_lock_mgr_arg :: "byte list \<Rightarrow> bool \<times> argument" where
  "init_lock_mgr_arg bs =
     (case x_get xdr_wrapstring bs of
        None \<Rightarrow> (False, Arg_string None)
      | Some (s, _) \<Rightarrow> (True, Arg_string (Some s)))"

fun int_arg :: "byte list \<Rightarrow> bool \<times> argument" where
  "int_arg bs =
     (case x_get xdr_int bs of None \<Rightarrow> (False, Arg_int 0) | Some (n, _) \<Rightarrow> (True, Arg_int n))"

fun request_arg :: "byte list \<Rightarrow> bool \<times> argument" where
  "request_arg bs =
     (case x_get xdr_int bs of
        None \<Rightarrow> (False, Arg_pack \<lparr>pack_lock_number = 0, pack_seqno = 0, pack_mac = 0\<rparr>)
      | Some (n, r) \<Rightarrow>
        (case x_get xdr_int r of
           None \<Rightarrow> (False, Arg_pack \<lparr>pack_lock_number = n, pack_seqno = 0, pack_mac = 0\<rparr>)
         | Some (k, r') \<Rightarrow>
           (case x_get xdr_u_hyper r' of
              None \<Rightarrow> (False, Arg_pack \<lparr>pack_lock_number = n, pack_seqno = k, pack_mac = 0\<rparr>)
            | Some (m, _) \<Rightarrow> (True, Arg_pack \<lparr>pack_lock_number = n, pack_seqno = k, pack_mac = m\<rparr>))))"

section \<open>Dispatching\<close>

record thread_data =
  td_proc :: nat
  td_argument :: argument
  td_replies :: "reply list"

text \<open>
  An unknown procedure is answered with an error, and then \<open>svc_getargs\<close> is called with a
  null filter. A failing filter is answered with an error, and then the thread data is packed
  all the same.
\<close>

definition parse_thread_data :: "nat \<Rightarrow> byte list \<Rightarrow> thread_data outcome" where
  "parse_thread_data rq_proc bs =
     (let pack = (\<lambda>(ok, a). Inr \<lparr>td_proc = rq_proc, td_argument = a,
                       td_replies = (if ok then [] else [Decode_error])\<rparr>) in
      if rq_proc = 1 then pack (init_lock_mgr_arg bs)
      else if rq_proc = 2 then pack (int_arg bs)
      else if rq_proc = 3 then pack (int_arg bs)
      else if rq_proc = 4 then pack (request_arg bs)
      else Inl Null_dereference)"

definition lock_run :: "nat \<Rightarrow> byte list \<Rightarrow> thread_data dispatched outcome" where
  "lock_run rq_proc bs = dispatcher parse_thread_data rq_proc bs"

text \<open>
  The call that the thread of \<^verbatim>\<open>run\<close> makes: \<open>None\<close> when the procedure dereferences the null string
  pointer. Every procedure returns true, so \<^verbatim>\<open>run\<close> sends one reply, which is successful when the
  transport takes it.
\<close>

definition served_call :: "thread_data \<Rightarrow> lock_call option" where
  "served_call td =
     (case td_argument td of
        Arg_string None \<Rightarrow> None
      | Arg_string (Some s) \<Rightarrow> Some (Init_lock_mgr s)
      | Arg_int n \<Rightarrow> Some (if td_proc td = 2 then Acquire_lock n else Release_lock n)
      | Arg_pack pack \<Rightarrow> Some (Request pack))"

definition replies_after_run :: "thread_data \<Rightarrow> reply list outcome" where
  "replies_after_run td = map_sum id (append (td_replies td)) (run_thread True True True)"

section \<open>Properties\<close>

lemma request_arg_complete:
  "x_get xdr_RequestPack bs = Some (v, r) \<Longrightarrow> request_arg bs = (True, Arg_pack v)"
  by (auto simp: xdr_RequestPack_def xdr_struct_def xdr_conv_def xdr_pair_def split: option.splits)

lemma request_arg_form:
  "\<exists>ok pack. request_arg bs = (ok, Arg_pack pack) \<and> (\<not> ok \<longrightarrow> pack_mac pack = 0)"
  by (auto split: option.split prod.split)

lemma get_put_int: "x_put xdr_int n = Some w \<Longrightarrow> x_get xdr_int (w @ r) = Some (n, r)"
  using sized_int by (auto simp: sized_codec_def codec_def)

lemma dispatch_sent:
  assumes "send_call c = Some (proc, w)"
  shows "\<exists>td. lock_run proc (w @ r) = Inr (Spawned td) \<and> served_call td = Some c \<and>
    replies_after_run td = Inr [Success]"
proof (cases c)
  case (Init_lock_mgr s)
  with assms have "proc = 1" "x_put xdr_wrapstring s = Some w" by (auto simp: init_lock_mgr_1_def)
  then show ?thesis
    using Init_lock_mgr wrapstring.get_put [of s w r]
    by (simp add: lock_run_def dispatcher_def parse_thread_data_def served_call_def replies_after_run_def run_thread_def)
next
  case (Acquire_lock n)
  with assms have "proc = 2" "x_put xdr_int n = Some w" by (auto simp: acquire_lock_1_def)
  then show ?thesis
    using Acquire_lock get_put_int [of n w r]
    by (simp add: lock_run_def dispatcher_def parse_thread_data_def served_call_def replies_after_run_def run_thread_def)
next
  case (Release_lock n)
  with assms have "proc = 3" "x_put xdr_int n = Some w" by (auto simp: release_lock_1_def)
  then show ?thesis
    using Release_lock get_put_int [of n w r]
    by (simp add: lock_run_def dispatcher_def parse_thread_data_def served_call_def replies_after_run_def run_thread_def)
next
  case (Request pack)
  with assms have "proc = 4" "x_put xdr_RequestPack pack = Some w" by (auto simp: request_1_def)
  then show ?thesis
    using Request request_arg_complete [OF RequestPack_xdr.get_put [of pack w r]]
    by (simp add: lock_run_def dispatcher_def parse_thread_data_def served_call_def replies_after_run_def run_thread_def
        del: request_arg.simps)
qed

text \<open>
  C22. A call that a client stub puts on the wire, with anything behind it, makes the server spawn
  one thread that serves exactly this call and has sent no error before its reply.
\<close>

theorem dispatch_of_stub:
  assumes "send_call c = Some (proc, w)"
  shows "\<exists>td. lock_run proc (w @ r) = Inr (Spawned td) \<and> served_call td = Some c \<and>
    replies_after_run td = Inr [Success]"
  using assms by (rule dispatch_sent)

lemma send_acquire_5: "send_call (Acquire_lock 5) = Some (2, [0, 0, 0, 5])"
  by (simp add: acquire_lock_1_def xdr_int_def xdr_conv_def xdr_u_int_def is_c_int_def INT_MAX_def
      be_bytes_4)

theorem dispatch_of_stub_witness:
  "\<exists>td. lock_run 2 [0, 0, 0, 5, 9] = Inr (Spawned td) \<and> served_call td = Some (Acquire_lock 5) \<and>
     replies_after_run td = Inr [Success]"
  using dispatch_of_stub [OF send_acquire_5, of "[9]"] by simp

text \<open>
  C13. A request that is cut short is answered with a decoding error, and served nevertheless: the
  thread runs \<^verbatim>\<open>request_1_svc\<close> on a pack whose hardware address is zero, and sends a second,
  successful reply.
\<close>

theorem short_request_is_served:
  assumes "length bs < 16"
  shows "\<exists>td pack. lock_run 4 bs = Inr (Spawned td) \<and> served_call td = Some (Request pack) \<and>
    pack_mac pack = 0 \<and> replies_after_run td = Inr [Decode_error, Success]"
proof -
  obtain ok pack where arg: "request_arg bs = (ok, Arg_pack pack)" and "\<not> ok \<longrightarrow> pack_mac pack = 0"
    using request_arg_form [of bs] by blast
  moreover have "\<not> ok"
  proof
    assume ok
    with arg obtain v r where "x_get xdr_RequestPack bs = Some (v, r)"
      by (auto simp: xdr_RequestPack_def xdr_struct_def xdr_conv_def xdr_pair_def
          split: option.splits)
    with assms show False using RequestPack_xdr.get_size [of bs v r] by simp
  qed
  ultimately show ?thesis
    by (auto simp: lock_run_def dispatcher_def parse_thread_data_def served_call_def replies_after_run_def run_thread_def
        simp del: request_arg.simps)
qed

theorem short_request_is_served_witness:
  "\<exists>td pack. lock_run 4 [0, 0, 0, 7] = Inr (Spawned td) \<and> served_call td = Some (Request pack) \<and>
     pack_mac pack = 0 \<and> replies_after_run td = Inr [Decode_error, Success]"
  by (rule short_request_is_served) simp

text \<open>
  A procedure number the lock manager does not have ends the process: after the error reply
  the null filter is called.
\<close>

theorem unknown_procedure_crashes:
  assumes "4 < proc"
  shows "lock_run proc bs = Inl Null_dereference"
  using assms by (simp add: lock_run_def dispatcher_def parse_thread_data_def Let_def)

theorem unknown_procedure_crashes_witness: "lock_run 5 [] = Inl Null_dereference"
  by (rule unknown_procedure_crashes) simp

end
