(* ===== verification/Lock_Init.thy ===== *)
theory Lock_Init
  imports Lock_Client Lock_Dispatch Lock_System
begin

text \<open>
  How a lock server comes into being: \<^verbatim>\<open>initialize_global_variable\<close> and \<^verbatim>\<open>init_lock_mgr_1_svc\<close> of
  \<^verbatim>\<open>psu_dist_lock_mgr_server.c\<close>. The properties follow the node list from the client's command
  line to the node lists of all servers and show that initialised servers are connected in
  the sense the protocol needs.
\<close>

section \<open>Definitions\<close>

definition initialize_global_variable :: "ifaddrs option \<Rightarrow> server outcome" where
  "initialize_global_variable getifaddrs =
     (case get_mac_address getifaddrs of
        Inl f \<Rightarrow> Inl f
      | Inr m \<Rightarrow>
          (if m = 0 then Inl Assertion_failed
           else Inr \<lparr>nodes = [], mac = m, has_initialized = False, lockvar_list = [], mutexes = []\<rparr>))"

text \<open>The list is appended to: a second call adds its addresses to those of the first.\<close>

definition init_lock_mgr_1_svc :: "ifaddrs option \<Rightarrow> string \<Rightarrow> server \<Rightarrow> server outcome" where
  "init_lock_mgr_1_svc getifaddrs node_str srv =
     (case get_local_ip_addresses getifaddrs [] of
        Inl f \<Rightarrow> Inl f
      | Inr local_ip_addresses \<Rightarrow>
          (if length local_ip_addresses = 0 then Inl Assertion_failed
           else Inr (srv\<lparr>nodes := nodes srv @
                  [pch \<leftarrow> strtok_all CHR '','' node_str.
                     \<not> list_ex (\<lambda>a. pch = a) local_ip_addresses],
                has_initialized := True\<rparr>)))"

text \<open>A server started on a machine and initialised by one client.\<close>

definition started :: "ifaddrs \<Rightarrow> string list \<Rightarrow> server outcome" where
  "started addrs addresses =
     (case initialize_global_variable (Some addrs) of
        Inl f \<Rightarrow> Inl f
      | Inr srv \<Rightarrow> init_lock_mgr_1_svc (Some addrs) (join '','' addresses) srv)"

section \<open>Properties\<close>

lemma started_empty: "started addrs addresses = Inr srv \<Longrightarrow> lockvar_list srv = []"
  by (auto simp: started_def initialize_global_variable_def init_lock_mgr_1_svc_def
      split: sum.splits if_splits)

lemma set_join: "set (join sep xs) \<subseteq> set sep \<union> (\<Union>x \<in> set xs. set x)"
  by (induction sep xs rule: join.induct) auto

lemma put_wrapstring_Some:
  assumes "is_c_string s" and "length s < 2 ^ 32"
  shows "\<exists>w. x_put xdr_wrapstring s = Some w"
  using assms by (simp add: xdr_wrapstring_def xdr_conv_def xdr_bytes_def)

lemma init_splits:
  assumes "\<forall>a \<in> set addresses. is_token CHR '','' a" and "local_ips addrs \<noteq> []"
  shows "init_lock_mgr_1_svc (Some addrs) (join '','' addresses) srv = Inr (srv\<lparr>nodes := nodes srv @
        [a \<leftarrow> addresses. a \<notin> set (local_ips addrs)], has_initialized := True\<rparr>)"
proof -
  have "strtok_all CHR '','' (join '','' addresses) = addresses"
    using assms(1) by (rule strtok_join)
  moreover have "list_ex (\<lambda>a. x = a) xs \<longleftrightarrow> x \<in> set xs" for x :: string and xs
    by (auto simp: list_ex_iff)
  ultimately show ?thesis
    using assms(2) by (simp add: init_lock_mgr_1_svc_def get_local_ip_addresses_def)
qed

text \<open>
  C20. The node list travels unharmed: the addresses a client passes to \<^verbatim>\<open>psu_init_lock_mgr\<close> are
  joined, encoded, dispatched and split again, and the server ends up with exactly these
  addresses in their order, less its own, behind those it had.
\<close>

theorem init_end_to_end:
  assumes tok: "\<forall>a \<in> set addresses. is_token CHR '','' a"
    and nul: "\<forall>a \<in> set addresses. NUL \<notin> set a"
    and len: "length (join '','' addresses) + 2 \<le> nat INT_MAX - 1024"
    and conn: "clnt_create ''127.0.0.1'' = Some client"
    and ips: "local_ips addrs \<noteq> []"
  shows "\<exists>proc w td s. psu_init_lock_mgr clnt_create addresses lc =
      Some (Inr (Some (proc, w), lc\<lparr>lc_initialized := True\<rparr>)) \<and>
    lock_run proc w = Inr (Spawned td) \<and> served_call td = Some (Init_lock_mgr s) \<and>
    init_lock_mgr_1_svc (Some addrs) s srv = Inr (srv\<lparr>nodes := nodes srv @
        [a \<leftarrow> addresses. a \<notin> set (local_ips addrs)], has_initialized := True\<rparr>)"
proof -
  let ?s = "join '','' addresses"
  have "is_c_string ?s" using set_join [of "'',''" addresses] nul by (auto simp: is_c_string_def NUL_def)
  moreover have "length ?s < 2 ^ 32" using len by (simp add: INT_MAX_def)
  ultimately obtain w where w: "x_put xdr_wrapstring ?s = Some w" using put_wrapstring_Some by blast
  then have sent: "send_call (Init_lock_mgr ?s) = Some (1, w)" by (simp add: init_lock_mgr_1_def)
  obtain td where td: "lock_run 1 w = Inr (Spawned td)" "served_call td = Some (Init_lock_mgr ?s)"
    using dispatch_sent [OF sent, of "[]"] by auto
  have "psu_init_lock_mgr clnt_create addresses lc =
      Some (Inr (Some (1, w), lc\<lparr>lc_initialized := True\<rparr>))"
    using psu_init_lock_mgr_joins [OF len, of clnt_create client lc] conn sent by simp
  with td init_splits [OF tok ips] show ?thesis by blast
qed

theorem init_end_to_end_witness:
  "\<exists>proc w td s. psu_init_lock_mgr (\<lambda>h. Some ()) [''10.0.0.5'', ''10.0.0.6''] \<lparr>lc_initialized = False\<rparr> =
      Some (Inr (Some (proc, w), \<lparr>lc_initialized = True\<rparr>)) \<and>
    lock_run proc w = Inr (Spawned td) \<and> served_call td = Some (Init_lock_mgr s) \<and>
    init_lock_mgr_1_svc (Some sample_ifaddrs) s \<lparr>nodes = [], mac = 5, has_initialized = False,
        lockvar_list = [], mutexes = []\<rparr> =
      Inr \<lparr>nodes = [''10.0.0.6''], mac = 5, has_initialized = True, lockvar_list = [], mutexes = []\<rparr>"
proof -
  have "local_ips sample_ifaddrs = [''127.0.0.1'', ''10.0.0.5'']"
    by (simp add: sample_ifaddrs_def inet_ntop_def decimal.simps char_of_def bit_iff_odd)
  then show ?thesis
    using init_end_to_end [of "[''10.0.0.5'', ''10.0.0.6'']" "\<lambda>h. Some ()" "()" sample_ifaddrs
        "\<lparr>lc_initialized = False\<rparr>" "\<lparr>nodes = [], mac = 5, has_initialized = False,
        lockvar_list = [], mutexes = []\<rparr>"]
    by (simp add: is_token_def NUL_def INT_MAX_def)
qed

lemma started_fields:
  assumes st: "started (ifs h) (map addr hosts) = Inr srv" and h: "h \<in> set hosts"
    and tok: "\<forall>h \<in> set hosts. is_token CHR '','' (addr h)"
    and own: "\<forall>h \<in> set hosts. \<forall>d \<in> set hosts. addr d \<in> set (local_ips (ifs h)) \<longleftrightarrow> d = h"
  shows "get_mac_address (Some (ifs h)) = Inr (mac srv)"
    and "nodes srv = [a \<leftarrow> map addr hosts. a \<notin> set (local_ips (ifs h))]"
proof -
  have "local_ips (ifs h) \<noteq> []" using own h by force
  then have i: "init_lock_mgr_1_svc (Some (ifs h)) (join '','' (map addr hosts)) x = Inr (x\<lparr>nodes := nodes x @
      [a \<leftarrow> map addr hosts. a \<notin> set (local_ips (ifs h))], has_initialized := True\<rparr>)" for x
    using tok by (intro init_splits) auto
  show "get_mac_address (Some (ifs h)) = Inr (mac srv)"
    "nodes srv = [a \<leftarrow> map addr hosts. a \<notin> set (local_ips (ifs h))]"
    using st by (auto simp: started_def initialize_global_variable_def i split: sum.splits if_splits
        dest: sym [of _ srv])
qed

lemma started_connected:
  assumes srv: "\<forall>h \<in> set hosts. started (ifs h) (map addr hosts) = Inr (srvs h)"
    and tok: "\<forall>h \<in> set hosts. is_token CHR '','' (addr h)"
    and own: "\<forall>h \<in> set hosts. \<forall>d \<in> set hosts. addr d \<in> set (local_ips (ifs h)) \<longleftrightarrow> d = h"
    and res: "\<forall>h \<in> set hosts. resolve (addr h) = Some h"
    and macs: "inj_on (\<lambda>h. get_mac_address (Some (ifs h))) (set hosts)"
    and s: "cluster s = hosts" "\<forall>h \<in> set hosts. servers s h = srvs h"
      "\<forall>c. cl_host (clients s c) \<in> set hosts"
  shows "connected resolve s"
proof -
  have started: "get_mac_address (Some (ifs h)) = Inr (mac (srvs h)) \<and>
      nodes (srvs h) = [a \<leftarrow> map addr hosts. a \<notin> set (local_ips (ifs h))]" if h: "h \<in> set hosts" for h
    using started_fields [OF _ h tok own] srv h by blast
  show ?thesis
    unfolding connected_def
  proof (intro conjI ballI impI)
    fix h d assume a: "h \<in> set (cluster s)" "d \<in> set (cluster s)" "d \<noteq> h"
    then have "addr d \<in> set (nodes (servers s h))" using s started own by auto
    moreover have "resolve (addr d) = Some d" using a s res by simp
    ultimately show "\<exists>a \<in> set (nodes (servers s h)). resolve a = Some d" by blast
  next
    show "inj_on (\<lambda>h. mac (servers s h)) (set (cluster s))"
      using macs s started unfolding inj_on_def by (metis (no_types, lifting))
  qed (use s in simp)
qed

text \<open>
  Initialised servers are connected. Let every machine of a cluster be started and told the
  addresses of all machines. If each machine finds its own address among its interfaces and no
  other machine's, the addresses lead to the machines, and the hardware addresses differ, then
  the servers together form a state from which the guarantees of the lock manager hold.
\<close>

theorem started_servers_connected:
  assumes srv: "\<forall>h \<in> set hosts. started (ifs h) (map addr hosts) = Inr (srvs h)"
    and tok: "\<forall>h \<in> set hosts. is_token CHR '','' (addr h)"
    and own: "\<forall>h \<in> set hosts. \<forall>d \<in> set hosts. addr d \<in> set (local_ips (ifs h)) \<longleftrightarrow> d = h"
    and res: "\<forall>h \<in> set hosts. resolve (addr h) = Some h"
    and macs: "inj_on (\<lambda>h. get_mac_address (Some (ifs h))) (set hosts)"
    and s: "cluster s = hosts" "\<forall>h \<in> set hosts. servers s h = srvs h"
      "\<forall>c. cl_host (clients s c) \<in> set hosts"
  shows "connected resolve s"
  using assms by (rule started_connected)

definition pair_ifs :: "host \<Rightarrow> ifaddrs" where
  "pair_ifs h = [Some (Sockaddr_in 127 0 0 1), Some (Sockaddr_ll [2, 0, 0, 0, 0, of_nat h, 0, 0]),
     Some (Sockaddr_in 10 0 0 (of_nat h))]"

definition pair_addr :: "host \<Rightarrow> string" where
  "pair_addr h = (if h = 5 then ''10.0.0.5'' else ''10.0.0.6'')"

definition pair_resolve :: "string \<Rightarrow> host option" where
  "pair_resolve a = (if a = ''10.0.0.5'' then Some 5 else if a = ''10.0.0.6'' then Some 6 else None)"

definition pair_server :: "host \<Rightarrow> server" where
  "pair_server h = \<lparr>nodes = [if h = 5 then ''10.0.0.6'' else ''10.0.0.5''],
     mac = 2199023255552 + of_nat h, has_initialized = True, lockvar_list = [], mutexes = []\<rparr>"

definition pair_sys :: sys where
  "pair_sys = \<lparr>cluster = [5, 6], servers = pair_server, exited = (\<lambda>h. False),
     clients = (\<lambda>c. \<lparr>cl_host = (if c = 0 then 5 else 6), cl_number = 0, cl_pc = Idle\<rparr>), handlers = []\<rparr>"

lemma pair_mac:
  "get_mac_address (Some (pair_ifs 5)) = Inr 2199023255557"
  "get_mac_address (Some (pair_ifs 6)) = Inr 2199023255558"
  by (simp_all add: get_mac_address_def pair_ifs_def or_mac_def Let_def)

lemma pair_ips:
  "local_ips (pair_ifs 5) = [''127.0.0.1'', ''10.0.0.5'']"
  "local_ips (pair_ifs 6) = [''127.0.0.1'', ''10.0.0.6'']"
  by (simp_all add: pair_ifs_def inet_ntop_def decimal.simps char_of_def bit_iff_odd)

lemma pair_started:
  "started (pair_ifs 5) (map pair_addr [5, 6]) = Inr (pair_server 5)"
  "started (pair_ifs 6) (map pair_addr [5, 6]) = Inr (pair_server 6)"
  using init_splits [of "map pair_addr [5, 6]" "pair_ifs 5"]
    init_splits [of "map pair_addr [5, 6]" "pair_ifs 6"]
  by (simp_all add: started_def initialize_global_variable_def pair_mac pair_ips pair_server_def
      pair_addr_def is_token_def del: join.simps)

theorem started_servers_connected_witness: "connected pair_resolve pair_sys"
  by (rule started_servers_connected [where hosts = "[5, 6]" and ifs = pair_ifs and addr = pair_addr
        and srvs = pair_server])
    (use pair_started in \<open>simp_all add: pair_sys_def pair_ips pair_mac pair_addr_def pair_resolve_def
      is_token_def\<close>)

end
