(* ===== verification/Thread_Msg.thy ===== *)
theory Thread_Msg
  imports Xdr
begin

text \<open>
  The message of the thread migrator: the execution context of a thread as declared in
  \<^verbatim>\<open>psu_thread_msg.x\<close>, and its filters from \<^verbatim>\<open>psu_thread_msg_xdr.c\<close>. Arrays are lists of the
  declared lengths. The filter of an SSE register has two paths in each direction: it writes into
  or reads from the stream's buffer directly when the buffer has room (\<open>inline\<close>), and goes through the
  generic array filter otherwise.
\<close>

section \<open>Structures\<close>

record rpc_sigset_t =
  sig_val :: "u64 list"

record rpc_libc_fpxreg =
  fpx_significand :: "u16 list"
  fpx_exponent :: u16
  fpx_padding :: "u16 list"

record rpc_libc_xmmreg =
  xmm_element :: "u32 list"

record rpc_libc_fpstate =
  fp_cwd :: u16
  fp_swd :: u16
  fp_ftw :: u16
  fp_fop :: u16
  fp_rip :: u64
  fp_rdp :: u64
  fp_mxcsr :: u32
  fp_mxcr_mask :: u32
  fp_st :: "rpc_libc_fpxreg list"
  fp_xmm :: "rpc_libc_xmmreg list"
  fp_padding :: "u32 list"

record rpc_mcontext =
  mc_gregs :: "u64 list"
  mc_fpregs :: rpc_libc_fpstate
  mc_reserved1 :: "u64 list"

record rpc_stack_t =
  st_flags :: int
  st_sp :: "byte list"

record rpc_ucontext =
  ru_flags :: u64
  ru_stack :: rpc_stack_t
  ru_mcontext :: rpc_mcontext
  ru_sigmask :: rpc_sigset_t
  ru_fpregs_mem :: rpc_libc_fpstate

section \<open>Filters\<close>

definition xdr_rpc_sigset_t :: "rpc_sigset_t xdrproc" where
  "xdr_rpc_sigset_t = xdr_struct sig_val (\<lambda>v. \<lparr>sig_val = v\<rparr>) (xdr_vector 16 xdr_u_hyper)"

definition xdr_rpc_libc_fpxreg :: "rpc_libc_fpxreg xdrproc" where
  "xdr_rpc_libc_fpxreg = xdr_struct
     (\<lambda>v. (fpx_significand v, fpx_exponent v, fpx_padding v))
     (\<lambda>(s, e, p). \<lparr>fpx_significand = s, fpx_exponent = e, fpx_padding = p\<rparr>)
     (xdr_pair (xdr_vector 4 xdr_u_short) (xdr_pair xdr_u_short (xdr_vector 3 xdr_u_short)))"

text \<open>The inline paths.\<close>

definition inline_put :: "u32 list \<Rightarrow> byte list" where
  "inline_put ws = concat (map (\<lambda>w. be_bytes 4 (unat w)) ws)"

fun inline_get :: "nat \<Rightarrow> byte list \<Rightarrow> u32 list" where
  "inline_get 0 bs = []"
| "inline_get (Suc n) bs = of_nat (be_val (take 4 bs)) # inline_get n (drop 4 bs)"

definition xdr_xmm_elements :: "bool \<Rightarrow> u32 list xdrproc" where
  "xdr_xmm_elements inline = \<lparr>
     x_put = (\<lambda>ws. if inline then (if length ws = 4 then Some (inline_put ws) else None)
        else x_put (xdr_vector 4 xdr_u_int) ws),
     x_get = (\<lambda>bs. if inline \<and> 16 \<le> length bs then Some (inline_get 4 bs, drop 16 bs)
        else x_get (xdr_vector 4 xdr_u_int) bs)\<rparr>"

definition xdr_rpc_libc_xmmreg :: "bool \<Rightarrow> rpc_libc_xmmreg xdrproc" where
  "xdr_rpc_libc_xmmreg inline =
     xdr_struct xmm_element (\<lambda>v. \<lparr>xmm_element = v\<rparr>) (xdr_xmm_elements inline)"

definition xdr_rpc_libc_fpstate :: "bool \<Rightarrow> rpc_libc_fpstate xdrproc" where
  "xdr_rpc_libc_fpstate inline = xdr_struct
     (\<lambda>v. (fp_cwd v, fp_swd v, fp_ftw v, fp_fop v, fp_rip v, fp_rdp v, fp_mxcsr v, fp_mxcr_mask v,
           fp_st v, fp_xmm v, fp_padding v))
     (\<lambda>(a, b, c, d, e, f, g, h, i, j, k). \<lparr>fp_cwd = a, fp_swd = b, fp_ftw = c, fp_fop = d, fp_rip = e,
        fp_rdp = f, fp_mxcsr = g, fp_mxcr_mask = h, fp_st = i, fp_xmm = j, fp_padding = k\<rparr>)
     (xdr_pair xdr_u_short (xdr_pair xdr_u_short (xdr_pair xdr_u_short (xdr_pair xdr_u_short
       (xdr_pair xdr_u_hyper (xdr_pair xdr_u_hyper (xdr_pair xdr_u_int (xdr_pair xdr_u_int
         (xdr_pair (xdr_vector 8 xdr_rpc_libc_fpxreg)
           (xdr_pair (xdr_vector 16 (xdr_rpc_libc_xmmreg inline)) (xdr_vector 24 xdr_u_int)))))))))))"

definition xdr_rpc_gregset_t :: "u64 list xdrproc" where
  "xdr_rpc_gregset_t = xdr_vector 23 xdr_u_hyper"

definition xdr_rpc_mcontext :: "bool \<Rightarrow> rpc_mcontext xdrproc" where
  "xdr_rpc_mcontext inline = xdr_struct
     (\<lambda>v. (mc_gregs v, mc_fpregs v, mc_reserved1 v))
     (\<lambda>(g, f, r). \<lparr>mc_gregs = g, mc_fpregs = f, mc_reserved1 = r\<rparr>)
     (xdr_pair xdr_rpc_gregset_t (xdr_pair (xdr_rpc_libc_fpstate inline) (xdr_vector 8 xdr_u_hyper)))"

definition xdr_rpc_stack_t :: "rpc_stack_t xdrproc" where
  "xdr_rpc_stack_t = xdr_struct (\<lambda>v. (st_flags v, st_sp v)) (\<lambda>(f, s). \<lparr>st_flags = f, st_sp = s\<rparr>)
     (xdr_pair xdr_int (xdr_bytes (2 ^ 32 - 1)))"

definition xdr_rpc_ucontext :: "bool \<Rightarrow> rpc_ucontext xdrproc" where
  "xdr_rpc_ucontext inline = xdr_struct
     (\<lambda>v. (ru_flags v, ru_stack v, ru_mcontext v, ru_sigmask v, ru_fpregs_mem v))
     (\<lambda>(a, b, c, d, e). \<lparr>ru_flags = a, ru_stack = b, ru_mcontext = c, ru_sigmask = d, ru_fpregs_mem = e\<rparr>)
     (xdr_pair xdr_u_hyper (xdr_pair xdr_rpc_stack_t (xdr_pair (xdr_rpc_mcontext inline)
       (xdr_pair xdr_rpc_sigset_t (xdr_rpc_libc_fpstate inline)))))"

section \<open>The two paths of the register filter\<close>

lemma put_vector_u_int: "put_vector (x_put xdr_u_int) ws = Some (inline_put ws)"
  by (induction ws) (simp_all add: inline_put_def xdr_u_int_def)

lemma get_vector_u_int:
  "4 * n \<le> length bs \<Longrightarrow> get_vector n (x_get xdr_u_int) bs = Some (inline_get n bs, drop (4 * n) bs)"
  by (induction n arbitrary: bs) (simp_all add: xdr_u_int_def get_bytes_def add.commute)

lemma xmm_elements_paths: "xdr_xmm_elements True = xdr_xmm_elements False"
  by (auto simp: xdr_xmm_elements_def xdr_vector_def put_vector_u_int get_vector_u_int fun_eq_iff)

text \<open>
  C40. The direct access to the stream's buffer is an optimisation only: for every register and every
  stream, both paths produce the same bytes and read the same value.
\<close>

theorem xmmreg_inline_equals_vector: "xdr_rpc_libc_xmmreg True = xdr_rpc_libc_xmmreg False"
  by (simp add: xdr_rpc_libc_xmmreg_def xmm_elements_paths)

section \<open>The contract\<close>

lemma xmm_elements_vector: "xdr_xmm_elements inline = xdr_vector 4 xdr_u_int"
proof -
  have "xdr_xmm_elements False = xdr_vector 4 xdr_u_int" by (simp add: xdr_xmm_elements_def)
  then show ?thesis by (cases inline) (simp_all add: xmm_elements_paths)
qed

lemma sized_sigset [codec_laws]: "sized_codec xdr_rpc_sigset_t 128"
  unfolding xdr_rpc_sigset_t_def
  by (rule sized_struct) (use sized_vector [OF sized_u_hyper, of 16] in simp_all)

lemma sized_fpxreg [codec_laws]: "sized_codec xdr_rpc_libc_fpxreg 32"
proof -
  have "sized_codec (xdr_pair (xdr_vector 4 xdr_u_short) (xdr_pair xdr_u_short (xdr_vector 3 xdr_u_short)))
      (4 * 4 + (4 + 3 * 4))"
    by (intro codec_laws)
  then show ?thesis unfolding xdr_rpc_libc_fpxreg_def by (intro sized_struct) simp_all
qed

lemma sized_xmmreg [codec_laws]: "sized_codec (xdr_rpc_libc_xmmreg inline) 16"
  unfolding xdr_rpc_libc_xmmreg_def xmm_elements_vector
  by (rule sized_struct) (use sized_vector [OF sized_u_int, of 4] in simp_all)

lemma sized_fpstate [codec_laws]: "sized_codec (xdr_rpc_libc_fpstate inline) 648"
proof -
  have "sized_codec (xdr_pair xdr_u_short (xdr_pair xdr_u_short (xdr_pair xdr_u_short (xdr_pair xdr_u_short
       (xdr_pair xdr_u_hyper (xdr_pair xdr_u_hyper (xdr_pair xdr_u_int (xdr_pair xdr_u_int
         (xdr_pair (xdr_vector 8 xdr_rpc_libc_fpxreg)
           (xdr_pair (xdr_vector 16 (xdr_rpc_libc_xmmreg inline)) (xdr_vector 24 xdr_u_int)))))))))))
      (4 + (4 + (4 + (4 + (8 + (8 + (4 + (4 + (8 * 32 + (16 * 16 + 24 * 4))))))))))"
    by (intro codec_laws)
  then show ?thesis unfolding xdr_rpc_libc_fpstate_def by (intro sized_struct) simp_all
qed

lemma sized_mcontext [codec_laws]: "sized_codec (xdr_rpc_mcontext inline) 896"
proof -
  have "sized_codec (xdr_pair xdr_rpc_gregset_t (xdr_pair (xdr_rpc_libc_fpstate inline)
      (xdr_vector 8 xdr_u_hyper))) (23 * 8 + (648 + 8 * 8))"
    unfolding xdr_rpc_gregset_t_def by (intro codec_laws)
  then show ?thesis unfolding xdr_rpc_mcontext_def by (intro sized_struct) simp_all
qed

lemma codec_stack [codec_laws]: "codec xdr_rpc_stack_t"
  unfolding xdr_rpc_stack_t_def
  by (intro codec_struct codec_pair codec_bytes codec_sized [OF sized_int]) simp

interpretation ucontext_xdr: codec "xdr_rpc_ucontext inline" for inline
  unfolding xdr_rpc_ucontext_def
  by (intro codec_struct codec_pair codec_stack codec_sized [OF sized_u_hyper]
      codec_sized [OF sized_mcontext] codec_sized [OF sized_sigset] codec_sized [OF sized_fpstate]) simp

section \<open>Well-formed contexts\<close>

definition fpxreg_ok :: "rpc_libc_fpxreg \<Rightarrow> bool" where
  "fpxreg_ok v \<longleftrightarrow> length (fpx_significand v) = 4 \<and> length (fpx_padding v) = 3"

definition fpstate_ok :: "rpc_libc_fpstate \<Rightarrow> bool" where
  "fpstate_ok v \<longleftrightarrow> length (fp_st v) = 8 \<and> (\<forall>x \<in> set (fp_st v). fpxreg_ok x) \<and>
     length (fp_xmm v) = 16 \<and> (\<forall>x \<in> set (fp_xmm v). length (xmm_element x) = 4) \<and>
     length (fp_padding v) = 24"

definition ucontext_ok :: "rpc_ucontext \<Rightarrow> bool" where
  "ucontext_ok v \<longleftrightarrow> is_c_int (st_flags (ru_stack v)) \<and> length (st_sp (ru_stack v)) < 2 ^ 32 \<and>
     length (mc_gregs (ru_mcontext v)) = 23 \<and> fpstate_ok (mc_fpregs (ru_mcontext v)) \<and>
     length (mc_reserved1 (ru_mcontext v)) = 8 \<and> length (sig_val (ru_sigmask v)) = 16 \<and>
     fpstate_ok (ru_fpregs_mem v)"

definition puts :: "'a xdrproc \<Rightarrow> 'a \<Rightarrow> bool" where
  "puts p v \<longleftrightarrow> (\<exists>w. x_put p v = Some w)"

named_theorems puts_rules \<open>values that can be encoded\<close>

lemma puts_pair [puts_rules]: "puts p a \<Longrightarrow> puts q b \<Longrightarrow> puts (xdr_pair p q) (a, b)"
  by (auto simp: puts_def xdr_pair_def)

lemma puts_struct: "puts p (f v) \<Longrightarrow> puts (xdr_struct f g p) v"
  by (simp add: puts_def xdr_struct_def xdr_conv_def)

lemma puts_vector [puts_rules]:
  assumes "length xs = n" and "\<And>x. x \<in> set xs \<Longrightarrow> puts p x"
  shows "puts (xdr_vector n p) xs"
proof -
  have "\<exists>w. put_vector (x_put p) xs = Some w"
    using assms(2)
  proof (induction xs)
    case (Cons x xs)
    obtain u where "x_put p x = Some u" using Cons.prems [of x] by (auto simp: puts_def)
    moreover obtain v where "put_vector (x_put p) xs = Some v" using Cons by auto
    ultimately show ?case by simp
  qed simp
  with assms(1) show ?thesis by (simp add: puts_def xdr_vector_def)
qed

lemma puts_words [puts_rules]: "puts xdr_u_int a" "puts xdr_u_hyper b" "puts xdr_u_short c"
  by (simp_all add: puts_def xdr_u_int_def xdr_u_hyper_def xdr_u_short_def xdr_conv_def)

lemma puts_fpstate: "fpstate_ok v \<Longrightarrow> puts (xdr_rpc_libc_fpstate inline) v"
  unfolding xdr_rpc_libc_fpstate_def xdr_rpc_libc_fpxreg_def xdr_rpc_libc_xmmreg_def xmm_elements_vector
  by (intro puts_struct puts_rules) (auto simp: fpstate_ok_def fpxreg_ok_def)

lemma puts_ucontext: "ucontext_ok v \<Longrightarrow> puts (xdr_rpc_ucontext inline) v"
  unfolding xdr_rpc_ucontext_def xdr_rpc_stack_t_def xdr_rpc_mcontext_def xdr_rpc_gregset_t_def
    xdr_rpc_sigset_t_def
  by (intro puts_struct puts_rules puts_fpstate)
    (auto simp: ucontext_ok_def puts_def xdr_int_def xdr_conv_def xdr_u_int_def xdr_bytes_def)

text \<open>
  A context whose arrays have their declared lengths and whose stack is smaller than 4 GiB can be
  encoded, and decoding its encoding gives the same context, whichever path sender and
  receiver take for the SSE registers.
\<close>

theorem ucontext_roundtrip:
  assumes "ucontext_ok v"
  shows "\<exists>w. x_put (xdr_rpc_ucontext i) v = Some w \<and> x_get (xdr_rpc_ucontext j) (w @ r) = Some (v, r)"
proof -
  have "xdr_rpc_ucontext i = xdr_rpc_ucontext j"
    by (simp add: xdr_rpc_ucontext_def xdr_rpc_mcontext_def xdr_rpc_libc_fpstate_def
        xdr_rpc_libc_xmmreg_def xmm_elements_vector)
  with puts_ucontext [OF assms, of i] ucontext_xdr.get_put [of j v] show ?thesis
    by (auto simp: puts_def)
qed

definition sample_fpstate :: rpc_libc_fpstate where
  "sample_fpstate = \<lparr>fp_cwd = 895, fp_swd = 0, fp_ftw = 0, fp_fop = 0, fp_rip = 0, fp_rdp = 0,
     fp_mxcsr = 8064, fp_mxcr_mask = 65535,
     fp_st = replicate 8 \<lparr>fpx_significand = replicate 4 0, fpx_exponent = 0, fpx_padding = replicate 3 0\<rparr>,
     fp_xmm = replicate 16 \<lparr>xmm_element = [1, 2, 3, 4]\<rparr>, fp_padding = replicate 24 0\<rparr>"

definition sample_rpc_ucontext :: rpc_ucontext where
  "sample_rpc_ucontext = \<lparr>ru_flags = 7, ru_stack = \<lparr>st_flags = 0, st_sp = [1, 2, 3, 4, 5]\<rparr>,
     ru_mcontext = \<lparr>mc_gregs = replicate 23 9, mc_fpregs = sample_fpstate, mc_reserved1 = replicate 8 0\<rparr>,
     ru_sigmask = \<lparr>sig_val = replicate 16 0\<rparr>, ru_fpregs_mem = sample_fpstate\<rparr>"

theorem ucontext_roundtrip_witness:
  "\<exists>w. x_put (xdr_rpc_ucontext True) sample_rpc_ucontext = Some w \<and>
     x_get (xdr_rpc_ucontext False) (w @ [0]) = Some (sample_rpc_ucontext, [0])"
  by (rule ucontext_roundtrip)
    (simp add: sample_rpc_ucontext_def sample_fpstate_def ucontext_ok_def fpstate_ok_def fpxreg_ok_def
      is_c_int_def INT_MAX_def)

end
