(* ===== verification/Thread_Migrate.thy ===== *)
theory Thread_Migrate
  imports Thread_Msg Utility
begin

text \<open>
  Moving a thread to another machine: \<^verbatim>\<open>psu_thread_migrate\<close> of \<^verbatim>\<open>psu_thread.c\<close> packs the context and the
  stack, \<^verbatim>\<open>migrate_1_svc\<close> of \<^verbatim>\<open>psu_thread_server.c\<close> unpacks them and resumes the thread in a
  child process; between them lies the dispatcher of \<^verbatim>\<open>psu_thread_msg_svc.c\<close>. The structures of the C
  library (\<open>ucontext_t\<close>) and of the message have the same fields; the copies with
  \<open>memcpy\<close> are copies of fields.
\<close>

section \<open>State of a thread\<close>

definition REG_RBP :: nat where "REG_RBP = 10"
definition REG_RSP :: nat where "REG_RSP = 15"

record ucontext_t =
  uc_flags :: u64
  uc_ss_flags :: int
  uc_ss_sp :: u64
  uc_ss_size :: nat
  uc_gregs :: "u64 list"
  uc_fpregs :: rpc_libc_fpstate
  uc_reserved1 :: "u64 list"
  uc_sigmask :: rpc_sigset_t
  uc_fpregs_mem :: rpc_libc_fpstate

text \<open>
  A running thread: what \<open>getcontext\<close> reports, the address of its stack and the bytes on it.
\<close>

record thread =
  th_context :: ucontext_t
  th_stack_addr :: u64
  th_stack :: "byte list"

definition THREAD_STACK :: nat where "THREAD_STACK = 1024 * 1024"

text \<open>
  The stack that \<^verbatim>\<open>psu_thread_create\<close> allocates has one megabyte. When \<open>malloc\<close> fails, the null pointer is
  refused by \<open>pthread_attr_setstack\<close>, whose result is ignored, and the thread gets the library's
  default stack. \<open>mem\<close> is the memory, \<open>context\<close> the context in which the new thread starts.
\<close>

definition psu_thread_create ::
    "(u64 \<Rightarrow> byte) \<Rightarrow> u64 option \<Rightarrow> u64 \<times> nat \<Rightarrow> ucontext_t \<Rightarrow> thread" where
  "psu_thread_create mem malloc default_stack context =
     (let (stack, sz) = (case malloc of Some a \<Rightarrow> (a, THREAD_STACK) | None \<Rightarrow> default_stack) in
      \<lparr>th_context = context, th_stack_addr = stack,
       th_stack = map (\<lambda>i. mem (stack + of_nat i)) [0..<sz]\<rparr>)"

section \<open>Sending\<close>

definition to_u_int :: "nat \<Rightarrow> nat" where
  "to_u_int n = n mod 2 ^ 32"

text \<open>The length of the stack is converted to \<open>u_int\<close>; that many bytes are sent.\<close>

definition pack_context :: "thread \<Rightarrow> rpc_ucontext" where
  "pack_context th =
     (let context = (th_context th)\<lparr>uc_ss_sp := th_stack_addr th, uc_ss_size := length (th_stack th)\<rparr> in
      \<lparr>ru_flags = uc_flags context,
       ru_stack = \<lparr>st_flags = uc_ss_flags context, st_sp = take (to_u_int (uc_ss_size context)) (th_stack th)\<rparr>,
       ru_mcontext = \<lparr>mc_gregs = uc_gregs context, mc_fpregs = uc_fpregs context,
          mc_reserved1 = uc_reserved1 context\<rparr>,
       ru_sigmask = uc_sigmask context, ru_fpregs_mem = uc_fpregs_mem context\<rparr>)"

text \<open>
  The function is entered twice: on the old machine with \<open>has_migrated\<close> false, and, when the context
  is resumed, right after \<open>getcontext\<close>. The thread that sent itself away ends.
\<close>

datatype migrate_result =
    Returned_1
  | Sent_and_exited "(nat \<times> byte list) option"

definition migrate_1 :: "bool \<Rightarrow> rpc_ucontext \<Rightarrow> (nat \<times> byte list) option" where
  "migrate_1 inline argp = map_option (\<lambda>w. (1, w)) (x_put (xdr_rpc_ucontext inline) argp)"

definition psu_thread_migrate :: "(string \<Rightarrow> 'c option) \<Rightarrow> bool \<Rightarrow> bool \<Rightarrow> string \<Rightarrow> thread \<Rightarrow> migrate_result outcome" where
  "psu_thread_migrate clnt_create inline has_migrated node th =
     (if has_migrated then Inr Returned_1
      else case create_client clnt_create node of
        Inl f \<Rightarrow> Inl f
      | Inr client \<Rightarrow> Inr (Sent_and_exited (migrate_1 inline (pack_context th))))"

section \<open>Receiving\<close>

text \<open>
  A number that is not a procedure leaves the thread data unwritten, and the dispatcher starts a
  thread with it; an argument that cannot be decoded ends the process.
\<close>

definition thread_parse :: "bool \<Rightarrow> nat \<Rightarrow> byte list \<Rightarrow> rpc_ucontext outcome" where
  "thread_parse inline rq_proc bs =
     (if rq_proc = 1 then
        (case x_get (xdr_rpc_ucontext inline) bs of
           None \<Rightarrow> Inl Exit_failure
         | Some (context, _) \<Rightarrow> Inr context)
      else Inl Uninitialised_read)"

definition thread_run :: "bool \<Rightarrow> nat \<Rightarrow> byte list \<Rightarrow> rpc_ucontext dispatched outcome" where
  "thread_run inline rq_proc bs = dispatcher (thread_parse inline) rq_proc bs"

text \<open>\<open>sp_val\<close> is the address of the buffer the filter has allocated for the stack.\<close>

definition resumed :: "u64 \<Rightarrow> rpc_ucontext \<Rightarrow> thread" where
  "resumed sp_val context =
     (let cont = \<lparr>uc_flags = ru_flags context, uc_ss_flags = st_flags (ru_stack context),
            uc_ss_sp = sp_val, uc_ss_size = length (st_sp (ru_stack context)),
            uc_gregs = mc_gregs (ru_mcontext context), uc_fpregs = mc_fpregs (ru_mcontext context),
            uc_reserved1 = mc_reserved1 (ru_mcontext context), uc_sigmask = ru_sigmask context,
            uc_fpregs_mem = ru_fpregs_mem context\<rparr> in
      \<lparr>th_context = cont\<lparr>uc_gregs := (uc_gregs cont)[REG_RSP := uc_ss_sp cont]\<rparr>,
       th_stack_addr = sp_val, th_stack = st_sp (ru_stack context)\<rparr>)"

text \<open>
  The procedure returns true in the parent, whether or not there is a child; the child continues in the
  received context. The second component lists the threads that run on this machine now.
\<close>

definition migrate_1_svc :: "bool \<Rightarrow> u64 \<Rightarrow> rpc_ucontext \<Rightarrow> bool \<times> thread list" where
  "migrate_1_svc forked sp_val context = (True, if forked then [resumed sp_val context] else [])"

section \<open>Properties\<close>

definition thread_ok :: "thread \<Rightarrow> bool" where
  "thread_ok th \<longleftrightarrow> is_c_int (uc_ss_flags (th_context th)) \<and> length (uc_gregs (th_context th)) = 23 \<and>
     fpstate_ok (uc_fpregs (th_context th)) \<and> length (uc_reserved1 (th_context th)) = 8 \<and>
     length (sig_val (uc_sigmask (th_context th))) = 16 \<and> fpstate_ok (uc_fpregs_mem (th_context th))"

lemma pack_context_ok: "thread_ok th \<Longrightarrow> ucontext_ok (pack_context th)"
  by (simp add: thread_ok_def ucontext_ok_def pack_context_def Let_def to_u_int_def)

lemma pack_stack: "length (th_stack th) < 2 ^ 32 \<Longrightarrow> st_sp (ru_stack (pack_context th)) = th_stack th"
  by (simp add: pack_context_def Let_def to_u_int_def)

lemma length_created: "malloc = Some a \<Longrightarrow> length (th_stack (psu_thread_create mem malloc ds ctx)) = THREAD_STACK"
  by (simp add: psu_thread_create_def)

lemma resumed_pack:
  assumes "length (th_stack th) < 2 ^ 32"
  shows "resumed sp_val (pack_context th) =
      \<lparr>th_context = (th_context th)\<lparr>uc_ss_sp := sp_val, uc_ss_size := length (th_stack th),
         uc_gregs := (uc_gregs (th_context th))[REG_RSP := sp_val]\<rparr>,
       th_stack_addr = sp_val, th_stack = th_stack th\<rparr>"
  using pack_stack [OF assms] by (cases "th_context th") (simp add: resumed_def pack_context_def Let_def)

lemma migrate_travels:
  assumes "thread_ok th"
  shows "\<exists>w. migrate_1 i (pack_context th) = Some (1, w) \<and> thread_run j 1 w = Inr (Spawned (pack_context th))"
proof -
  have same: "xdr_rpc_ucontext i = xdr_rpc_ucontext j"
    by (simp add: xdr_rpc_ucontext_def xdr_rpc_mcontext_def xdr_rpc_libc_fpstate_def
        xdr_rpc_libc_xmmreg_def xmm_elements_vector)
  obtain w where w: "x_put (xdr_rpc_ucontext i) (pack_context th) = Some w"
    using puts_ucontext [OF pack_context_ok [OF assms]] by (auto simp: puts_def)
  then have "x_get (xdr_rpc_ucontext j) w = Some (pack_context th, [])"
    using ucontext_xdr.get_put [of j "pack_context th" w "[]"] same by simp
  with w show ?thesis by (simp add: migrate_1_def thread_run_def dispatcher_def thread_parse_def)
qed

text \<open>
  C37. A thread that migrates arrives: the message it sends is dispatched and decoded to a context from
  which the server rebuilds the stack byte for byte, the signal mask, the floating-point state and all
  general registers but the stack pointer, which is set to the start of the new stack. When the
  server cannot fork, it answers with success all the same, and the thread, which has ended on
  its old machine, runs nowhere.
\<close>

theorem migration_preserves_thread:
  assumes "thread_ok th" and "length (th_stack th) < 2 ^ 32" and "clnt_create node = Some client"
  shows "\<exists>proc w context. psu_thread_migrate clnt_create i False node th = Inr (Sent_and_exited (Some (proc, w))) \<and>
    thread_run j proc w = Inr (Spawned context) \<and>
    migrate_1_svc forked sp_val context = (True, if forked then
      [\<lparr>th_context = (th_context th)\<lparr>uc_ss_sp := sp_val, uc_ss_size := length (th_stack th),
         uc_gregs := (uc_gregs (th_context th))[REG_RSP := sp_val]\<rparr>,
       th_stack_addr = sp_val, th_stack = th_stack th\<rparr>] else [])"
proof -
  obtain w where "migrate_1 i (pack_context th) = Some (1, w)" "thread_run j 1 w = Inr (Spawned (pack_context th))"
    using migrate_travels [OF assms(1)] by blast
  then show ?thesis
    using assms(3) resumed_pack [OF assms(2), of sp_val]
    by (simp add: psu_thread_migrate_def create_client_def migrate_1_svc_def)
qed

definition sample_context :: ucontext_t where
  "sample_context =
     \<lparr>uc_flags = 7, uc_ss_flags = 0, uc_ss_sp = 0, uc_ss_size = 0,
       uc_gregs = (replicate 23 0)[REG_RSP := 5000, REG_RBP := 5008], uc_fpregs = sample_fpstate,
       uc_reserved1 = replicate 8 0, uc_sigmask = \<lparr>sig_val = replicate 16 0\<rparr>, uc_fpregs_mem = sample_fpstate\<rparr>"

definition sample_thread :: thread where
  "sample_thread = psu_thread_create (\<lambda>a. 0) (Some 4096) (0, 0) sample_context"

lemma sample_thread_ok: "thread_ok sample_thread" "length (th_stack sample_thread) < 2 ^ 32"
  by (simp_all add: sample_thread_def sample_context_def thread_ok_def sample_fpstate_def fpstate_ok_def fpxreg_ok_def
      is_c_int_def INT_MAX_def THREAD_STACK_def psu_thread_create_def)

theorem migration_preserves_thread_witness:
  "\<exists>proc w context. psu_thread_migrate (\<lambda>h. Some ()) True False ''10.0.0.6'' sample_thread =
      Inr (Sent_and_exited (Some (proc, w))) \<and>
    thread_run True proc w = Inr (Spawned context) \<and>
    map (\<lambda>th. length (th_stack th)) (snd (migrate_1_svc True 8192 context)) = [THREAD_STACK]"
proof -
  have "length (th_stack sample_thread) = THREAD_STACK" by (simp add: sample_thread_def psu_thread_create_def)
  then show ?thesis
    using migration_preserves_thread [OF sample_thread_ok, of "\<lambda>h. Some ()" "''10.0.0.6''" "()" True True True 8192]
    by fastforce
qed

text \<open>
  The stack pointer of the resumed thread is the lowest address of the copied stack; it is the old one moved along with
  the stack if and only if the thread stood exactly at the lowest address. The frame pointer still holds an
  address of the old machine.
\<close>

lemma migrated_stack_pointer_wrong:
  assumes "thread_ok th" and "th' = resumed sp_val (pack_context th)"
    and "rsp = uc_gregs (th_context th) ! REG_RSP"
  shows "(uc_gregs (th_context th') ! REG_RSP = sp_val + (rsp - th_stack_addr th) \<longleftrightarrow> rsp = th_stack_addr th) \<and>
    uc_gregs (th_context th') ! REG_RBP = uc_gregs (th_context th) ! REG_RBP"
proof -
  have g: "uc_gregs (th_context th') = (uc_gregs (th_context th))[REG_RSP := sp_val]"
    by (simp add: assms(2) resumed_def pack_context_def Let_def)
  have "length (uc_gregs (th_context th)) = 23" using assms(1) by (simp add: thread_ok_def)
  then have "uc_gregs (th_context th') ! REG_RSP = sp_val"
    "uc_gregs (th_context th') ! REG_RBP = uc_gregs (th_context th) ! REG_RBP"
    by (simp_all add: g REG_RSP_def REG_RBP_def)
  moreover have "sp_val = sp_val + (rsp - th_stack_addr th) \<longleftrightarrow> rsp = th_stack_addr th" by simp
  ultimately show ?thesis by simp
qed

text \<open>
  A stack of 4 GiB or more is cut: only its size modulo \<open>2 ^ 32\<close> arrives.
\<close>

theorem large_stack_truncated:
  "length (th_stack (resumed sp_val (pack_context th))) = length (th_stack th) mod 2 ^ 32"
proof -
  have "length (th_stack th) mod 2 ^ 32 \<le> length (th_stack th)" by (rule mod_less_eq_dividend)
  then show ?thesis by (simp add: resumed_def pack_context_def Let_def to_u_int_def min_def)
qed

end
