(* ===== verification/Services.thy ===== *)
theory Services
  imports Rpc_Service Lock_Init Dsm_Server Thread_Migrate
begin

text \<open>
  The functions \<open>main\<close> of the three servers, \<^verbatim>\<open>psu_dist_lock_mgr_msg_svc.c\<close>, \<^verbatim>\<open>psu_dsm_msg_svc.c\<close> and
  \<^verbatim>\<open>psu_thread_msg_svc.c\<close> (there \<^verbatim>\<open>main_svc\<close>), up to the call of \<open>svc_run\<close>, in which a server stays.
\<close>

section \<open>Program numbers\<close>

definition PSU_DIST_LOCK_MGR :: nat where "PSU_DIST_LOCK_MGR = 0x2ffffff"
definition PSU_DIST_LOCK_MGR_V1 :: nat where "PSU_DIST_LOCK_MGR_V1 = 1"
definition PSU_DSM :: nat where "PSU_DSM = 0x20002234"
definition PSU_DSM_VERS :: nat where "PSU_DSM_VERS = 1"
definition PSU_THREAD :: nat where "PSU_THREAD = 0x3ffffff"
definition PSU_THREAD_V1 :: nat where "PSU_THREAD_V1 = 1"

lemmas program_numbers = PSU_DIST_LOCK_MGR_def PSU_DIST_LOCK_MGR_V1_def PSU_DSM_def PSU_DSM_VERS_def
  PSU_THREAD_def PSU_THREAD_V1_def

section \<open>The three servers\<close>

definition lock_main ::
    "ifaddrs option \<Rightarrow> (proto \<Rightarrow> nat option) \<Rightarrow> portmap option \<Rightarrow> server boot" where
  "lock_main getifaddrs svc_create rpcbind =
     then_init
       (start_service PSU_DIST_LOCK_MGR PSU_DIST_LOCK_MGR_V1 ''PSU_DIST_LOCK_MGR, PSU_DIST_LOCK_MGR_V1''
          Lock_run svc_create rpcbind)
       (initialize_global_variable getifaddrs)"

text \<open>The machine's address, which \<^verbatim>\<open>main\<close> prints, is read again by every procedure that needs it.\<close>

definition dsm_main ::
    "byte \<times> byte \<times> byte \<times> byte \<Rightarrow> (proto \<Rightarrow> nat option) \<Rightarrow> portmap option \<Rightarrow> dsm_host boot" where
  "dsm_main eth0 svc_create rpcbind =
     then_init
       (start_service PSU_DSM PSU_DSM_VERS ''PSU_DSM, PSU_DSM_VERS'' Psu_dsm_1 svc_create rpcbind)
       (Inr (dsm_init (c_str (get_local_ipaddr eth0))))"

definition main_svc :: "(proto \<Rightarrow> nat option) \<Rightarrow> portmap option \<Rightarrow> unit boot" where
  "main_svc svc_create rpcbind =
     then_init
       (start_service PSU_THREAD PSU_THREAD_V1 ''PSU_THREAD, PSU_THREAD_V1'' Thread_run svc_create rpcbind)
       (Inr ())"

interpretation lock_service: rpc_server "lock_main getifaddrs" PSU_DIST_LOCK_MGR PSU_DIST_LOCK_MGR_V1
  "''PSU_DIST_LOCK_MGR, PSU_DIST_LOCK_MGR_V1''" Lock_run "initialize_global_variable getifaddrs" for getifaddrs
  by unfold_locales (simp add: lock_main_def)

interpretation dsm_service: rpc_server "dsm_main eth0" PSU_DSM PSU_DSM_VERS "''PSU_DSM, PSU_DSM_VERS''"
  Psu_dsm_1 "Inr (dsm_init (c_str (get_local_ipaddr eth0)))" for eth0
  by unfold_locales (simp add: dsm_main_def)

interpretation thread_service: rpc_server main_svc PSU_THREAD PSU_THREAD_V1 "''PSU_THREAD, PSU_THREAD_V1''"
  Thread_run "Inr ()"
  by unfold_locales (simp add: main_svc_def)

section \<open>Properties\<close>

text \<open>
  C23. The three servers share a machine: started one after the other with any table in the port mapper,
  whatever earlier processes have left in it, all three serve, every client that asks the port
  mapper for one of them gets a port of that server, on which its dispatch function answers, and
  the entries of other programs are as before.
\<close>

theorem services_share_machine:
  assumes "initialize_global_variable getifaddrs = Inr srv"
    and "\<forall>p. svc_create1 p \<noteq> None" and "\<forall>p. svc_create2 p \<noteq> None" and "\<forall>p. svc_create3 p \<noteq> None"
  shows "\<exists>cs1 cs2 cs3 pm1 pm2 pm3. lock_main getifaddrs svc_create1 (Some pm) = Serving srv cs1 (Some pm1) \<and>
    dsm_main eth0 svc_create2 (Some pm1) = Serving (dsm_init (c_str (get_local_ipaddr eth0))) cs2 (Some pm2) \<and>
    main_svc svc_create3 (Some pm2) = Serving () cs3 (Some pm3) \<and>
    (\<forall>r. pmap_getport PSU_DIST_LOCK_MGR PSU_DIST_LOCK_MGR_V1 r (Some pm3) = svc_create1 r \<and>
         pmap_getport PSU_DSM PSU_DSM_VERS r (Some pm3) = svc_create2 r \<and>
         pmap_getport PSU_THREAD PSU_THREAD_V1 r (Some pm3) = svc_create3 r) \<and>
    map_of cs1 (PSU_DIST_LOCK_MGR, PSU_DIST_LOCK_MGR_V1) = Some Lock_run \<and>
    map_of cs2 (PSU_DSM, PSU_DSM_VERS) = Some Psu_dsm_1 \<and>
    map_of cs3 (PSU_THREAD, PSU_THREAD_V1) = Some Thread_run \<and>
    (\<forall>p v r. p \<notin> {PSU_DIST_LOCK_MGR, PSU_DSM, PSU_THREAD} \<longrightarrow> pm3 (p, v, r) = pm (p, v, r))"
proof -
  obtain u1 t1 u2 t2 u3 t3 where c: "svc_create1 UDP = Some u1" "svc_create1 TCP = Some t1"
      "svc_create2 UDP = Some u2" "svc_create2 TCP = Some t2" "svc_create3 UDP = Some u3" "svc_create3 TCP = Some t3"
    using assms(2-4) by (metis not_Some_eq)
  let ?lock = "(PSU_DIST_LOCK_MGR, PSU_DIST_LOCK_MGR_V1)" and ?dsm = "(PSU_DSM, PSU_DSM_VERS)"
    and ?thread = "(PSU_THREAD, PSU_THREAD_V1)"
  let ?reg = "\<lambda>prog vers (u :: nat) t pm. (without prog vers pm)((prog, vers, UDP) \<mapsto> u, (prog, vers, TCP) \<mapsto> t)"
  let ?pm1 = "?reg PSU_DIST_LOCK_MGR PSU_DIST_LOCK_MGR_V1 u1 t1 pm"
  let ?pm2 = "?reg PSU_DSM PSU_DSM_VERS u2 t2 ?pm1"
  let ?pm3 = "?reg PSU_THREAD PSU_THREAD_V1 u3 t3 ?pm2"
  have "pmap_getport PSU_DIST_LOCK_MGR PSU_DIST_LOCK_MGR_V1 r (Some ?pm3) = svc_create1 r \<and>
      pmap_getport PSU_DSM PSU_DSM_VERS r (Some ?pm3) = svc_create2 r \<and>
      pmap_getport PSU_THREAD PSU_THREAD_V1 r (Some ?pm3) = svc_create3 r" for r
    by (cases r) (simp_all add: c program_numbers pmap_getport_def without_def)
  moreover have "\<forall>p v r. p \<notin> {PSU_DIST_LOCK_MGR, PSU_DSM, PSU_THREAD} \<longrightarrow> ?pm3 (p, v, r) = pm (p, v, r)"
    by (simp add: without_def)
  moreover note lock_service.serves [OF c(1,2) assms(1), of pm] dsm_service.serves [OF c(3,4) refl, of eth0 ?pm1]
    thread_service.serves [OF c(5,6) refl, of ?pm2]
  ultimately show ?thesis
    by (intro exI [of _ "[(?lock, Lock_run)]"] exI [of _ "[(?dsm, Psu_dsm_1)]"] exI [of _ "[(?thread, Thread_run)]"]
        exI [of _ ?pm1] exI [of _ ?pm2] exI [of _ ?pm3]) simp
qed

theorem services_share_machine_witness:
  "\<exists>cs1 cs2 cs3 pm1 pm2 pm3. lock_main (Some (pair_ifs 5)) (\<lambda>p. Some 700) (Some Map.empty) =
      Serving \<lparr>nodes = [], mac = 2199023255557, has_initialized = False, lockvar_list = [], mutexes = []\<rparr> cs1 (Some pm1) \<and>
    dsm_main (10, 0, 0, 5) (\<lambda>p. Some 701) (Some pm1) = Serving (dsm_init ''10.0.0.5'') cs2 (Some pm2) \<and>
    main_svc (\<lambda>p. Some 702) (Some pm2) = Serving () cs3 (Some pm3) \<and>
    pmap_getport PSU_DIST_LOCK_MGR PSU_DIST_LOCK_MGR_V1 TCP (Some pm3) = Some 700"
proof -
  have "initialize_global_variable (Some (pair_ifs 5)) =
      Inr \<lparr>nodes = [], mac = 2199023255557, has_initialized = False, lockvar_list = [], mutexes = []\<rparr>"
    by (simp add: initialize_global_variable_def pair_mac)
  moreover have "c_str (get_local_ipaddr (10, 0, 0, 5)) = ''10.0.0.5''"
    by (simp add: get_local_ipaddr_def c_str_strncpy IP_LEN_def inet_ntop_def decimal.simps char_of_def bit_iff_odd)
  ultimately show ?thesis
    using services_share_machine [of "Some (pair_ifs 5)" _ "\<lambda>p. Some 700" "\<lambda>p. Some 701" "\<lambda>p. Some 702" Map.empty "(10, 0, 0, 5)"]
    by fastforce
qed

text \<open>
  C24. How the lock server's \<^verbatim>\<open>main\<close> ends, on every branch. The registration itself never fails with a running
  port mapper, since stale entries are removed first. A start that fails later leaves what it has
  registered: clients are sent to a port nobody serves until the next start.
\<close>

theorem lock_main_branches:
  "lock_main getifaddrs svc_create None = Stopped
     (if svc_create UDP = None then ''cannot create udp service.''
      else ''unable to register (PSU_DIST_LOCK_MGR, PSU_DIST_LOCK_MGR_V1, udp).'') None \<and>
   (let b = lock_main getifaddrs svc_create (Some pm);
        getport = (\<lambda>r. pmap_getport PSU_DIST_LOCK_MGR PSU_DIST_LOCK_MGR_V1 r (left_behind b)) in
    case (svc_create UDP, svc_create TCP, initialize_global_variable getifaddrs) of
      (None, _, _) \<Rightarrow> (\<exists>pm'. b = Stopped ''cannot create udp service.'' (Some pm')) \<and> getport UDP = None \<and> getport TCP = None
    | (Some u, None, _) \<Rightarrow>
        (\<exists>pm'. b = Stopped ''cannot create tcp service.'' (Some pm')) \<and> getport UDP = Some u \<and> getport TCP = None
    | (Some u, Some t, Inl f) \<Rightarrow> (\<exists>pm'. b = Faulted f (Some pm')) \<and> getport UDP = Some u \<and> getport TCP = Some t
    | (Some u, Some t, Inr srv) \<Rightarrow>
        (\<exists>cs pm'. b = Serving srv cs (Some pm')) \<and> getport UDP = Some u \<and> getport TCP = Some t)"
proof -
  have "lock_main getifaddrs svc_create None = Stopped
     (if svc_create UDP = None then ''cannot create udp service.''
      else ''unable to register (PSU_DIST_LOCK_MGR, PSU_DIST_LOCK_MGR_V1, udp).'') None"
    by (simp add: lock_main_def then_init_def start_service_no_portmapper)
  then show ?thesis
    by (auto simp: lock_main_def then_init_def start_service_cases pmap_getport_def without_def Let_def
        split: option.splits sum.splits)
qed

end
