(* ===== verification/Thread_Test.thy ===== *)
theory Thread_Test
  imports Services
begin

text \<open>
  The test program of the thread migrator, \<^verbatim>\<open>psu_thread_test.c\<close>, at both ends of a migration.
\<close>

section \<open>The program\<close>

text \<open>\<open>gethostname\<close> is the name of the machine, or its failure.\<close>

definition print_hostname :: "string option \<Rightarrow> string outcome" where
  "print_hostname gethostname =
     (case gethostname of None \<Rightarrow> Inl Exit_failure | Some buffer \<Rightarrow> Inr (''Hostname: '' @ buffer))"

text \<open>
  The thread function up to the call that moves it: the lines it prints on the first machine, and what
  \<^verbatim>\<open>psu_thread_migrate\<close> does.
\<close>

definition foo ::
    "string option \<Rightarrow> (string \<Rightarrow> 'c option) \<Rightarrow> bool \<Rightarrow> string \<Rightarrow> thread \<Rightarrow> (string list \<times> migrate_result) outcome" where
  "foo gethostname clnt_create inline remote th =
     (case print_hostname gethostname of
        Inl f \<Rightarrow> Inl f
      | Inr line \<Rightarrow> map_sum id (Pair [line, ''Foo:Hello.....'']) (psu_thread_migrate clnt_create inline False remote th))"

definition strcpy :: "nat \<Rightarrow> string \<Rightarrow> string outcome" where
  "strcpy cap src = strcat cap [] src"

text \<open>
  One program for both ends: with the argument \<open>server\<close> it becomes the server of \<open>Services\<close>, which
  does not return, otherwise it creates the thread, which runs \<open>foo\<close>, and waits for it. The arguments \<open>mem\<close>, \<open>malloc\<close>,
  \<open>default_stack\<close> and \<open>context\<close> are those of \<^verbatim>\<open>psu_thread_create\<close>.
\<close>

datatype thread_test =
    Server_end "unit boot"
  | Client_end "string list" migrate_result

definition thread_test_main ::
    "(proto \<Rightarrow> nat option) \<Rightarrow> portmap option \<Rightarrow> string option \<Rightarrow> (string \<Rightarrow> 'c option) \<Rightarrow> bool \<Rightarrow>
      (u64 \<Rightarrow> byte) \<Rightarrow> u64 option \<Rightarrow> u64 \<times> nat \<Rightarrow> ucontext_t \<Rightarrow> string list \<Rightarrow> thread_test outcome" where
  "thread_test_main svc_create rpcbind gethostname clnt_create inline mem malloc default_stack context argv =
     (if length argv < 2 then Inl Exit_failure
      else if argv ! 1 = ''server'' then Inr (Server_end (main_svc svc_create rpcbind))
      else case strcpy 255 (argv ! 1) of
        Inl f \<Rightarrow> Inl f
      | Inr remote \<Rightarrow> map_sum id (\<lambda>(lines, r). Client_end lines r)
          (foo gethostname clnt_create inline remote (psu_thread_create mem malloc default_stack context)))"

lemma main_svc_serving:
  assumes "main_svc svc_create (Some pm) = Serving () cs (Some pm')"
  shows "map_of cs (PSU_THREAD, PSU_THREAD_V1) = Some Thread_run \<and>
    (\<exists>port. pmap_getport PSU_THREAD PSU_THREAD_V1 TCP (Some pm') = Some port)"
  using thread_service.serving_ports [OF assms] thread_service.serving_iff [of svc_create pm] assms
  by (auto simp: pmap_getport_def)

text \<open>
  C39. The test of the thread migrator on two machines. One runs the program as server; the other is given
  the address of the first, shorter than 255 characters, asks its port mapper for the service and starts
  a thread with the stack of \<^verbatim>\<open>psu_thread_create\<close>. Then the thread prints its two lines, the server decodes
  its message, and when it can fork, exactly one thread runs there, with the same stack, frame pointer and
  floating-point state; the thread on the first machine has ended.
\<close>

theorem thread_test_migrates:
  assumes "thread_test_main svc_create (Some pm) name1 (\<lambda>node. None :: nat option) inline1
      mem1 malloc1 dflt1 context1 [prog, ''server''] =
      Inr (Server_end (Serving () cs (Some pm')))"
    and "remote \<noteq> ''server''" and "length remote < 255"
    and "clnt_create remote = pmap_getport PSU_THREAD PSU_THREAD_V1 TCP (Some pm')"
    and "th = psu_thread_create mem (Some stack) dflt context" and "thread_ok th"
  shows "\<exists>proc w received. thread_test_main svc_create2 rpcbind2 (Some name) clnt_create inline mem (Some stack) dflt context (prog # remote # args) =
      Inr (Client_end [''Hostname: '' @ name, ''Foo:Hello.....''] (Sent_and_exited (Some (proc, w)))) \<and>
    map_of cs (PSU_THREAD, PSU_THREAD_V1) = Some Thread_run \<and>
    thread_run inline1 proc w = Inr (Spawned received) \<and>
    (\<exists>th'. migrate_1_svc True sp_val received = (True, [th']) \<and> th_stack th' = th_stack th \<and>
      length (th_stack th') = THREAD_STACK \<and> uc_fpregs (th_context th') = uc_fpregs (th_context th) \<and>
      uc_gregs (th_context th') ! REG_RBP = uc_gregs (th_context th) ! REG_RBP)"
proof -
  have "main_svc svc_create (Some pm) = Serving () cs (Some pm')" using assms(1) by (simp add: thread_test_main_def)
  from main_svc_serving [OF this] obtain port
    where cs: "map_of cs (PSU_THREAD, PSU_THREAD_V1) = Some Thread_run" and "clnt_create remote = Some port"
    using assms(4) by auto
  moreover obtain w where w: "migrate_1 inline (pack_context th) = Some (1, w)"
      "thread_run inline1 1 w = Inr (Spawned (pack_context th))"
    using migrate_travels [OF assms(6)] by blast
  ultimately have "thread_test_main svc_create2 rpcbind2 (Some name) clnt_create inline mem (Some stack) dflt context (prog # remote # args) =
      Inr (Client_end [''Hostname: '' @ name, ''Foo:Hello.....''] (Sent_and_exited (Some (1, w))))"
    using assms(2,3,5) by (simp add: thread_test_main_def strcpy_def strcat_def foo_def print_hostname_def
        psu_thread_migrate_def create_client_def)
  moreover have len: "length (th_stack th) = THREAD_STACK" using length_created assms(5) by blast
  moreover have "migrate_1_svc True sp_val (pack_context th) = (True, [resumed sp_val (pack_context th)])"
    by (simp add: migrate_1_svc_def)
  moreover have "resumed sp_val (pack_context th) =
      \<lparr>th_context = (th_context th)\<lparr>uc_ss_sp := sp_val, uc_ss_size := length (th_stack th),
         uc_gregs := (uc_gregs (th_context th))[REG_RSP := sp_val]\<rparr>,
       th_stack_addr = sp_val, th_stack = th_stack th\<rparr>"
    by (rule resumed_pack) (use len in \<open>simp add: THREAD_STACK_def\<close>)
  ultimately show ?thesis
    using cs w(2) by (intro exI [of _ 1] exI [of _ w] exI [of _ "pack_context th"])
      (simp add: REG_RSP_def REG_RBP_def)
qed

theorem thread_test_migrates_witness:
  "\<exists>cs pm' proc w. thread_test_main (\<lambda>p. Some 700) (Some Map.empty) None (\<lambda>node. None :: nat option) True (\<lambda>a. 0) None (0, 0)
       sample_context [''test'', ''server''] = Inr (Server_end (Serving () cs (Some pm'))) \<and>
     thread_test_main (\<lambda>p. None) None (Some ''alpha'') (\<lambda>node. pmap_getport PSU_THREAD PSU_THREAD_V1 TCP (Some pm')) True
       (\<lambda>a. 0) (Some 4096) (0, 0) sample_context [''test'', ''10.0.0.6''] =
         Inr (Client_end [''Hostname: alpha'', ''Foo:Hello.....''] (Sent_and_exited (Some (proc, w))))"
proof -
  obtain cs pm' where m: "main_svc (\<lambda>p. Some 700) (Some Map.empty) = Serving () cs (Some pm')"
    using thread_service.serves [of "\<lambda>p. Some 700" 700 700 "()" Map.empty] by auto
  then have s: "thread_test_main (\<lambda>p. Some 700) (Some Map.empty) None (\<lambda>node. None :: nat option) True (\<lambda>a. 0) None (0, 0)
      sample_context [''test'', ''server''] = Inr (Server_end (Serving () cs (Some pm')))" by (simp add: thread_test_main_def)
  have "\<exists>proc w received. thread_test_main (\<lambda>p. None) None (Some ''alpha'')
      (\<lambda>node. pmap_getport PSU_THREAD PSU_THREAD_V1 TCP (Some pm')) True
      (\<lambda>a. 0) (Some 4096) (0, 0) sample_context [''test'', ''10.0.0.6''] =
        Inr (Client_end [''Hostname: '' @ ''alpha'', ''Foo:Hello.....''] (Sent_and_exited (Some (proc, w))))"
    using thread_test_migrates [OF s _ _ refl sample_thread_def sample_thread_ok(1), of "''10.0.0.6''" "\<lambda>p. None" None
        "''alpha''" True "[]" 8192]
    by auto
  with s show ?thesis by auto
qed

end
