(* ===== verification/Spec2Isabelle.thy ===== *)
theory Spec2Isabelle
  imports Lock_Handover Lock_Test Lock_Application Dsm_Test Dsm_Heap Dsm_Wire Dsm_Concurrent Thread_Test
begin

text \<open>
  A verification of the programs in \<^verbatim>\<open>src/\<close>: a distributed lock manager, a distributed shared
  memory and a thread migrator, each a server and a client library that talk over Sun RPC.

  \<^bold>\<open>Parts of the program.\<close> On every machine runs a lock server (\<^verbatim>\<open>psu_dist_lock_mgr_server.c\<close>) that
  starts a thread per remote call (\<^verbatim>\<open>dispatcher\<close> in \<^verbatim>\<open>utility.c\<close>); before a client gets a lock, its server asks the servers of
  all other machines, which answer or defer their answer by comparing sequence numbers and hardware addresses. Client
  threads reach the server of their machine through \<^verbatim>\<open>psu_dist_lock_mgr.c\<close>. A
  shared memory server (\<^verbatim>\<open>psu_dsm_server.c\<close>, \<^verbatim>\<open>util.c\<close>) keeps a directory of pages and maps them with
  \<open>shmget\<close>; its client library is \<^verbatim>\<open>psu_dsm.c\<close>. The migrator packs the context and stack of a
  thread (\<^verbatim>\<open>psu_thread.c\<close>), sends them and resumes the thread in a child of the other machine's server
  (\<^verbatim>\<open>psu_thread_server.c\<close>). Messages are encoded by the filters of the files \<^verbatim>\<open>*_msg_xdr.c\<close>, sent by the
  stubs of \<^verbatim>\<open>*_msg_clnt.c\<close> and dispatched in \<^verbatim>\<open>*_msg_svc.c\<close>.

  \<^bold>\<open>Theories.\<close>
  \<^item> \<^verbatim>\<open>Prelude\<close>: machine types, faults of a C function, request stamps, and the locales \<open>invariant_system\<close>
    and \<open>stuttering_refinement\<close> through which step relations are related.
  \<^item> \<^verbatim>\<open>C_String\<close>, \<^verbatim>\<open>Xdr\<close>, \<^verbatim>\<open>Pthread\<close>: the parts of the C library the program calls. \<^verbatim>\<open>Xdr\<close> has the locales
    \<open>codec\<close> and \<open>sized_codec\<close>, interpreted for every message structure.
  \<^item> \<^verbatim>\<open>Utility\<close>: \<^verbatim>\<open>utility.c\<close>, with the \<^verbatim>\<open>dispatcher\<close> and the thread function \<^verbatim>\<open>run\<close> that lock server and migrator
    share, generic in the function that parses the arguments.
  \<^item> \<^verbatim>\<open>Lock_Msg\<close>, \<^verbatim>\<open>Lock_Dispatch\<close>: lock messages, stubs and \<^verbatim>\<open>parse_thread_data\<close>.
  \<^item> \<^verbatim>\<open>Lock_Client\<close>, \<^verbatim>\<open>Lock_Init\<close>: the client library and the initialisation of a server.
  \<^item> \<^verbatim>\<open>Lock_Server\<close>: the record \<open>server\<close> is the file-scope state of \<^verbatim>\<open>psu_dist_lock_mgr_server.c\<close>;
    \<open>request_step\<close>, \<open>acquire_step\<close> and \<open>release_step\<close> execute one statement of \<^verbatim>\<open>request_1_svc\<close>,
    \<^verbatim>\<open>acquire_lock_1_svc\<close> and \<^verbatim>\<open>release_lock_1_svc\<close>, or one access of a statement that reads and writes shared fields. The
    table of lock variables is an interpretation of the locale \<open>keyed_store\<close>. \<^verbatim>\<open>Lock_Sequential\<close> runs the procedures
    without interference.
  \<^item> \<^verbatim>\<open>Lock_System\<close>: all servers, handler threads and client threads of a cluster; an event is one
    step of one thread, and \<open>sys_run\<close> executes any list of events.
  \<^item> \<^verbatim>\<open>Permission_Protocol\<close>: an abstraction of what the servers do with permissions, used in proofs only; it stands for no
    lines of the source, and it is not the algorithm of Ricart and Agrawala, from which the code departs: a
    release leaves the request standing, and the flag is raised before the number is drawn. \<^verbatim>\<open>Lock_Refinement\<close> and
    \<^verbatim>\<open>Lock_Invariant\<close> show that every step of the servers is a step of this protocol, or leaves its state alone, or
    is one of three faults: a missing reply, a wrapped number, a lost update. \<^verbatim>\<open>Lock_Numbers\<close> bounds the sequence numbers of
    every run, \<^verbatim>\<open>Lock_Runs\<close> treats the runs without fault. \<^verbatim>\<open>Lock_Properties\<close> draws the consequences, among them the
    refinement of an atomic lock as its users see it.
  \<^item> \<^verbatim>\<open>Lock_Liveness\<close>: states in which waiting threads stay blocked. \<^verbatim>\<open>Lock_Progress\<close> lifts the runs of
    single procedures to the cluster and shows that a lock used by one machine is always granted;
    \<^verbatim>\<open>Lock_Handover\<close> that a deferred request can be woken by the release, and what a wrapped sequence number
    does. \<^verbatim>\<open>Lock_Lone\<close> and \<^verbatim>\<open>Lock_Termination\<close> treat any number of threads on one machine.
    \<^verbatim>\<open>Lock_Application\<close> separates the threads of applications from the server threads that work for them.
  \<^item> \<^verbatim>\<open>Dsm_Msg\<close>, \<^verbatim>\<open>Dsm_Util\<close>, \<^verbatim>\<open>Dsm_Server\<close>, \<^verbatim>\<open>Dsm_Client\<close>: the files of the shared memory, a definition per
    function, procedures as programs over the state of all machines (\<open>dsm_prog\<close>); \<^verbatim>\<open>Dsm_Properties\<close>
    has what holds in all reachable states. \<^verbatim>\<open>Dsm_Heap\<close> has the lists of \<^verbatim>\<open>util.c\<close> as cells and pointers in
    memory (locale \<open>page_list\<close>), \<^verbatim>\<open>Dsm_Wire\<close> whole calls from the number and bytes a stub sends to the result it decodes (locale
    \<open>remote_procedure\<close>), and \<^verbatim>\<open>Dsm_Concurrent\<close> servers that search for pages at the same time.
  \<^item> \<^verbatim>\<open>Thread_Msg\<close>, \<^verbatim>\<open>Thread_Migrate\<close>: the context message and the two ends of a migration.
  \<^item> \<^verbatim>\<open>Rpc_Service\<close>, \<^verbatim>\<open>Services\<close>: the functions \<^verbatim>\<open>main\<close> of the three servers and the port mapper; the locale
    \<open>rpc_server\<close> has what the three have in common.
  \<^item> \<^verbatim>\<open>Lock_Test\<close>, \<^verbatim>\<open>Dsm_Test\<close>, \<^verbatim>\<open>Thread_Test\<close>: the test programs run against the rest.

  \<^bold>\<open>When the lock manager excludes.\<close> Two threads of one machine never hold the same lock, in any run. Threads of
  different machines exclude each other, over all interleavings, under three conditions, each of which is shown to be needed.
  Every request is answered: an unanswered one counts as a permission (\<open>no_reply_breaks_exclusion\<close>). At most \<open>INT_MAX\<close>
  sequence numbers are drawn: the next one wraps (\<open>sequence_wrap_breaks_exclusion\<close>). And no update of
  \<open>highestseqno\<close> is lost: the statement \<^verbatim>\<open>highestseqno = MAX(seqno, highestseqno)\<close> reads and writes the field without a mutex, and
  with three machines two handlers can interleave so that the larger number is overwritten
  (\<open>lost_update_breaks_exclusion\<close>). With two machines, or whenever each server is asked by one machine only, no update can be
  lost, which is proved and not assumed.

  \<^bold>\<open>What else is shown.\<close> The only way for a lock server to end; that its pointers and tables stay sound; bounds of sequence
  numbers in every run; that a lock is granted to its only user, and that threads of one
  machine always finish; the behaviour of each remote procedure on each branch; how servers start and fail to
  start; that node lists, requests, pages and contexts survive the wire; termination and memory
  safety of the buffer that collects node names; the value of the hardware address and of the page
  hash. Where the program does not do what it means to, the theorem states what it
  does: locks that are lost after their first use, a directory that stays empty, memory that is not
  shared between machines, a fault handler that never copies a page, an application that goes on without its lock when its
  call expires, servers that wait for each other. The simplifications of the shared memory model are justified inside it: the
  list functions are refined by pointer programs, which also shows the cells that leak, and a direct call of a
  procedure equals the remote call with its stub, messages and dispatcher.

  \<^bold>\<open>Choices.\<close> A C \<open>int\<close> that can overflow is an \<open>int\<close> with \<open>c_int\<close> around the sum. Memory is sequentially consistent: the
  steps of the threads are accesses to shared fields, in some order. \<^verbatim>\<open>MAX\<close> reads the field once (a second read of the
  macro acts as a later single one as long as no update is lost), and one operation on a \<open>GArray\<close> is
  one step; two threads that work on one \<open>GArray\<close> at the same instant, which the source does not exclude for the
  deferred requests, and weaker memory are not modelled. A request call returns with its reply or, at any moment, without: the event
  \<open>No_reply\<close>, for the time limit of an hour and for a connection that is lost because the process called has ended; the
  caller cannot tell them apart and ignores the status. Connecting to a process that has ended fails, and the caller exits. Locking
  a destroyed mutex either returns or blocks, both are covered; destroying a locked mutex leaves it as it
  is. \<open>run_alone\<close> has a budget of 10, 7 and \<open>2 * d + 5\<close> steps for a request, an acquire and a release, \<open>d\<close> the number of deferred
  requests, which the lemmas show to be enough. Servers of the shared memory run one procedure at a time; their procedures are
  atomic but for the creation of pages in \<^verbatim>\<open>Dsm_Concurrent\<close>, where a server that is free answers in time. Writes outside a
  variable go on where the layout says what they hit: a bit of a server that is not in the table goes to the size
  in the page identifier, and what the locate stub writes behind its variable is part of its result. Arguments stand
  for the operating system: interface lists, \<open>clnt_create\<close>, the host behind an address, whether a segment can be had, and values
  of variables read before they are written. The outcome \<open>Use_after_free\<close> of the fault handler says that C gives the rest
  no meaning, not that the process ends.

  \<^bold>\<open>Not modelled.\<close> Freeing of memory (the functions \<^verbatim>\<open>*_freeresult\<close> return 1) and most printing; the transport of a
  server thread whose client has closed the connection; what a thread does after \<open>setcontext\<close> has resumed it
  (\<open>fork\<close> itself is an argument), such as the end of \<^verbatim>\<open>foo\<close> in \<^verbatim>\<open>psu_thread_test.c\<close>; \<open>svc_run\<close>, which never returns.
  The declarations in the header files that repeat function types have no counterpart.
\<close>

section \<open>From the command line to mutual exclusion\<close>

lemma deployed_init:
  assumes "\<forall>h \<in> set hosts. started (ifs h) (map addr hosts) = Inr (srvs h)"
    and "\<forall>h \<in> set hosts. servers s h = srvs h" "\<forall>h. h \<notin> set hosts \<longrightarrow> lockvar_list (servers s h) = []"
    and "\<forall>c. cl_pc (clients s c) = Idle" "handlers s = []"
  shows "sys_init s"
proof -
  have "lockvar_list (servers s h) = []" for h
    using assms(1-3) started_empty [of "ifs h" "map addr hosts" "srvs h"] by (cases "h \<in> set hosts") auto
  with assms(4,5) show ?thesis by (simp add: sys_init_def)
qed

lemma served_started:
  assumes "lock_main (Some addrs) svc_create rpcbind = Serving srv0 cs rpcbind'"
    and "init_lock_mgr_1_svc (Some addrs) (join '','' addresses) srv0 = Inr srv"
  shows "started addrs addresses = Inr srv"
  using lock_service.serving_init [OF assms(1)] assms(2) by (simp add: started_def)

text \<open>In a cluster of two machines a server is asked by the other machine only.\<close>

lemma started_one_asker:
  assumes "\<forall>h \<in> set hosts. started (ifs h) (map addr hosts) = Inr (srvs h)"
    and "\<forall>h \<in> set hosts. is_token CHR '','' (addr h)"
    and own: "\<forall>h \<in> set hosts. \<forall>d \<in> set hosts. addr d \<in> set (local_ips (ifs h)) \<longleftrightarrow> d = h"
    and res: "\<forall>h \<in> set hosts. resolve (addr h) = Some h"
    and s: "cluster s = hosts" "\<forall>h \<in> set hosts. servers s h = srvs h" and two: "length hosts \<le> 2"
  shows "one_asker resolve s"
  unfolding one_asker_def
proof (intro ballI impI)
  fix h h' a a'
  assume h: "h \<in> set (cluster s)" "h' \<in> set (cluster s)" "a \<in> set (nodes (servers s h))" "a' \<in> set (nodes (servers s h'))"
    and a: "resolve a = resolve a'"
  have node: "\<exists>d \<in> set hosts. d \<noteq> k \<and> resolve x = Some d" if "k \<in> set hosts" "x \<in> set (nodes (servers s k))" for k x
    using started_fields(2) [of ifs k addr hosts "srvs k"] assms that by auto
  obtain d d' where d: "d \<in> set hosts" "d \<noteq> h" "resolve a = Some d" "d' \<noteq> h'" "resolve a' = Some d'"
    using node h s(1) by metis
  show "h = h'"
  proof (rule ccontr)
    assume "h \<noteq> h'"
    with d a have "card {h, h', d} = 3" by simp
    moreover have "card {h, h', d} \<le> card (set hosts)" using h(1,2) d(1) s(1) by (intro card_mono) auto
    ultimately show False using card_length [of hosts] two by simp
  qed
qed

text \<open>
  C1. The lock manager as it is deployed. On every machine of a cluster \<^verbatim>\<open>main\<close> of the server gets as far as
  serving calls, and the server is initialised with the comma-separated addresses of all machines.
  If the machines know their own addresses, have different hardware addresses and reach each other, every
  request is answered, at most \<open>INT_MAX\<close> sequence numbers are drawn, and there are at most two machines or no
  update of a highest sequence number is lost, then in every later state at most one client thread in the cluster
  holds a given lock.
\<close>

theorem deployed_mutual_exclusion:
  assumes "\<forall>h \<in> set hosts. lock_main (Some (ifs h)) (svc_create h) (rpcbind h) = Serving (booted h) (cs h) (rpcbind' h)"
    and "\<forall>h \<in> set hosts. init_lock_mgr_1_svc (Some (ifs h)) (join '','' (map addr hosts)) (booted h) = Inr (srvs h)"
    and "\<forall>h \<in> set hosts. is_token CHR '','' (addr h)"
    and "\<forall>h \<in> set hosts. \<forall>d \<in> set hosts. addr d \<in> set (local_ips (ifs h)) \<longleftrightarrow> d = h"
    and "\<forall>h \<in> set hosts. resolve (addr h) = Some h"
    and "inj_on (\<lambda>h. get_mac_address (Some (ifs h))) (set hosts)"
    and "cluster s = hosts" "\<forall>h \<in> set hosts. servers s h = srvs h"
      "\<forall>c. cl_host (clients s c) \<in> set hosts"
    and "\<forall>h. h \<notin> set hosts \<longrightarrow> lockvar_list (servers s h) = []"
      "\<forall>c. cl_pc (clients s c) = Idle" "handlers s = []"
    and "sys_run einval resolve es s = Some t" and "int (draws einval resolve es s) \<le> INT_MAX"
    and "\<not> list_ex no_reply es" and "length hosts \<le> 2 \<or> race_free einval resolve es s"
    and "holds_lock t c n" and "c' \<noteq> c"
  shows "\<not> holds_lock t c' n"
proof -
  have st: "\<forall>h \<in> set hosts. started (ifs h) (map addr hosts) = Inr (srvs h)"
    using assms(1,2) served_started by blast
  have "one_asker resolve s \<or> race_free einval resolve es s"
    using started_one_asker [OF st assms(3-5,7,8)] assms(16) by blast
  from exclusive_run [OF deployed_init [OF st assms(8,10-12)] started_connected [OF st assms(3-9)] assms(13-15) this assms(17)]
    assms(18) show ?thesis by blast
qed

definition pair_fresh :: "host \<Rightarrow> server" where
  "pair_fresh h = (pair_server h)\<lparr>nodes := [], has_initialized := False\<rparr>"

definition pair_ports :: portmap where
  "pair_ports = (without PSU_DIST_LOCK_MGR PSU_DIST_LOCK_MGR_V1 Map.empty)
     ((PSU_DIST_LOCK_MGR, PSU_DIST_LOCK_MGR_V1, UDP) \<mapsto> 700, (PSU_DIST_LOCK_MGR, PSU_DIST_LOCK_MGR_V1, TCP) \<mapsto> 700)"

lemma pair_served:
  assumes "h \<in> {5, 6}"
  shows "lock_main (Some (pair_ifs h)) (\<lambda>p. Some 700) (Some Map.empty) = Serving (pair_fresh h)
      [((PSU_DIST_LOCK_MGR, PSU_DIST_LOCK_MGR_V1), Lock_run)] (Some pair_ports)"
    and "init_lock_mgr_1_svc (Some (pair_ifs h)) (join '','' (map pair_addr [5, 6])) (pair_fresh h) = Inr (pair_server h)"
proof -
  have "initialize_global_variable (Some (pair_ifs h)) = Inr (pair_fresh h)"
    using assms by (auto simp: initialize_global_variable_def pair_mac pair_fresh_def pair_server_def)
  then show "lock_main (Some (pair_ifs h)) (\<lambda>p. Some 700) (Some Map.empty) = Serving (pair_fresh h)
      [((PSU_DIST_LOCK_MGR, PSU_DIST_LOCK_MGR_V1), Lock_run)] (Some pair_ports)"
    unfolding pair_ports_def by (intro lock_service.serves) simp_all
  show "init_lock_mgr_1_svc (Some (pair_ifs h)) (join '','' (map pair_addr [5, 6])) (pair_fresh h) = Inr (pair_server h)"
    using assms init_splits [of "map pair_addr [5, 6]" "pair_ifs 5"] init_splits [of "map pair_addr [5, 6]" "pair_ifs 6"]
    by (auto simp: pair_ips pair_server_def pair_fresh_def pair_addr_def is_token_def simp del: join.simps)
qed

lemma pair_run: "sys_run True pair_resolve demo_contention pair_sys =
    Some (the (sys_run True pair_resolve demo_contention pair_sys))"
  "draws True pair_resolve demo_contention pair_sys = 2"
  "holds_lock (the (sys_run True pair_resolve demo_contention pair_sys)) 0 7"
  by (simp_all add: demo_contention_def pair_sys_def pair_server_def pair_resolve_def demo_defs run_defs
      holds_lock_def)

theorem deployed_mutual_exclusion_witness:
  "holds_lock (the (sys_run True pair_resolve demo_contention pair_sys)) 0 7 \<and>
   \<not> holds_lock (the (sys_run True pair_resolve demo_contention pair_sys)) 1 7"
proof -
  have "\<not> holds_lock (the (sys_run True pair_resolve demo_contention pair_sys)) 1 7"
    by (rule deployed_mutual_exclusion [where hosts = "[5, 6]" and ifs = pair_ifs and addr = pair_addr
          and srvs = pair_server and booted = pair_fresh and resolve = pair_resolve and s = pair_sys
          and es = demo_contention and einval = True and c = 0 and svc_create = "\<lambda>h p. Some 700"
          and rpcbind = "\<lambda>h. Some Map.empty" and rpcbind' = "\<lambda>h. Some pair_ports"
          and cs = "\<lambda>h. [((PSU_DIST_LOCK_MGR, PSU_DIST_LOCK_MGR_V1), Lock_run)]"])
      (use pair_served pair_run demo_contention_replies in \<open>simp_all add: pair_sys_def pair_ips pair_mac
        pair_addr_def pair_resolve_def is_token_def pair_server_def INT_MAX_def\<close>)
  with pair_run(3) show ?thesis by simp
qed

end
